(* ===== verification/Prelude.thy ===== *)
theory Prelude
  imports Main "HOL-Library.Word" "HOL-Library.Sublist"
begin

text \<open>
  Shared vocabulary of the development: the machine integers of the analyzer
  (\<open>std::uint64_t\<close>, \<open>std::uint32_t\<close>, \<open>long long\<close>), the C character classes of the
  C locale that its text handling calls, substring search on byte strings, and the
  collections of facts the component theories extend.
  A C++ \<open>std::string\<close> is a \<open>string\<close> (a list of bytes).
\<close>

named_theorems range_laws \<open>denotation and well-formedness of byte range sets\<close>
named_theorems text_defs \<open>character classes and string helpers, to be unfolded\<close>

section \<open>Machine integers\<close>

type_synonym u64 = "64 word"
type_synonym u32 = "32 word"
type_synonym i64 = "64 word" \<comment> \<open>read through \<^const>\<open>sint\<close>\<close>

abbreviation u64_max :: u64 where "u64_max \<equiv> - 1"
abbreviation u32_max :: u32 where "u32_max \<equiv> - 1"

abbreviation i64_min :: int where "i64_min \<equiv> - (2 ^ 63)"
abbreviation i64_max :: int where "i64_max \<equiv> 2 ^ 63 - 1"

lemma u64_max_nat: "unat u64_max = 2 ^ 64 - 1"
  by (simp add: unsigned_minus_1_eq_mask mask_eq_exp_minus_1)

lemma u32_max_nat: "unat u32_max = 2 ^ 32 - 1"
  by (simp add: unsigned_minus_1_eq_mask mask_eq_exp_minus_1)

lemma u64_lt_size: "unat (x :: u64) < 2 ^ 64"
  using unsigned_less [of x] by simp

lemma u32_lt_size: "unat (x :: u32) < 2 ^ 32"
  using unsigned_less [of x] by simp

lemma u64_add_exact: "unat a + unat b < 2 ^ 64 \<Longrightarrow> unat (a + b :: u64) = unat a + unat b"
  using unat_add_lem [of a b] by simp

lemma u64_mul_exact: "unat a * unat b < 2 ^ 64 \<Longrightarrow> unat (a * b :: u64) = unat a * unat b"
  using unat_mult_lem [of a b] by simp

lemma lt_imp_nle: "(a :: 'a :: linorder) < b \<Longrightarrow> (b \<le> a) = False"
  by simp

lemma u64_sub_mono: "(a :: u64) \<le> c \<Longrightarrow> c \<le> e \<Longrightarrow> e - c \<le> e - a"
  by (simp add: word_le_nat_alt unat_sub)

lemma u64_sub_mono2: "(a :: u64) \<le> c \<Longrightarrow> c \<le> e \<Longrightarrow> c - a \<le> e - a"
  by (simp add: word_le_nat_alt unat_sub)

section \<open>Character classes\<close>

definition isspace :: "char \<Rightarrow> bool" where
  "isspace c = (c \<in> {CHR '' '', CHR 0x09, CHR 0x0A, CHR 0x0B, CHR 0x0C, CHR 0x0D})"

definition isdigit :: "char \<Rightarrow> bool" where
  "isdigit c = ((48 :: nat) \<le> of_char c \<and> of_char c \<le> (57 :: nat))"

definition isupper :: "char \<Rightarrow> bool" where
  "isupper c = ((65 :: nat) \<le> of_char c \<and> of_char c \<le> (90 :: nat))"

definition tolower :: "char \<Rightarrow> char" where
  "tolower c = (if isupper c then char_of (of_char c + 32 :: nat) else c)"

definition digit_value :: "char \<Rightarrow> nat" where
  "digit_value c = of_char c - 48"

declare isspace_def [text_defs] isdigit_def [text_defs] isupper_def [text_defs]
  tolower_def [text_defs] digit_value_def [text_defs]

lemma tolower_not_upper: "\<not> isupper (tolower c)"
proof (cases "isupper c")
  case True
  then have "of_char (char_of (of_char c + 32 :: nat) :: char) = of_char c + (32 :: nat)"
    by (simp add: isupper_def take_bit_nat_eq_self)
  with True show ?thesis by (simp add: tolower_def isupper_def)
qed (simp add: tolower_def)

lemma tolower_idem [simp]: "tolower (tolower c) = tolower c"
  using tolower_not_upper [of c] by (simp add: tolower_def [of "tolower c"])

lemma map_tolower_idem [simp]: "map tolower (map tolower s) = map tolower s"
  by simp

lemma digit_value_bound: "isdigit c \<Longrightarrow> digit_value c \<le> 9"
  unfolding isdigit_def digit_value_def by linarith

section \<open>Decimal numbers\<close>

text \<open>\<open>std::to_string\<close> of an unsigned number.\<close>

fun to_string :: "nat \<Rightarrow> string" where
  "to_string n = (if n < 10 then [char_of (48 + n)] else to_string (n div 10) @ [char_of (48 + n mod 10)])"

declare to_string.simps [simp del]

text \<open>The number a decimal numeral stands for.\<close>

fun digitsValue :: "nat \<Rightarrow> string \<Rightarrow> nat" where
  "digitsValue acc [] = acc"
| "digitsValue acc (c # cs) = digitsValue (10 * acc + (of_char c - 48)) cs"

lemma digits_append: "digitsValue acc (cs @ ds) = digitsValue (digitsValue acc cs) ds"
  by (induction cs arbitrary: acc) simp_all

lemma digit_char: "n < 10 \<Longrightarrow> of_char (char_of (48 + n) :: char) = (48 + n :: nat)"
  by simp

lemma numeral_roundtrip: "digitsValue 0 (to_string n) = n"
proof (induction n rule: to_string.induct)
  case (1 n)
  show ?case
  proof (cases "n < 10")
    case True
    thus ?thesis by (simp add: to_string.simps [of n])
  next
    case False
    hence "to_string n = to_string (n div 10) @ [char_of (48 + n mod 10)]"
      by (simp add: to_string.simps [of n])
    moreover have "digitsValue 0 (to_string (n div 10)) = n div 10" by (rule "1.IH" [OF False])
    ultimately show ?thesis by (simp add: digits_append)
  qed
qed

lemma to_string_inject [simp]: "to_string m = to_string n \<longleftrightarrow> m = n"
  by (metis numeral_roundtrip)

lemma to_string_digits: "list_all isdigit (to_string n)"
proof (induction n rule: to_string.induct)
  case (1 n)
  have d: "isdigit (char_of (48 + k))" if "k < 10" for k :: nat
    using that digit_char [OF that] by (simp add: isdigit_def)
  show ?case
  proof (cases "n < 10")
    case True
    then show ?thesis using d by (simp add: to_string.simps [of n])
  next
    case False
    then show ?thesis using 1 [OF False] d [of "n mod 10"] by (simp add: to_string.simps [of n])
  qed
qed

lemma to_string_ne [simp]: "to_string n \<noteq> []"
  by (simp add: to_string.simps [of n])

section \<open>Substring search\<close>

text \<open>\<open>std::string::find\<close>: the offset of the first occurrence.\<close>

fun find_sub :: "'a list \<Rightarrow> 'a list \<Rightarrow> nat option" where
  "find_sub needle [] = (if needle = [] then Some 0 else None)"
| "find_sub needle (c # cs) =
     (if prefix needle (c # cs) then Some 0 else map_option Suc (find_sub needle cs))"

definition contains :: "'a list \<Rightarrow> 'a list \<Rightarrow> bool" where
  "contains needle hay = (find_sub needle hay \<noteq> None)"

lemma find_sub_Some:
  "find_sub needle hay = Some n \<Longrightarrow>
     hay = take n hay @ needle @ drop (n + length needle) hay \<and> n \<le> length hay"
proof (induction hay arbitrary: n)
  case Nil
  then show ?case by (simp split: if_splits)
next
  case (Cons c cs)
  show ?case
  proof (cases "prefix needle (c # cs)")
    case True
    with Cons.prems have "n = 0" by simp
    with True show ?thesis by (auto simp: prefix_def)
  next
    case False
    with Cons.prems obtain m where "find_sub needle cs = Some m" and "n = Suc m" by auto
    with Cons.IH show ?thesis by auto
  qed
qed

lemma find_sub_None_iff: "find_sub needle hay = None \<longleftrightarrow> \<not> (\<exists>us vs. hay = us @ needle @ vs)"
proof (induction hay)
  case Nil
  then show ?case by simp
next
  case (Cons c cs)
  have "(\<exists>us vs. c # cs = us @ needle @ vs) \<longleftrightarrow>
      prefix needle (c # cs) \<or> (\<exists>us vs. cs = us @ needle @ vs)"
    by (auto simp: prefix_def Cons_eq_append_conv)
  with Cons.IH show ?case by auto
qed

lemma contains_iff_sublist: "contains needle hay \<longleftrightarrow> sublist needle hay"
  by (auto simp: contains_def sublist_def find_sub_None_iff)

section \<open>Lists\<close>

lemma takeWhile_all_not: "(\<forall>x \<in> set xs. \<not> P x) \<Longrightarrow> takeWhile P xs = []"
  by (cases xs) auto

lemma set_takeWhile_sat: "x \<in> set (takeWhile P xs) \<Longrightarrow> P x \<and> x \<in> set xs"
  by (induction xs) (auto split: if_splits)

lemma dropWhile_hd: "dropWhile P xs = y # ys \<Longrightarrow> \<not> P y"
  by (induction xs) (auto split: if_splits)

lemma sorted_wrt_append_Cons:
  "sorted_wrt R (xs @ y # ys) \<longleftrightarrow>
     sorted_wrt R xs \<and> sorted_wrt R ys \<and> (\<forall>x \<in> set xs. R x y \<and> (\<forall>z \<in> set ys. R x z)) \<and>
     (\<forall>z \<in> set ys. R y z)"
  by (auto simp: sorted_wrt_append)

section \<open>Trimming, lines and quotes\<close>

text \<open>\<open>trimCopy\<close> of several files.\<close>

definition trimCopy :: "string \<Rightarrow> string" where
  "trimCopy input = rev (dropWhile isspace (rev (dropWhile isspace input)))"

text \<open>\<open>std::getline\<close> until the end of the file: a final newline starts no further line.\<close>

fun linesOf :: "string \<Rightarrow> string list" where
  "linesOf [] = []"
| "linesOf (c # cs) =
     (if c = CHR 0x0A then [] # linesOf cs
      else case linesOf cs of [] \<Rightarrow> [[c]] | l # ls \<Rightarrow> (c # l) # ls)"

definition unlines :: "string list \<Rightarrow> string" where
  "unlines ls = concat (map (\<lambda>l. l @ [CHR 0x0A]) ls)"

lemma lines_of_concat:
  "\<forall>l \<in> set ls. CHR 0x0A \<notin> set l \<Longrightarrow> linesOf (concat (map (\<lambda>l. l @ [CHR 0x0A]) ls)) = ls"
proof (induction ls)
  case (Cons l ls)
  have "CHR 0x0A \<notin> set l \<Longrightarrow> linesOf (l @ CHR 0x0A # rest) = l # linesOf rest" for rest
    by (induction l) auto
  with Cons show ?case by simp
qed simp

lemma takeWhile_word:
  "\<forall>c \<in> set w. P c \<Longrightarrow> s = [] \<or> \<not> P (hd s) \<Longrightarrow> takeWhile P (w @ s) = w \<and> dropWhile P (w @ s) = s"
  by (induction w) (cases s; auto)+

definition quoted :: "string \<Rightarrow> string" where
  "quoted s = [CHR 0x27] @ s @ [CHR 0x27]"

end
