(* ===== verification/RangeSets.thy ===== *)
theory RangeSets
  imports Prelude
begin

text \<open>
  The byte range sets of \<open>src/analysis/UninitializedVarAnalysis.cpp\<close>: \<open>ByteRange\<close>,
  \<open>RangeSet\<close> and the operations every state of the uninitialized-read analysis is built
  from. A range set stands for the set of bytes it covers (\<open>bytes\<close>); \<open>wf_ranges\<close> is the
  invariant the code keeps (non-empty ranges, ascending, separated by at least one byte).
  Under it \<open>addRange\<close> is union, \<open>intersectRanges\<close> is intersection, \<open>isRangeCovered\<close> is
  inclusion, and a set has one representation only, so the code's comparison of vectors
  is equality of sets.
\<close>

section \<open>Data\<close>

record byte_range =
  br_begin :: u64
  br_end :: u64  \<comment> \<open>half open: begin inclusive, end exclusive\<close>

type_synonym range_set = "byte_range list"

datatype InitLatticeState = Uninit | Partial | Init

section \<open>Operations\<close>

definition saturatingAdd :: "u64 \<Rightarrow> u64 \<Rightarrow> u64" where
  "saturatingAdd lhs rhs = (if lhs > u64_max - rhs then u64_max else lhs + rhs)"

text \<open>
  The loop that swallows the successors of the widened range: it returns the final end and
  the ranges that stay. \<open>std::lower_bound\<close> on a list partitioned by the comparison is the
  first element for which the comparison fails: \<open>dropWhile\<close>.
\<close>

fun absorbFollowing :: "u64 \<Rightarrow> range_set \<Rightarrow> u64 \<times> range_set" where
  "absorbFollowing e [] = (e, [])"
| "absorbFollowing e (n # ns) =
     (if br_begin n \<le> e then absorbFollowing (max e (br_end n)) ns else (e, n # ns))"

definition addRange :: "range_set \<Rightarrow> u64 \<Rightarrow> u64 \<Rightarrow> range_set" where
  "addRange ranges b e =
     (if b \<ge> e then ranges
      else
        let before = takeWhile (\<lambda>r. br_end r < b) ranges;
            rest = dropWhile (\<lambda>r. br_end r < b) ranges
        in case rest of
             [] \<Rightarrow> ranges @ [\<lparr>br_begin = b, br_end = e\<rparr>]
           | it # nxt \<Rightarrow>
               if e < br_begin it
               then before @ \<lparr>br_begin = b, br_end = e\<rparr> # rest
               else
                 let (e', kept) = absorbFollowing (max (br_end it) e) nxt
                 in before @ \<lparr>br_begin = min (br_begin it) b, br_end = e'\<rparr> # kept)"

fun intersectRanges :: "range_set \<Rightarrow> range_set \<Rightarrow> range_set" where
  "intersectRanges (l # ls) (r # rs) =
     (let b = max (br_begin l) (br_begin r);
          e = min (br_end l) (br_end r);
          out = (if b < e then [\<lparr>br_begin = b, br_end = e\<rparr>] else [])
      in if br_end l < br_end r
         then out @ intersectRanges ls (r # rs)
         else out @ intersectRanges (l # ls) rs)"
| "intersectRanges _ _ = []"

fun isRangeCovered :: "range_set \<Rightarrow> u64 \<Rightarrow> u64 \<Rightarrow> bool" where
  "isRangeCovered [] b e = (b \<ge> e)"
| "isRangeCovered (r # rs) b e =
     (if b \<ge> e then True
      else if br_begin r \<le> b \<and> br_end r \<ge> e then True
      else if br_begin r > b then False
      else isRangeCovered rs b e)"

text \<open>
  The loop of \<open>isRangeCoveredAllowingSmallInteriorGaps\<close>: \<open>Inl\<close> is a \<open>return\<close> from
  inside the loop, \<open>Inr\<close> the cursor when it ends or breaks.
\<close>

fun gapScan :: "u64 \<Rightarrow> u64 \<Rightarrow> u64 \<Rightarrow> range_set \<Rightarrow> u64 \<Rightarrow> bool + u64" where
  "gapScan b e maxGap [] cursor = Inr cursor"
| "gapScan b e maxGap (r # rs) cursor =
     (if br_end r \<le> cursor then gapScan b e maxGap rs cursor
      else if br_begin r \<ge> e then Inr cursor
      else
        let gapBegin = cursor;
            gapEnd = min (br_begin r) e;
            isInterior = (gapBegin > b \<and> gapEnd < e);
            gapSize = gapEnd - gapBegin
        in if gapBegin < gapEnd \<and> (\<not> isInterior \<or> gapSize > maxGap) then Inl False
           else
             let cursor' = (if br_begin r \<le> cursor then max cursor (min (br_end r) e) else cursor)
             in if cursor' \<ge> e then Inl True else gapScan b e maxGap rs cursor')"

definition isRangeCoveredAllowingGaps :: "range_set \<Rightarrow> u64 \<Rightarrow> u64 \<Rightarrow> u64 \<Rightarrow> bool" where
  "isRangeCoveredAllowingGaps initialized b e maxGap =
     (if b \<ge> e then True
      else case gapScan b e maxGap initialized b of
             Inl res \<Rightarrow> res
           | Inr cursor \<Rightarrow>
               if cursor < e \<and> (\<not> cursor > b \<or> e - cursor > maxGap) then False else True)"

definition isRangeCoveredAllowingSmallInteriorGaps :: "range_set \<Rightarrow> u64 \<Rightarrow> u64 \<Rightarrow> bool" where
  "isRangeCoveredAllowingSmallInteriorGaps initialized b e =
     isRangeCoveredAllowingGaps initialized b e 7"

definition addRangeFromBitOffsets :: "range_set \<Rightarrow> u64 \<Rightarrow> u64 \<Rightarrow> range_set" where
  "addRangeFromBitOffsets out beginBits endBits =
     (if beginBits \<ge> endBits then out
      else addRange out (beginBits div 8) ((endBits + 7) div 8))"

definition classifyInitState :: "range_set \<Rightarrow> u64 \<Rightarrow> InitLatticeState" where
  "classifyInitState initialized totalSize =
     (if totalSize = 0 \<or> initialized = [] then Uninit
      else if length initialized = 1 \<and> br_begin (hd initialized) = 0 \<and>
              br_end (hd initialized) \<ge> totalSize then Init
      else Partial)"

section \<open>Denotation and invariant\<close>

definition range_bytes :: "byte_range \<Rightarrow> u64 set" where
  "range_bytes r = {br_begin r ..< br_end r}"

definition bytes :: "range_set \<Rightarrow> u64 set" where
  "bytes rs = (\<Union>r \<in> set rs. range_bytes r)"

definition wf_ranges :: "range_set \<Rightarrow> bool" where
  "wf_ranges rs \<longleftrightarrow>
     sorted_wrt (\<lambda>r s. br_end r < br_begin s) rs \<and> (\<forall>r \<in> set rs. br_begin r < br_end r)"

lemma bytes_simps [simp]:
  "bytes [] = {}"
  "bytes (r # rs) = {br_begin r ..< br_end r} \<union> bytes rs"
  "bytes (xs @ ys) = bytes xs \<union> bytes ys"
  by (auto simp: bytes_def range_bytes_def)

lemma in_bytes: "x \<in> bytes rs \<longleftrightarrow> (\<exists>r \<in> set rs. br_begin r \<le> x \<and> x < br_end r)"
  by (auto simp: bytes_def range_bytes_def)

lemma wf_ranges_Nil [simp]: "wf_ranges []"
  by (simp add: wf_ranges_def)

lemma wf_ranges_Cons:
  "wf_ranges (r # rs) \<longleftrightarrow>
     br_begin r < br_end r \<and> (\<forall>s \<in> set rs. br_end r < br_begin s) \<and> wf_ranges rs"
  by (auto simp: wf_ranges_def)

lemma wf_ranges_append:
  "wf_ranges (xs @ ys) \<longleftrightarrow>
     wf_ranges xs \<and> wf_ranges ys \<and> (\<forall>x \<in> set xs. \<forall>y \<in> set ys. br_end x < br_begin y)"
  by (auto simp: wf_ranges_def sorted_wrt_append)

section \<open>Union\<close>

lemma saturatingAdd_exact: "unat (saturatingAdd a b) = min (2 ^ 64 - 1) (unat a + unat b)"
proof -
  have le: "unat (u64_max - b) = 2 ^ 64 - 1 - unat b"
    using u64_max_nat u64_lt_size [of b] by (subst unat_sub) (simp_all add: word_le_nat_alt)
  show ?thesis
  proof (cases "a > u64_max - b")
    case True
    then have "2 ^ 64 - 1 < unat a + unat b" using le by (simp add: word_less_nat_alt)
    with True show ?thesis by (simp add: saturatingAdd_def u64_max_nat)
  next
    case False
    then have "unat a + unat b < 2 ^ 64"
      using le u64_lt_size [of b] by (simp add: word_less_nat_alt)
    with False show ?thesis by (simp add: saturatingAdd_def u64_add_exact)
  qed
qed

lemma absorbFollowing_spec:
  assumes "absorbFollowing e ns = (e', kept)" and "wf_ranges ns"
    and "\<forall>n \<in> set ns. b \<le> br_begin n" and "b < e"
  shows "{b ..< e'} \<union> bytes kept = {b ..< e} \<union> bytes ns" and "e \<le> e'" and "wf_ranges kept"
    and "\<forall>n \<in> set kept. e' < br_begin n" and "set kept \<subseteq> set ns"
proof -
  have "{b ..< e'} \<union> bytes kept = {b ..< e} \<union> bytes ns \<and> e \<le> e' \<and> wf_ranges kept \<and>
      (\<forall>n \<in> set kept. e' < br_begin n) \<and> set kept \<subseteq> set ns"
    using assms
  proof (induction e ns rule: absorbFollowing.induct)
    case (1 e)
    then show ?case by simp
  next
    case (2 e n ns)
    show ?case
    proof (cases "br_begin n \<le> e")
      case True
      with 2 have ih: "{b..<e'} \<union> bytes kept = {b..<max e (br_end n)} \<union> bytes ns \<and>
          max e (br_end n) \<le> e' \<and> wf_ranges kept \<and> (\<forall>n \<in> set kept. e' < br_begin n) \<and>
          set kept \<subseteq> set ns"
        by (auto simp: wf_ranges_Cons less_max_iff_disj)
      moreover have "{b..<max e (br_end n)} = {b..<e} \<union> {br_begin n..<br_end n}"
        using True 2 by (auto simp: max_def)
      ultimately show ?thesis by auto
    next
      case False
      with 2 have "e' = e" and "kept = n # ns" by auto
      with False 2 show ?thesis by (fastforce simp: wf_ranges_Cons)
    qed
  qed
  then show "{b ..< e'} \<union> bytes kept = {b ..< e} \<union> bytes ns" and "e \<le> e'" and "wf_ranges kept"
    and "\<forall>n \<in> set kept. e' < br_begin n" and "set kept \<subseteq> set ns" by auto
qed

lemma wf_split_at:
  assumes "wf_ranges rs" and "dropWhile (\<lambda>r. br_end r < b) rs = it # nxt"
  defines "before \<equiv> takeWhile (\<lambda>r. br_end r < b) rs"
  shows "rs = before @ it # nxt" and "wf_ranges before" and "wf_ranges (it # nxt)"
    and "\<forall>x \<in> set before. br_end x < b \<and> br_end x < br_begin it" and "b \<le> br_end it"
    and "\<forall>n \<in> set nxt. br_end it < br_begin n"
proof -
  show eq: "rs = before @ it # nxt"
    using takeWhile_dropWhile_id [of "\<lambda>r. br_end r < b" rs] assms(2) by (simp add: before_def)
  from assms(1) have wf: "wf_ranges (before @ it # nxt)" by (simp only: eq [symmetric])
  then show "wf_ranges before" and "wf_ranges (it # nxt)"
    and "\<forall>n \<in> set nxt. br_end it < br_begin n"
    by (simp_all add: wf_ranges_append wf_ranges_Cons)
  show "\<forall>x \<in> set before. br_end x < b \<and> br_end x < br_begin it"
    using wf set_takeWhile_sat [of _ "\<lambda>r. br_end r < b" rs]
    by (auto simp: wf_ranges_append before_def)
  show "b \<le> br_end it" using dropWhile_hd [OF assms(2)] by simp
qed

text \<open>One equation per outcome of \<open>std::lower_bound\<close>.\<close>

lemma addRange_append:
  "b < e \<Longrightarrow> dropWhile (\<lambda>r. br_end r < b) rs = [] \<Longrightarrow>
     addRange rs b e = rs @ [\<lparr>br_begin = b, br_end = e\<rparr>]"
  unfolding addRange_def Let_def by (simp add: linorder_not_le [THEN iffD2] del: dropWhile_eq_Nil_conv)

lemma addRange_insert:
  "b < e \<Longrightarrow> dropWhile (\<lambda>r. br_end r < b) rs = it # nxt \<Longrightarrow> e < br_begin it \<Longrightarrow>
     addRange rs b e =
       takeWhile (\<lambda>r. br_end r < b) rs @ \<lparr>br_begin = b, br_end = e\<rparr> # it # nxt"
  unfolding addRange_def Let_def by (simp add: linorder_not_le [THEN iffD2] leD)

lemma addRange_widen:
  "b < e \<Longrightarrow> dropWhile (\<lambda>r. br_end r < b) rs = it # nxt \<Longrightarrow> br_begin it \<le> e \<Longrightarrow>
     absorbFollowing (max (br_end it) e) nxt = (e', kept) \<Longrightarrow>
     addRange rs b e =
       takeWhile (\<lambda>r. br_end r < b) rs @ \<lparr>br_begin = min (br_begin it) b, br_end = e'\<rparr> # kept"
  unfolding addRange_def Let_def by (simp add: linorder_not_le [THEN iffD2] leD)

lemma addRange_wf_bytes:
  assumes "wf_ranges rs"
  shows "wf_ranges (addRange rs b e) \<and> bytes (addRange rs b e) = bytes rs \<union> {b ..< e}"
proof (cases "b \<ge> e")
  case True
  with assms show ?thesis by (simp add: addRange_def)
next
  case False
  then have be: "b < e" by simp
  show ?thesis
  proof (cases "dropWhile (\<lambda>r. br_end r < b) rs")
    case Nil
    then have "\<forall>r \<in> set rs. br_end r < b" by (simp add: dropWhile_eq_Nil_conv)
    with be assms addRange_append [OF be Nil] show ?thesis
      by (auto simp: wf_ranges_append wf_ranges_Cons)
  next
    case (Cons it nxt)
    note sp = wf_split_at [OF assms Cons]
    let ?before = "takeWhile (\<lambda>r. br_end r < b) rs"
    have bytes_rs: "bytes rs = bytes ?before \<union> ({br_begin it ..< br_end it} \<union> bytes nxt)"
      using arg_cong [OF sp(1), of bytes] by simp
    have wfn: "wf_ranges nxt" and it: "br_begin it < br_end it"
      using sp(3) by (auto simp: wf_ranges_Cons)
    show ?thesis
    proof (cases "e < br_begin it")
      case True
      have "\<forall>n \<in> set nxt. e < br_begin n" using sp(6) it True by fastforce
      moreover have "\<forall>x \<in> set ?before. \<forall>n \<in> set nxt. br_end x < br_begin n"
        using sp(4,6) it by fastforce
      ultimately show ?thesis
        using True be it sp(2,4,6) wfn
        unfolding bytes_rs addRange_insert [OF be Cons True]
        by (auto simp: wf_ranges_append wf_ranges_Cons)
    next
      case False
      obtain e' kept where ab: "absorbFollowing (max (br_end it) e) nxt = (e', kept)"
        by fastforce
      let ?b = "min (br_begin it) b"
      have blow: "?b < max (br_end it) e" using be by (auto simp: min_def max_def)
      have "\<forall>n \<in> set nxt. ?b \<le> br_begin n"
        using sp(6) it by (fastforce simp: min_le_iff_disj)
      note A = absorbFollowing_spec [OF ab wfn this blow]
      have join: "{?b ..< max (br_end it) e} = {br_begin it ..< br_end it} \<union> {b ..< e}"
        using False sp(5) it be by (auto simp: min_def max_def)
      have gap: "\<forall>x \<in> set ?before. br_end x < ?b \<and> (\<forall>k \<in> set kept. br_end x < br_begin k)"
        using sp(4,6) it A(5) by fastforce
      have "?b < e'" using blow A(2) by (rule less_le_trans)
      then have "wf_ranges (?before @ \<lparr>br_begin = ?b, br_end = e'\<rparr> # kept)"
        using sp(2) A(3,4) gap by (auto simp: wf_ranges_append wf_ranges_Cons)
      moreover have "bytes (?before @ \<lparr>br_begin = ?b, br_end = e'\<rparr> # kept) = bytes rs \<union> {b ..< e}"
        using A(1) unfolding bytes_rs join by auto
      ultimately show ?thesis
        using addRange_widen [OF be Cons _ ab] False by (simp add: not_less)
    qed
  qed
qed


section \<open>Intersection\<close>

lemma intersectRanges_begin:
  "p \<in> set (intersectRanges ls rs) \<Longrightarrow>
     (\<exists>l \<in> set ls. br_begin l \<le> br_begin p) \<and> (\<exists>r \<in> set rs. br_begin r \<le> br_begin p)"
  by (induction ls rs rule: intersectRanges.induct)
     (auto simp: Let_def split: if_splits)

lemma intersectRanges_wf_bytes:
  "wf_ranges ls \<Longrightarrow> wf_ranges rs \<Longrightarrow>
     wf_ranges (intersectRanges ls rs) \<and> bytes (intersectRanges ls rs) = bytes ls \<inter> bytes rs"
proof (induction ls rs rule: intersectRanges.induct)
  case (1 l ls r rs)
  let ?b = "max (br_begin l) (br_begin r)" and ?e = "min (br_end l) (br_end r)"
  have cut: "{br_begin l ..< br_end l} \<inter> {br_begin r ..< br_end r} = {?b ..< ?e}"
    by auto
  show ?case
  proof (cases "br_end l < br_end r")
    case True
    with 1 have ih: "wf_ranges (intersectRanges ls (r # rs))"
      "bytes (intersectRanges ls (r # rs)) = bytes ls \<inter> bytes (r # rs)"
      by (auto simp: wf_ranges_Cons Let_def)
    have after: "?e < br_begin p" if p: "p \<in> set (intersectRanges ls (r # rs))" for p
    proof -
      obtain l' where "l' \<in> set ls" "br_begin l' \<le> br_begin p"
        using intersectRanges_begin [OF p] by auto
      with 1(3) True show ?thesis by (fastforce simp: wf_ranges_Cons min_def)
    qed
    have off: "{br_begin l ..< br_end l} \<inter> bytes rs = {}"
      using 1(4) True by (fastforce simp: wf_ranges_Cons in_bytes)
    then have "bytes (l # ls) \<inter> bytes (r # rs) =
        {?b ..< ?e} \<union> (bytes ls \<inter> bytes (r # rs))"
      unfolding cut [symmetric] by auto
    with True ih after show ?thesis
      by (auto simp: Let_def wf_ranges_append wf_ranges_Cons)
  next
    case False
    with 1 have ih: "wf_ranges (intersectRanges (l # ls) rs)"
      "bytes (intersectRanges (l # ls) rs) = bytes (l # ls) \<inter> bytes rs"
      by (auto simp: wf_ranges_Cons Let_def)
    have after: "?e < br_begin p" if p: "p \<in> set (intersectRanges (l # ls) rs)" for p
    proof -
      obtain r' where "r' \<in> set rs" "br_begin r' \<le> br_begin p"
        using intersectRanges_begin [OF p] by auto
      with 1(4) False show ?thesis by (fastforce simp: wf_ranges_Cons min_def)
    qed
    have off: "bytes ls \<inter> {br_begin r ..< br_end r} = {}"
      using 1(3) False by (fastforce simp: wf_ranges_Cons in_bytes)
    then have "bytes (l # ls) \<inter> bytes (r # rs) =
        {?b ..< ?e} \<union> (bytes (l # ls) \<inter> bytes rs)"
      unfolding cut [symmetric] by auto
    with False ih after show ?thesis
      by (auto simp: Let_def wf_ranges_append wf_ranges_Cons)
  qed
qed auto

section \<open>Canonical form\<close>

lemma bytes_above_head:
  assumes "wf_ranges (r # rs)" and "x \<in> bytes rs"
  shows "br_end r < x"
  using assms by (fastforce simp: wf_ranges_Cons in_bytes)

lemma wf_head_eq:
  assumes "wf_ranges (r # rs)" and "wf_ranges (s # ss)" and "bytes (r # rs) \<subseteq> bytes (s # ss)"
    and "bytes (s # ss) \<subseteq> bytes (r # rs)"
  shows "br_begin s \<le> br_begin r" and "br_end s \<le> br_end r"
proof -
  have r: "br_begin r < br_end r" and s: "br_begin s < br_end s"
    using assms(1,2) by (auto simp: wf_ranges_Cons)
  have low: "br_begin s \<le> x" if "x \<in> bytes (s # ss)" for x
    using that bytes_above_head [OF assms(2)] s by fastforce
  have low': "br_begin r \<le> x" if "x \<in> bytes (r # rs)" for x
    using that bytes_above_head [OF assms(1)] r by fastforce
  have "br_begin r \<in> bytes (r # rs)" using r by simp
  with assms(3) low show le: "br_begin s \<le> br_begin r" by blast
  have "br_begin s \<in> bytes (s # ss)" using s by simp
  with assms(4) low' have le': "br_begin r \<le> br_begin s" by blast
  have "br_end r \<notin> bytes (r # rs)" using bytes_above_head [OF assms(1)] r by fastforce
  then have "br_end r \<notin> {br_begin s ..< br_end s}" using assms(4) by auto
  with le r show "br_end s \<le> br_end r" by fastforce
qed

lemma bytes_canonical:
  "wf_ranges xs \<Longrightarrow> wf_ranges ys \<Longrightarrow> bytes xs = bytes ys \<Longrightarrow> xs = ys"
proof (induction xs arbitrary: ys)
  case Nil
  then show ?case by (cases ys) (auto simp: wf_ranges_Cons)
next
  case (Cons x xs)
  then obtain y ys' where ys: "ys = y # ys'"
    by (cases ys) (auto simp: wf_ranges_Cons)
  have be: "br_begin x = br_begin y" "br_end x = br_end y"
    using wf_head_eq [of x xs y ys'] wf_head_eq [of y ys' x xs] Cons.prems ys by (auto intro: antisym)
  have "bytes xs = bytes (x # xs) - {br_begin x ..< br_end x}"
    using bytes_above_head [OF Cons.prems(1)] by fastforce
  moreover have "bytes ys' = bytes (y # ys') - {br_begin y ..< br_end y}"
    using bytes_above_head [of y ys'] Cons.prems(2) ys by fastforce
  ultimately have "bytes xs = bytes ys'" using Cons.prems(3) ys be by simp
  with Cons ys have "xs = ys'" by (auto simp: wf_ranges_Cons)
  with be ys show ?case by simp
qed

section \<open>Coverage queries\<close>

lemma isRangeCovered_iff:
  "wf_ranges rs \<Longrightarrow> isRangeCovered rs b e \<longleftrightarrow> {b ..< e} \<subseteq> bytes rs"
proof (induction rs b e rule: isRangeCovered.induct)
  case (1 b e)
  then show ?case by auto
next
  case (2 r rs b e)
  have above: "\<And>x. x \<in> bytes rs \<Longrightarrow> br_end r < x" using bytes_above_head 2(2) by blast
  have r: "br_begin r < br_end r" using 2(2) by (simp add: wf_ranges_Cons)
  show ?case
  proof (cases "b \<ge> e \<or> (br_begin r \<le> b \<and> br_end r \<ge> e)")
    case True
    then show ?thesis by auto
  next
    case False
    then have be: "b < e" by auto
    show ?thesis
    proof (cases "br_begin r > b")
      case True
      then have "b \<notin> bytes (r # rs)" using above r by fastforce
      moreover have "b \<in> {b ..< e}" using be by simp
      ultimately show ?thesis using False True by auto
    next
      case notleft: False
      with False have er: "br_end r < e" by auto
      have ih: "isRangeCovered (r # rs) b e \<longleftrightarrow> {b ..< e} \<subseteq> bytes rs"
        using 2 False notleft by (auto simp: wf_ranges_Cons)
      have "{b ..< e} \<subseteq> bytes (r # rs) \<longleftrightarrow> {b ..< e} \<subseteq> bytes rs"
      proof
        assume sub: "{b ..< e} \<subseteq> bytes (r # rs)"
        have "br_end r \<notin> bytes (r # rs)" using above by fastforce
        with sub have "br_end r \<notin> {b ..< e}" by blast
        with er have "br_end r < b" by (simp add: not_le)
        with sub show "{b ..< e} \<subseteq> bytes rs" by fastforce
      qed auto
      with ih show ?thesis by simp
    qed
  qed
qed


definition gapAccept :: "u64 \<Rightarrow> u64 \<Rightarrow> u64 \<Rightarrow> bool + u64 \<Rightarrow> bool" where
  "gapAccept b e g res =
     (case res of Inl x \<Rightarrow> x
      | Inr cursor \<Rightarrow> \<not> (cursor < e \<and> (\<not> cursor > b \<or> e - cursor > g)))"

text \<open>An uncovered cursor cannot be moved by covered bytes.\<close>

lemma no_extension:
  assumes "(k :: u64) \<notin> B" and "k \<le> e"
  shows "(\<exists>c. b < c \<and> k \<le> c \<and> c \<le> e \<and> {k ..< c} \<subseteq> B \<and> e - c \<le> g) \<longleftrightarrow> b < k \<and> e - k \<le> g"
proof
  assume "\<exists>c. b < c \<and> k \<le> c \<and> c \<le> e \<and> {k ..< c} \<subseteq> B \<and> e - c \<le> g"
  then obtain c where c: "b < c" "k \<le> c" "{k ..< c} \<subseteq> B" "e - c \<le> g" by blast
  have "c = k"
  proof (rule ccontr)
    assume "c \<noteq> k"
    with c(2) have "k \<in> {k ..< c}" by simp
    with c(3) assms(1) show False by blast
  qed
  with c show "b < k \<and> e - k \<le> g" by simp
qed (use assms in auto)

lemma gapScan_iff:
  "wf_ranges rs \<Longrightarrow> b \<le> cursor \<Longrightarrow> cursor < e \<Longrightarrow>
     gapAccept b e g (gapScan b e g rs cursor) \<longleftrightarrow>
       (\<exists>c. b < c \<and> cursor \<le> c \<and> c \<le> e \<and> {cursor ..< c} \<subseteq> bytes rs \<and> e - c \<le> g)"
proof (induction rs arbitrary: cursor)
  case Nil
  have "(\<exists>c. b < c \<and> cursor \<le> c \<and> c \<le> e \<and> {cursor ..< c} \<subseteq> bytes [] \<and> e - c \<le> g) \<longleftrightarrow>
      b < cursor \<and> e - cursor \<le> g"
    using Nil.prems by (auto intro: order.strict_trans1)
  with Nil.prems show ?case by (auto simp: gapAccept_def)
next
  case (Cons r rs)
  have above: "\<And>x. x \<in> bytes rs \<Longrightarrow> br_end r < x"
    using bytes_above_head Cons.prems(1) by blast
  have r: "br_begin r < br_end r" and wf: "wf_ranges rs"
    using Cons.prems(1) by (simp_all add: wf_ranges_Cons)
  note IH = Cons.IH [OF wf]
  note stuck = no_extension [where b = b and g = g, OF _ less_imp_le [OF Cons.prems(3)]]
  consider (below) "br_end r \<le> cursor" | (past) "cursor < br_end r" "e \<le> br_begin r"
    | (gap) "cursor < br_end r" "br_begin r < e" "cursor < br_begin r"
    | (hit) "cursor < br_end r" "br_begin r < e" "br_begin r \<le> cursor"
    by fastforce
  then show ?case
  proof cases
    case below
    then have "{cursor ..< c} \<subseteq> bytes (r # rs) \<longleftrightarrow> {cursor ..< c} \<subseteq> bytes rs" for c
      by fastforce
    with below IH Cons.prems show ?thesis by simp
  next
    case past
    then have "cursor \<notin> bytes (r # rs)" using above Cons.prems(3) by fastforce
    from stuck [OF this] past Cons.prems show ?thesis
      by (auto simp: gapAccept_def)
  next
    case gap
    then have "cursor \<notin> bytes (r # rs)" "cursor \<notin> bytes rs" using above by fastforce+
    note st = stuck [OF this(1)] stuck [OF this(2)]
    have "br_begin r - cursor \<le> e - cursor"
      using gap u64_sub_mono2 [of cursor "br_begin r" e] by simp
    then have bad: "\<not> (b < cursor \<and> e - cursor \<le> g)"
      if "\<not> b < cursor \<or> g < br_begin r - cursor"
      using that by (auto simp: not_le)
    have step: "gapScan b e g (r # rs) cursor =
        (if \<not> b < cursor \<or> g < br_begin r - cursor then Inl False
         else gapScan b e g rs cursor)"
      using gap Cons.prems(3) by (simp add: Let_def lt_imp_nle min_absorb1)
    show ?thesis
    proof (cases "\<not> b < cursor \<or> g < br_begin r - cursor")
      case True
      with step st(1) bad show ?thesis by (simp add: gapAccept_def)
    next
      case False
      with step st IH [OF Cons.prems(2,3)] show ?thesis by simp
    qed
  next
    case hit
    have step: "gapScan b e g (r # rs) cursor =
        (if e \<le> br_end r then Inl True else gapScan b e g rs (br_end r))"
    proof -
      have "min (br_begin r) e = br_begin r" using hit(2) by (simp add: min_absorb1)
      moreover have "max cursor (min (br_end r) e) = (if e \<le> br_end r then e else br_end r)"
        using hit(1) Cons.prems(3) by (auto simp: min_absorb1 min_absorb2 max_absorb2 not_le)
      moreover have "\<not> cursor < br_begin r" "\<not> br_end r \<le> cursor" "\<not> e \<le> br_begin r"
        using hit by auto
      ultimately show ?thesis using hit(3) by (simp add: Let_def)
    qed
    have seg: "{cursor ..< br_end r} \<subseteq> bytes (r # rs)" using hit by auto
    show ?thesis
    proof (cases "e \<le> br_end r")
      case True
      with seg have "{cursor ..< e} \<subseteq> bytes (r # rs)" by fastforce
      moreover have "b < e" using Cons.prems by simp
      ultimately have "\<exists>c. b < c \<and> cursor \<le> c \<and> c \<le> e \<and> {cursor ..< c} \<subseteq> bytes (r # rs) \<and> e - c \<le> g"
        using Cons.prems(3) by (intro exI [of _ e]) auto
      with step True show ?thesis by (simp add: gapAccept_def)
    next
      case False
      then have lt: "br_end r < e" by simp
      have bc: "b < br_end r" using hit Cons.prems(2) by simp
      have off: "br_end r \<notin> bytes rs" "br_end r \<notin> bytes (r # rs)" using above by fastforce+
      have acc: "gapAccept b e g (gapScan b e g rs (br_end r)) \<longleftrightarrow> e - br_end r \<le> g"
        using IH [of "br_end r"] bc lt no_extension [OF off(1) less_imp_le [OF lt]] by simp
      have "(\<exists>c. b < c \<and> cursor \<le> c \<and> c \<le> e \<and> {cursor ..< c} \<subseteq> bytes (r # rs) \<and> e - c \<le> g)
          \<longleftrightarrow> e - br_end r \<le> g"
      proof
        assume "\<exists>c. b < c \<and> cursor \<le> c \<and> c \<le> e \<and> {cursor ..< c} \<subseteq> bytes (r # rs) \<and> e - c \<le> g"
        then obtain c where c: "c \<le> e" "{cursor ..< c} \<subseteq> bytes (r # rs)" "e - c \<le> g" by blast
        from c(2) off(2) have "br_end r \<notin> {cursor ..< c}" by blast
        with hit have "c \<le> br_end r" by (simp add: not_less)
        then have "e - br_end r \<le> e - c" using lt by (simp add: u64_sub_mono)
        with c(3) show "e - br_end r \<le> g" by simp
      qed (use bc hit lt seg in \<open>auto intro!: exI [of _ "br_end r"]\<close>)
      with step False acc show ?thesis by simp
    qed
  qed
qed

lemma isRangeCoveredAllowingGaps_iff:
  assumes "wf_ranges rs" and "b < e"
  shows "isRangeCoveredAllowingGaps rs b e g \<longleftrightarrow>
           (\<exists>c. b < c \<and> c \<le> e \<and> {b ..< c} \<subseteq> bytes rs \<and> e - c \<le> g)"
proof -
  have "isRangeCoveredAllowingGaps rs b e g \<longleftrightarrow> gapAccept b e g (gapScan b e g rs b)"
    using assms(2)
    by (auto simp: isRangeCoveredAllowingGaps_def gapAccept_def split: sum.splits)
  also have "\<dots> \<longleftrightarrow> (\<exists>c. b < c \<and> b \<le> c \<and> c \<le> e \<and> {b ..< c} \<subseteq> bytes rs \<and> e - c \<le> g)"
    using gapScan_iff [OF assms(1) _ assms(2)] by blast
  finally show ?thesis by (simp add: less_imp_le cong: conj_cong)
qed

lemma classifyInitState_spec:
  assumes "wf_ranges rs" and "0 < n"
  shows "classifyInitState rs n =
    (if bytes rs = {} then Uninit else if \<exists>m. n \<le> m \<and> bytes rs = {0 ..< m} then Init else Partial)"
proof (cases rs)
  case Nil
  with assms show ?thesis by (simp add: classifyInitState_def)
next
  case (Cons r ss)
  have r: "br_begin r < br_end r" and above: "\<And>x. x \<in> bytes ss \<Longrightarrow> br_end r < x"
    using assms(1) bytes_above_head Cons by (auto simp: wf_ranges_Cons)
  have ne: "bytes rs \<noteq> {}" using r Cons by auto
  have "(ss = [] \<and> br_begin r = 0 \<and> n \<le> br_end r) \<longleftrightarrow> (\<exists>m. n \<le> m \<and> bytes rs = {0 ..< m})"
  proof
    assume "\<exists>m. n \<le> m \<and> bytes rs = {0 ..< m}"
    then obtain m where m: "n \<le> m" "bytes rs = {0 ..< m}" by blast
    have "wf_ranges [\<lparr>br_begin = 0, br_end = m\<rparr>]" using assms(2) m(1) by (auto simp: wf_ranges_Cons)
    from bytes_canonical [OF assms(1) this] m Cons
    show "ss = [] \<and> br_begin r = 0 \<and> n \<le> br_end r" by auto
  qed (use Cons in auto)
  with ne Cons assms(2) show ?thesis by (auto simp: classifyInitState_def)
qed

lemma addRangeFromBitOffsets_wf_bytes:
  "wf_ranges out \<Longrightarrow> wf_ranges (addRangeFromBitOffsets out b e) \<and>
     bytes (addRangeFromBitOffsets out b e) =
       bytes out \<union> (if b < e then {b div 8 ..< (e + 7) div 8} else {})"
  using addRange_wf_bytes [of out "b div 8" "(e + 7) div 8"]
  by (auto simp: addRangeFromBitOffsets_def not_le)


section \<open>The interface of a byte set\<close>

text \<open>
  What the states and summaries built from range sets rely on: a representation type with
  an invariant and a denotation, whose insertion, intersection and coverage test mean
  union, intersection and inclusion, and which is canonical.
\<close>

locale byte_set =
  fixes inv :: "'s \<Rightarrow> bool"
    and den :: "'s \<Rightarrow> u64 set"
    and emp :: "'s"
    and add :: "'s \<Rightarrow> u64 \<Rightarrow> u64 \<Rightarrow> 's"
    and inter :: "'s \<Rightarrow> 's \<Rightarrow> 's"
    and covered :: "'s \<Rightarrow> u64 \<Rightarrow> u64 \<Rightarrow> bool"
  assumes emp_inv: "inv emp" and emp_den: "den emp = {}"
    and add_inv: "inv s \<Longrightarrow> inv (add s b e)"
    and add_den: "inv s \<Longrightarrow> den (add s b e) = den s \<union> {b ..< e}"
    and inter_inv: "inv s \<Longrightarrow> inv t \<Longrightarrow> inv (inter s t)"
    and inter_den: "inv s \<Longrightarrow> inv t \<Longrightarrow> den (inter s t) = den s \<inter> den t"
    and covered_iff: "inv s \<Longrightarrow> covered s b e \<longleftrightarrow> {b ..< e} \<subseteq> den s"
    and canonical: "inv s \<Longrightarrow> inv t \<Longrightarrow> den s = den t \<Longrightarrow> s = t"
begin

lemmas laws = emp_inv emp_den add_inv add_den inter_inv inter_den

lemma add_absorb: "inv s \<Longrightarrow> {b ..< e} \<subseteq> den s \<Longrightarrow> add s b e = s"
  by (rule canonical) (auto simp: laws)

lemma add_commute: "inv s \<Longrightarrow> add (add s b e) b' e' = add (add s b' e') b e"
  by (rule canonical) (auto simp: laws)

lemma add_covered: "inv s \<Longrightarrow> covered (add s b e) b e"
  by (simp add: covered_iff add_inv add_den)

lemma inter_idem: "inv s \<Longrightarrow> inter s s = s"
  by (rule canonical) (auto simp: laws)

lemma inter_commute: "inv s \<Longrightarrow> inv t \<Longrightarrow> inter s t = inter t s"
  by (rule canonical) (auto simp: laws)

lemma inter_assoc: "inv s \<Longrightarrow> inv t \<Longrightarrow> inv u \<Longrightarrow> inter (inter s t) u = inter s (inter t u)"
  by (rule canonical) (auto simp: laws)

text \<open>Inserting a list of ranges one by one.\<close>

lemma fold_add:
  assumes "inv s"
  shows "inv (fold (\<lambda>r s. add s (br_begin r) (br_end r)) rs s) \<and>
         den (fold (\<lambda>r s. add s (br_begin r) (br_end r)) rs s) = den s \<union> bytes rs"
  using assms by (induction rs arbitrary: s) (auto simp: laws)

text \<open>State vectors, ordered by inclusion of what each component denotes.\<close>

lemma vec_meet_inv:
  "length xs = length ys \<Longrightarrow> list_all inv xs \<Longrightarrow> list_all inv ys \<Longrightarrow>
     list_all inv (map2 inter xs ys) \<and> length (map2 inter xs ys) = length xs"
  by (induction xs ys rule: list_induct2) (auto simp: laws)

lemma vec_meet_le:
  "length xs = length ys \<Longrightarrow> list_all inv xs \<Longrightarrow> list_all inv ys \<Longrightarrow>
     list_all2 (\<lambda>x y. den x \<subseteq> den y) (map2 inter xs ys) xs \<and>
     list_all2 (\<lambda>x y. den x \<subseteq> den y) (map2 inter xs ys) ys"
  by (induction xs ys rule: list_induct2) (auto simp: laws)

lemma vec_meet_greatest:
  assumes "list_all2 (\<lambda>x y. den x \<subseteq> den y) zs xs" and "list_all2 (\<lambda>x y. den x \<subseteq> den y) zs ys"
    and "list_all inv xs" and "list_all inv ys"
  shows "list_all2 (\<lambda>x y. den x \<subseteq> den y) zs (map2 inter xs ys)"
  using assms by (auto simp: list_all2_conv_all_nth list_all_length laws)

end

interpretation range: byte_set wf_ranges bytes "[]" addRange intersectRanges isRangeCovered
  by unfold_locales
     (auto simp: addRange_wf_bytes intersectRanges_wf_bytes isRangeCovered_iff intro: bytes_canonical)

lemmas range_set_laws = range.add_inv range.add_den range.inter_inv range.inter_den
  range.covered_iff

declare range_set_laws [range_laws]

section \<open>Properties\<close>

text \<open>
  C1: On well-formed range sets the operations of the analysis compute set union,
  intersection and inclusion of the bytes, keep the sets well formed, and two range sets
  are equal as vectors exactly when they cover the same bytes (which is what the fixpoint
  comparison relies on).
\<close>

theorem range_sets_are_byte_sets:
  assumes "wf_ranges rs" and "wf_ranges ss"
  shows "wf_ranges (addRange rs b e) \<and> bytes (addRange rs b e) = bytes rs \<union> {b ..< e} \<and>
         wf_ranges (intersectRanges rs ss) \<and> bytes (intersectRanges rs ss) = bytes rs \<inter> bytes ss \<and>
         (isRangeCovered rs b e \<longleftrightarrow> {b ..< e} \<subseteq> bytes rs) \<and> (rs = ss \<longleftrightarrow> bytes rs = bytes ss)"
  using assms range.canonical [OF assms] by (auto simp: range_laws)

theorem range_sets_are_byte_sets_witness:
  "bytes (addRange [\<lparr>br_begin = 0, br_end = 4\<rparr>, \<lparr>br_begin = 8, br_end = 16\<rparr>] 4 8) =
     bytes [\<lparr>br_begin = 0, br_end = 4\<rparr>, \<lparr>br_begin = 8, br_end = 16\<rparr>] \<union> {4 ..< 8}"
  using range_sets_are_byte_sets [of "[\<lparr>br_begin = 0, br_end = 4\<rparr>, \<lparr>br_begin = 8, br_end = 16\<rparr>]" "[]" 4 8]
  by (simp add: wf_ranges_Cons)

text \<open>
  The coverage query that tolerates small gaps accepts a non-empty range exactly when a
  covered prefix of it ends at most \<open>maxGap\<close> bytes before its end. In particular an
  interior gap followed by initialised bytes is never tolerated, unlike what the name and
  the comment of the function announce: the cursor is not moved past a tolerated gap.
\<close>

theorem gap_query_accepts_prefixes_only:
  assumes "wf_ranges rs" and "b < e"
  shows "isRangeCoveredAllowingGaps rs b e g \<longleftrightarrow>
           (\<exists>c. b < c \<and> c \<le> e \<and> {b ..< c} \<subseteq> bytes rs \<and> e - c \<le> g)"
  using assms by (rule isRangeCoveredAllowingGaps_iff)

theorem gap_query_accepts_prefixes_only_witness:
  "\<exists>c. (0 :: u64) < c \<and> c \<le> 16 \<and> {0 ..< c} \<subseteq> bytes [\<lparr>br_begin = 0, br_end = 12\<rparr>] \<and> 16 - c \<le> 7"
  using gap_query_accepts_prefixes_only [of "[\<lparr>br_begin = 0, br_end = 12\<rparr>]" 0 16 7]
  by (simp add: wf_ranges_Cons isRangeCoveredAllowingGaps_def)

text \<open>
  A four byte interior gap between two initialised ranges is rejected although the
  tolerance is seven bytes.
\<close>

theorem small_interior_gap_rejected:
  "\<not> isRangeCoveredAllowingSmallInteriorGaps
       [\<lparr>br_begin = 0, br_end = 4\<rparr>, \<lparr>br_begin = 8, br_end = 16\<rparr>] 0 16"
  by (simp add: isRangeCoveredAllowingSmallInteriorGaps_def isRangeCoveredAllowingGaps_def Let_def)

end
