(* ===== verification/Worklist.thy ===== *)
theory Worklist
  imports Prelude
begin

text \<open>
  The graph exploration the analyses share: a stack of nodes to visit and a set of nodes
  already seen, each new successor inserted and pushed (\<open>computeReachableBlocks\<close> and
  \<open>collectSummaryScope\<close> of \<open>src/analysis/UninitializedVarAnalysis.cpp\<close>). Every node is
  pushed at most once, so the number of nodes is enough fuel, and the result is the set
  of nodes reachable from the start.
\<close>

text \<open>\<open>pop_back_val\<close> takes the last pushed element: the head of the list.\<close>

fun pushNew :: "'b list \<Rightarrow> 'b list \<Rightarrow> 'b set \<Rightarrow> 'b list \<times> 'b set" where
  "pushNew [] wl seen = (wl, seen)"
| "pushNew (y # ys) wl seen =
     (if y \<in> seen then pushNew ys wl seen else pushNew ys (y # wl) (insert y seen))"

fun explore :: "nat \<Rightarrow> ('b \<Rightarrow> 'b list) \<Rightarrow> 'b list \<Rightarrow> 'b set \<Rightarrow> 'b set option" where
  "explore fuel nxt [] seen = Some seen"
| "explore 0 nxt (x # wl) seen = None"
| "explore (Suc fuel) nxt (x # wl) seen =
     (let (wl', seen') = pushNew (nxt x) wl seen in explore fuel nxt wl' seen')"

definition edges :: "('b \<Rightarrow> 'b list) \<Rightarrow> ('b \<times> 'b) set" where
  "edges nxt = {(x, y). y \<in> set (nxt x)}"

lemma edges_iff [simp]: "(x, y) \<in> edges nxt \<longleftrightarrow> y \<in> set (nxt x)"
  by (simp add: edges_def)

lemma pushNew_seen: "snd (pushNew ys wl seen) = seen \<union> set ys"
  by (induction ys wl seen rule: pushNew.induct) auto

lemma pushNew_stack:
  "\<exists>new. fst (pushNew ys wl seen) = new @ wl \<and> distinct new \<and> set new = set ys - seen"
proof (induction ys wl seen rule: pushNew.induct)
  case (1 wl seen)
  show ?case by simp
next
  case (2 y ys wl seen)
  show ?case
  proof (cases "y \<in> seen")
    case True
    with 2(1) obtain new where "fst (pushNew ys wl seen) = new @ wl" "distinct new"
      "set new = set ys - seen" by blast
    with True show ?thesis by (intro exI [of _ new]) auto
  next
    case False
    with 2(2) obtain new where n: "fst (pushNew ys (y # wl) (insert y seen)) = new @ y # wl"
      "distinct new" "set new = set ys - insert y seen" by blast
    with False show ?thesis by (intro exI [of _ "new @ [y]"]) auto
  qed
qed

lemma rtrancl_Image_closed: "r `` X \<subseteq> X \<Longrightarrow> r\<^sup>* `` X = X"
  by (rule Image_closed_trancl)

text \<open>Adding a successor of a seen node does not change what the seen nodes reach.\<close>

lemma rtrancl_Image_absorb:
  assumes "Y \<subseteq> r\<^sup>* `` X"
  shows "r\<^sup>* `` (X \<union> Y) = r\<^sup>* `` X"
proof -
  have "r\<^sup>* `` Y \<subseteq> r\<^sup>* `` (r\<^sup>* `` X)" using assms by (rule Image_mono [OF subset_refl])
  also have "\<dots> = r\<^sup>* `` X" by (auto intro: rtrancl_trans)
  finally show ?thesis by auto
qed

lemma explore_reaches:
  assumes "finite U" and closed: "\<And>x. x \<in> U \<Longrightarrow> set (nxt x) \<subseteq> U"
    and "seen \<subseteq> U" and "set wl \<subseteq> seen" and "\<forall>x \<in> seen - set wl. set (nxt x) \<subseteq> seen"
    and "length wl + card (U - seen) \<le> fuel"
  shows "explore fuel nxt wl seen = Some ((edges nxt)\<^sup>* `` seen)"
  using closed assms(3-)
proof (induction fuel nxt wl seen rule: explore.induct)
  case (1 fuel nxt seen)
  then have "edges nxt `` seen \<subseteq> seen" by (auto simp: Image_def)
  then show ?case by (simp add: rtrancl_Image_closed)
next
  case (2 nxt x wl seen)
  then show ?case by simp
next
  case (3 fuel nxt x wl seen)
  obtain wl' seen' where pn: "pushNew (nxt x) wl seen = (wl', seen')" by fastforce
  have seen': "seen' = seen \<union> set (nxt x)" using pushNew_seen [of "nxt x" wl seen] pn by simp
  obtain new where new: "wl' = new @ wl" "distinct new" "set new = set (nxt x) - seen"
    using pushNew_stack [of "nxt x" wl seen] pn by auto
  have x: "x \<in> seen" "x \<in> U" using 3(3,4) by auto
  have "U - seen' = (U - seen) - set new" using seen' new(3) by auto
  moreover have "set new \<subseteq> U - seen" using new(3) 3(2) [OF x(2)] by auto
  ultimately have "card (U - seen') + length new = card (U - seen)"
    using assms(1) new(2) card_mono [of "U - seen" "set new"]
    by (simp add: card_Diff_subset distinct_card)
  then have fuel: "length wl' + card (U - seen') \<le> fuel" using 3(6) new(1) by simp
  have "explore fuel nxt wl' seen' = Some ((edges nxt)\<^sup>* `` seen')"
  proof (rule 3(1) [OF pn [symmetric] refl _ _ _ _ fuel])
    show "seen' \<subseteq> U" using 3(2,3) x(2) seen' by auto
    show "set wl' \<subseteq> seen'" using 3(4) new seen' by auto
    show "\<forall>y \<in> seen' - set wl'. set (nxt y) \<subseteq> seen'"
    proof
      fix y assume "y \<in> seen' - set wl'"
      then have "y = x \<or> y \<in> seen - set (x # wl)" using seen' new by auto
      with 3(5) seen' show "set (nxt y) \<subseteq> seen'" by auto
    qed
  qed (use 3(2) in auto)
  moreover have "(edges nxt)\<^sup>* `` seen' = (edges nxt)\<^sup>* `` seen"
    unfolding seen' using x(1) by (intro rtrancl_Image_absorb) (auto intro!: ImageI [OF r_into_rtrancl])
  ultimately show ?case using pn by simp
qed

corollary explore_from:
  assumes "finite U" and "\<And>x. x \<in> U \<Longrightarrow> set (nxt x) \<subseteq> U" and "set xs \<subseteq> U" and "distinct xs"
    and "card U \<le> fuel"
  shows "explore fuel nxt xs (set xs) = Some ((edges nxt)\<^sup>* `` set xs)"
proof (rule explore_reaches [OF assms(1,2,3)])
  show "length xs + card (U - set xs) \<le> fuel"
    using assms card_mono [of U "set xs"] by (simp add: card_Diff_subset distinct_card)
qed auto

end
