(* ===== verification/InitState.thy ===== *)
theory InitState
  imports RangeSets Worklist
begin

text \<open>
  The must-initialised dataflow of \<open>src/analysis/UninitializedVarAnalysis.cpp\<close>: tracked
  objects, the state vector (one range set per tracked object), the meet over
  predecessors, and the round-robin loop of \<open>analyzeFunction\<close>. LLVM's instructions stay
  outside: an alloca or an argument is an opaque value \<open>'v\<close>, a basic block an opaque
  value \<open>'b\<close>, the control flow graph is given by the successor and predecessor lists
  LLVM reports, and the effect of a block's instructions is the argument \<open>transfer\<close>
  (the fold of \<open>transferInstruction\<close>, which is not modelled).
\<close>

section \<open>Tracked objects\<close>

datatype TrackedObjectKind = Alloca | PointerParam

record 'v TrackedMemoryObject =
  obj_alloca :: "'v option"
  obj_param :: "'v option"
  obj_sizeBytes :: u64  \<comment> \<open>0 means unknown upper bound\<close>
  obj_nonPaddingRanges :: range_set
  obj_kind :: TrackedObjectKind
  obj_hasNonPaddingLayout :: bool

type_synonym InitRangeState = "range_set list"

definition kUnknownObjectFullRange :: u64 where
  "kUnknownObjectFullRange = u64_max div 4"

definition isAllocaObject :: "'v TrackedMemoryObject \<Rightarrow> bool" where
  "isAllocaObject obj = (obj_kind obj = Alloca)"

definition isParamObject :: "'v TrackedMemoryObject \<Rightarrow> bool" where
  "isParamObject obj = (obj_kind obj = PointerParam)"

definition getObjectFullRangeEnd :: "'v TrackedMemoryObject \<Rightarrow> u64" where
  "getObjectFullRangeEnd obj =
     (if obj_sizeBytes obj = 0 then kUnknownObjectFullRange else obj_sizeBytes obj)"

definition clipRangeToObject :: "'v TrackedMemoryObject \<Rightarrow> u64 \<Rightarrow> u64 \<Rightarrow> (u64 \<times> u64) option" where
  "clipRangeToObject obj b e =
     (if obj_sizeBytes obj = 0 then (if b \<ge> e then None else Some (b, e))
      else if b \<ge> obj_sizeBytes obj then None
      else let e' = min e (obj_sizeBytes obj) in if b < e' then Some (b, e') else None)"

definition isRangeCoveredRespectingNonPaddingLayout ::
    "'v TrackedMemoryObject \<Rightarrow> range_set \<Rightarrow> u64 \<Rightarrow> u64 \<Rightarrow> bool" where
  "isRangeCoveredRespectingNonPaddingLayout obj initialized b e =
     (if isRangeCovered initialized b e then True
      else if \<not> obj_hasNonPaddingLayout obj
      then isRangeCoveredAllowingSmallInteriorGaps initialized b e
      else list_all
             (\<lambda>relevant.
                let clippedBegin = max b (br_begin relevant);
                    clippedEnd = min e (br_end relevant)
                in clippedBegin \<ge> clippedEnd \<or> isRangeCovered initialized clippedBegin clippedEnd)
             (obj_nonPaddingRanges obj))"

subsection \<open>Non-padding layout of a type\<close>

text \<open>
  What the code reads of an LLVM type through \<open>DataLayout\<close>: a struct's members with the
  offsets of its \<open>StructLayout\<close>, an array's element count and allocation stride (\<open>None\<close>
  when scalable), any other type's store size (\<open>None\<close> when scalable).
\<close>

datatype ty_view =
    StructTy "(u64 \<times> ty_view) list"
  | ArrayTy u64 "u64 option" ty_view
  | OtherTy "u64 option"

text \<open>
  \<open>collectNonPaddingLeafRangesForType\<close>: the flag it returns and the range set it has
  built, also when it gives up half way.
\<close>

function (sequential) collectLeafRanges :: "u64 \<Rightarrow> nat \<Rightarrow> ty_view \<Rightarrow> range_set \<Rightarrow> bool \<times> range_set"
  and collectMembers :: "u64 \<Rightarrow> nat \<Rightarrow> (u64 \<times> ty_view) list \<Rightarrow> range_set \<Rightarrow> bool \<times> range_set"
  and collectElements ::
    "u64 \<Rightarrow> nat \<Rightarrow> ty_view \<Rightarrow> u64 \<Rightarrow> nat list \<Rightarrow> range_set \<Rightarrow> bool \<times> range_set"
where
  "collectLeafRanges baseOffset depth ty out =
     (if depth > 12 then (False, out)
      else case ty of
        StructTy members \<Rightarrow> collectMembers baseOffset depth members out
      | ArrayTy count stride elem \<Rightarrow>
          if count > 256 then (False, out)
          else (case stride of
                  None \<Rightarrow> (False, out)
                | Some elemStride \<Rightarrow>
                    collectElements baseOffset depth elem elemStride [0 ..< unat count] out)
      | OtherTy storeSize \<Rightarrow>
          (case storeSize of
             None \<Rightarrow> (False, out)
           | Some width \<Rightarrow>
               if width = 0 then (True, out)
               else (True, addRange out baseOffset (saturatingAdd baseOffset width))))"
| "collectMembers baseOffset depth [] out = (True, out)"
| "collectMembers baseOffset depth ((memberOffset, ty) # members) out =
     (case collectLeafRanges (saturatingAdd baseOffset memberOffset) (depth + 1) ty out of
        (False, out') \<Rightarrow> (False, out')
      | (True, out') \<Rightarrow> collectMembers baseOffset depth members out')"
| "collectElements baseOffset depth elem elemStride [] out = (True, out)"
| "collectElements baseOffset depth elem elemStride (idx # idxs) out =
     (case collectLeafRanges (saturatingAdd baseOffset (of_nat idx * elemStride)) (depth + 1)
             elem out of
        (False, out') \<Rightarrow> (False, out')
      | (True, out') \<Rightarrow> collectElements baseOffset depth elem elemStride idxs out')"
  by pat_completeness auto
termination
  by (relation "measures
        [\<lambda>c. (case c of Inl (_, d, _) \<Rightarrow> 2 * (14 - d)
              | Inr (Inl (_, d, _)) \<Rightarrow> 2 * (14 - d) - 1
              | Inr (Inr (_, d, _)) \<Rightarrow> 2 * (14 - d) - 1),
         \<lambda>c. (case c of Inl _ \<Rightarrow> 0
              | Inr (Inl (_, _, ms, _)) \<Rightarrow> length ms
              | Inr (Inr (_, _, _, _, is, _)) \<Rightarrow> length is)]")
    auto

section \<open>State vectors\<close>

definition makeBottomState :: "nat \<Rightarrow> InitRangeState" where
  "makeBottomState trackedCount = replicate trackedCount []"

definition makeTopState :: "'v TrackedMemoryObject list \<Rightarrow> InitRangeState" where
  "makeTopState objects = map (\<lambda>obj. addRange [] 0 (getObjectFullRangeEnd obj)) objects"

definition meetMustState :: "InitRangeState \<Rightarrow> InitRangeState \<Rightarrow> InitRangeState" where
  "meetMustState accum incoming =
     (if length accum \<noteq> length incoming then accum else map2 intersectRanges accum incoming)"

definition statesEqual :: "InitRangeState \<Rightarrow> InitRangeState \<Rightarrow> bool" where
  "statesEqual lhs rhs = (lhs = rhs)"

section \<open>The fixpoint loop\<close>

record 'b cfg =
  cfg_blocks :: "'b list"          \<comment> \<open>in function order\<close>
  cfg_entry :: 'b
  cfg_succs :: "'b \<Rightarrow> 'b list"
  cfg_preds :: "'b \<Rightarrow> 'b list"

text \<open>
  The reachable blocks; as every reachable block is a block of the function, their number
  is enough fuel. \<open>F.empty()\<close> is the empty block list.
\<close>

definition computeReachableBlocks :: "'b cfg \<Rightarrow> 'b set option" where
  "computeReachableBlocks F =
     (if cfg_blocks F = [] then Some {}
      else explore (length (cfg_blocks F)) (cfg_succs F) [cfg_entry F] {cfg_entry F})"

text \<open>The predecessor loop of \<open>computeInState\<close>, with its early \<open>break\<close>.\<close>

fun meetPreds ::
    "nat \<Rightarrow> 'b set \<Rightarrow> ('b \<rightharpoonup> InitRangeState) \<Rightarrow> 'b list \<Rightarrow> bool \<Rightarrow> InitRangeState \<Rightarrow>
     bool \<times> InitRangeState" where
  "meetPreds count reachable outState [] havePred merged = (havePred, merged)"
| "meetPreds count reachable outState (pred # preds) havePred merged =
     (if pred \<notin> reachable then meetPreds count reachable outState preds havePred merged
      else case outState pred of
             None \<Rightarrow> (True, makeBottomState count)
           | Some out \<Rightarrow>
               meetPreds count reachable outState preds True (meetMustState merged out))"

definition computeInState ::
    "'b cfg \<Rightarrow> 'b set \<Rightarrow> ('b \<rightharpoonup> InitRangeState) \<Rightarrow> 'v TrackedMemoryObject list \<Rightarrow> 'b \<Rightarrow>
     InitRangeState" where
  "computeInState F reachable outState tracked BB =
     (let bottom = makeBottomState (length tracked) in
      if BB = cfg_entry F then bottom
      else case meetPreds (length tracked) reachable outState (cfg_preds F BB) False
                  (makeTopState tracked) of
             (havePred, merged) \<Rightarrow> if \<not> havePred then bottom else merged)"

record 'b flow_state =
  fs_in :: "'b \<rightharpoonup> InitRangeState"
  fs_out :: "'b \<rightharpoonup> InitRangeState"
  fs_changed :: bool

text \<open>One visit of a block inside the loop, and one sweep over the function's blocks.\<close>

definition visitBlock ::
    "'b cfg \<Rightarrow> 'b set \<Rightarrow> 'v TrackedMemoryObject list \<Rightarrow> ('b \<Rightarrow> InitRangeState \<Rightarrow> InitRangeState) \<Rightarrow>
     'b \<Rightarrow> 'b flow_state \<Rightarrow> 'b flow_state" where
  "visitBlock F reachable tracked transfer BB s =
     (if BB \<notin> reachable then s
      else
        let newIn = computeInState F reachable (fs_out s) tracked BB;
            state = transfer BB newIn;
            s1 = (if statesEqual (case fs_in s BB of None \<Rightarrow> [] | Some i \<Rightarrow> i) newIn then s
                  else s\<lparr>fs_in := (fs_in s)(BB \<mapsto> newIn), fs_changed := True\<rparr>)
        in if statesEqual (case fs_out s BB of None \<Rightarrow> [] | Some out \<Rightarrow> out) state then s1
           else s1\<lparr>fs_out := (fs_out s1)(BB \<mapsto> state), fs_changed := True\<rparr>)"

definition sweep ::
    "'b cfg \<Rightarrow> 'b set \<Rightarrow> 'v TrackedMemoryObject list \<Rightarrow> ('b \<Rightarrow> InitRangeState \<Rightarrow> InitRangeState) \<Rightarrow>
     'b flow_state \<Rightarrow> 'b flow_state" where
  "sweep F reachable tracked transfer s =
     fold (visitBlock F reachable tracked transfer) (cfg_blocks F) (s\<lparr>fs_changed := False\<rparr>)"

definition initialFlow ::
    "'b cfg \<Rightarrow> 'b set \<Rightarrow> 'v TrackedMemoryObject list \<Rightarrow> 'b flow_state" where
  "initialFlow F reachable tracked =
     (let m = (\<lambda>BB. if BB \<in> set (cfg_blocks F) \<and> BB \<in> reachable
                    then Some (if BB = cfg_entry F then makeBottomState (length tracked)
                               else makeTopState tracked)
                    else None)
      in \<lparr>fs_in = m, fs_out = m, fs_changed = True\<rparr>)"

fun iterateFlow ::
    "nat \<Rightarrow> 'b cfg \<Rightarrow> 'b set \<Rightarrow> 'v TrackedMemoryObject list \<Rightarrow>
     ('b \<Rightarrow> InitRangeState \<Rightarrow> InitRangeState) \<Rightarrow> 'b flow_state \<Rightarrow> 'b flow_state" where
  "iterateFlow 0 F reachable tracked transfer s = s"
| "iterateFlow (Suc n) F reachable tracked transfer s =
     (if fs_changed s
      then iterateFlow n F reachable tracked transfer (sweep F reachable tracked transfer s)
      else s)"

definition maxIterations :: "nat \<Rightarrow> nat" where
  "maxIterations reachableBlocks =
     max 64 (unat ((of_nat reachableBlocks :: u32) * 16))"

definition analyzeFlow ::
    "'b cfg \<Rightarrow> 'v TrackedMemoryObject list \<Rightarrow> ('b \<Rightarrow> InitRangeState \<Rightarrow> InitRangeState) \<Rightarrow>
     'b flow_state option" where
  "analyzeFlow F tracked transfer =
     map_option
       (\<lambda>reachable.
          iterateFlow (maxIterations (length (filter (\<lambda>BB. BB \<in> reachable) (cfg_blocks F))))
            F reachable tracked transfer (initialFlow F reachable tracked))
       (computeReachableBlocks F)"

section \<open>Order and invariant of state vectors\<close>

definition state_wf :: "nat \<Rightarrow> InitRangeState \<Rightarrow> bool" where
  "state_wf n st \<longleftrightarrow> length st = n \<and> list_all wf_ranges st"

definition state_le :: "InitRangeState \<Rightarrow> InitRangeState \<Rightarrow> bool" where
  "state_le st st' \<longleftrightarrow> list_all2 (\<lambda>x y. bytes x \<subseteq> bytes y) st st'"

lemma state_le_refl [simp]: "state_le st st"
  by (simp add: state_le_def list_all2_refl)

lemma state_le_trans: "state_le a b \<Longrightarrow> state_le b c \<Longrightarrow> state_le a c"
  unfolding state_le_def by (rule list_all2_trans [of _ _ "\<lambda>x y. bytes x \<subseteq> bytes y"]) auto

lemma bottom_le: "length st = n \<Longrightarrow> state_le (makeBottomState n) st"
  by (simp add: state_le_def makeBottomState_def list_all2_conv_all_nth)

lemma bottom_wf [simp]: "state_wf n (makeBottomState n)"
  by (simp add: state_wf_def makeBottomState_def list_all_iff)

lemma top_wf [simp]: "state_wf (length tracked) (makeTopState tracked)"
  by (simp add: state_wf_def makeTopState_def list_all_iff range_laws)

lemma meet_wf:
  "state_wf n a \<Longrightarrow> state_wf n b \<Longrightarrow> state_wf n (meetMustState a b)"
  using range.vec_meet_inv [of a b] by (simp add: state_wf_def meetMustState_def)

lemma meet_le:
  assumes "state_wf n a" and "state_wf n b"
  shows "state_le (meetMustState a b) a" and "state_le (meetMustState a b) b"
  using range.vec_meet_le [of a b] assms by (simp_all add: state_wf_def meetMustState_def state_le_def)

lemma meet_greatest:
  "state_wf n a \<Longrightarrow> state_wf n b \<Longrightarrow> state_le c a \<Longrightarrow> state_le c b \<Longrightarrow> state_le c (meetMustState a b)"
  using range.vec_meet_greatest [of c a b] by (simp add: state_wf_def meetMustState_def state_le_def)

lemma meetPreds_spec:
  assumes "meetPreds n reachable outState preds havePred merged = (have', res)"
    and "state_wf n merged" and "\<And>p out. outState p = Some out \<Longrightarrow> state_wf n out"
  shows "state_wf n res \<and> state_le res merged \<and>
         (have' \<longleftrightarrow> havePred \<or> (\<exists>p \<in> set preds. p \<in> reachable)) \<and>
         (\<forall>p \<in> set preds. p \<in> reachable \<longrightarrow> (\<forall>out. outState p = Some out \<longrightarrow> state_le res out))"
  using assms(1,2)
proof (induction preds arbitrary: havePred merged)
  case Nil
  then show ?case by simp
next
  case (Cons p preds)
  show ?case
  proof (cases "p \<in> reachable")
    case False
    with Cons show ?thesis by auto
  next
    case True
    show ?thesis
    proof (cases "outState p")
      case None
      with Cons.prems True have "res = makeBottomState n" and "have'" by auto
      moreover have "state_le (makeBottomState n) out" if o: "outState q = Some out" for q out
        using assms(3) [OF o] by (intro bottom_le) (simp add: state_wf_def)
      moreover have "state_le (makeBottomState n) merged"
        using Cons.prems by (intro bottom_le) (simp add: state_wf_def)
      ultimately show ?thesis using True by auto
    next
      case (Some out)
      have wf: "state_wf n out" using Some by (rule assms(3))
      have rec: "meetPreds n reachable outState preds True (meetMustState merged out) = (have', res)"
        using Cons.prems True Some by simp
      note ih = Cons.IH [OF rec meet_wf [OF Cons.prems(2) wf]]
      then have "state_le res merged" "state_le res out"
        using meet_le [OF Cons.prems(2) wf] by (auto intro: state_le_trans)
      with ih Some True show ?thesis by auto
    qed
  qed
qed

lemma computeInState_spec:
  fixes tracked :: "'v TrackedMemoryObject list"
  assumes "\<And>p out. outState p = Some out \<Longrightarrow> state_wf (length tracked) out"
  shows "state_wf (length tracked) (computeInState F reachable outState tracked BB)"
    and "BB \<noteq> cfg_entry F \<Longrightarrow> p \<in> set (cfg_preds F BB) \<Longrightarrow> p \<in> reachable \<Longrightarrow>
           outState p = Some out \<Longrightarrow>
           state_le (computeInState F reachable outState tracked BB) out"
    and "computeInState F reachable outState tracked (cfg_entry F) =
           makeBottomState (length tracked)"
proof -
  obtain have' res where mp: "meetPreds (length tracked) reachable outState (cfg_preds F BB) False
      (makeTopState tracked) = (have', res)" by fastforce
  note sp = meetPreds_spec [OF mp top_wf assms, simplified]
  show "state_wf (length tracked) (computeInState F reachable outState tracked BB)"
    using sp by (simp add: computeInState_def mp Let_def)
  show "state_le (computeInState F reachable outState tracked BB) out"
    if "BB \<noteq> cfg_entry F" "p \<in> set (cfg_preds F BB)" "p \<in> reachable" "outState p = Some out"
    using sp that by (auto simp: computeInState_def mp Let_def)
  show "computeInState F reachable outState tracked (cfg_entry F) = makeBottomState (length tracked)"
    by (simp add: computeInState_def Let_def)
qed

section \<open>The loop\<close>

definition flow_wf :: "nat \<Rightarrow> 'b flow_state \<Rightarrow> bool" where
  "flow_wf n s \<longleftrightarrow> (\<forall>b st. fs_in s b = Some st \<or> fs_out s b = Some st \<longrightarrow> state_wf n st)"

text \<open>
  What the loop needs of the transfer function of a block: it keeps states well formed.  It need
  not be monotone, and the code's is not: at a call of an assignment operator a partly initialised
  object stays as it is while an uninitialised one is marked.
\<close>

definition transfer_ok :: "nat \<Rightarrow> ('b \<Rightarrow> InitRangeState \<Rightarrow> InitRangeState) \<Rightarrow> bool" where
  "transfer_ok n transfer \<longleftrightarrow> (\<forall>b st. state_wf n st \<longrightarrow> state_wf n (transfer b st))"

lemma visitBlock_wf:
  fixes tracked :: "'v TrackedMemoryObject list"
  assumes "flow_wf (length tracked) s" and "transfer_ok (length tracked) transfer"
  shows "flow_wf (length tracked) (visitBlock F reachable tracked transfer b s)"
proof -
  have "state_wf (length tracked) (computeInState F reachable (fs_out s) tracked b)"
    using assms(1) by (intro computeInState_spec(1)) (auto simp: flow_wf_def)
  with assms show ?thesis
    by (auto simp: flow_wf_def visitBlock_def Let_def transfer_ok_def)
qed

lemma visitBlock_unchanged:
  fixes tracked :: "'v TrackedMemoryObject list"
  assumes "\<not> fs_changed (visitBlock F reachable tracked transfer b s)"
  shows "visitBlock F reachable tracked transfer b s = s"
    and "\<not> fs_changed s"
    and "b \<in> reachable \<Longrightarrow>
           (case fs_in s b of None \<Rightarrow> [] | Some i \<Rightarrow> i) = computeInState F reachable (fs_out s) tracked b
           \<and> (case fs_out s b of None \<Rightarrow> [] | Some i \<Rightarrow> i) =
              transfer b (computeInState F reachable (fs_out s) tracked b)"
  using assms by (auto simp: visitBlock_def Let_def statesEqual_def split: if_splits)

lemma fold_visit_unchanged:
  fixes tracked :: "'v TrackedMemoryObject list"
  assumes "\<not> fs_changed (fold (visitBlock F reachable tracked transfer) bs s)"
  shows "fold (visitBlock F reachable tracked transfer) bs s = s \<and>
         (\<forall>b \<in> set bs. \<not> fs_changed (visitBlock F reachable tracked transfer b s))"
  using assms
proof (induction bs arbitrary: s)
  case Nil
  then show ?case by simp
next
  case (Cons b bs)
  from Cons.prems Cons.IH [of "visitBlock F reachable tracked transfer b s"]
  have ih: "fold (visitBlock F reachable tracked transfer) bs
        (visitBlock F reachable tracked transfer b s) = visitBlock F reachable tracked transfer b s"
    and later: "\<forall>c \<in> set bs. \<not> fs_changed (visitBlock F reachable tracked transfer c
        (visitBlock F reachable tracked transfer b s))" by auto
  with Cons.prems have "\<not> fs_changed (visitBlock F reachable tracked transfer b s)" by simp
  from visitBlock_unchanged(1) [OF this] this ih later show ?case by simp
qed

lemma fold_visit_wf:
  fixes tracked :: "'v TrackedMemoryObject list"
  assumes "transfer_ok (length tracked) transfer"
  shows "flow_wf (length tracked) s \<Longrightarrow>
    flow_wf (length tracked) (fold (visitBlock F reachable tracked transfer) bs s)"
  by (induction bs arbitrary: s) (auto intro: visitBlock_wf assms)

lemma visitBlock_dom:
  "b \<in> dom (fs_in s) \<Longrightarrow> b \<in> dom (fs_in (visitBlock F reachable tracked transfer c s))"
  "b \<in> dom (fs_out s) \<Longrightarrow> b \<in> dom (fs_out (visitBlock F reachable tracked transfer c s))"
  by (auto simp: visitBlock_def Let_def)

lemma fold_visit_dom:
  "b \<in> dom (fs_in s) \<Longrightarrow> b \<in> dom (fs_in (fold (visitBlock F reachable tracked transfer) bs s))"
  "b \<in> dom (fs_out s) \<Longrightarrow> b \<in> dom (fs_out (fold (visitBlock F reachable tracked transfer) bs s))"
proof (induction bs arbitrary: s)
  case (Cons c bs)
  { case 1 then show ?case using Cons.IH(1) visitBlock_dom(1) by (metis fold_simps(2)) }
  { case 2 then show ?case using Cons.IH(2) visitBlock_dom(2) by (metis fold_simps(2)) }
qed simp_all

text \<open>A converged state: one more sweep changes nothing.\<close>

definition converged ::
    "'b cfg \<Rightarrow> 'b set \<Rightarrow> 'v TrackedMemoryObject list \<Rightarrow> ('b \<Rightarrow> InitRangeState \<Rightarrow> InitRangeState) \<Rightarrow>
     'b flow_state \<Rightarrow> bool" where
  "converged F reachable tracked transfer s \<longleftrightarrow>
     flow_wf (length tracked) s \<and>
     (\<forall>b \<in> set (cfg_blocks F) \<inter> reachable.
        fs_in s b = Some (computeInState F reachable (fs_out s) tracked b) \<and>
        fs_out s b = Some (transfer b (computeInState F reachable (fs_out s) tracked b)))"

lemma iterateFlow_converges:
  fixes tracked :: "'v TrackedMemoryObject list"
  assumes "transfer_ok (length tracked) transfer" and "flow_wf (length tracked) s"
    and "set (cfg_blocks F) \<inter> reachable \<subseteq> dom (fs_in s) \<inter> dom (fs_out s)"
    and "fs_changed s" and "\<not> fs_changed (iterateFlow n F reachable tracked transfer s)"
  shows "converged F reachable tracked transfer (iterateFlow n F reachable tracked transfer s)"
  using assms(2-)
proof (induction n arbitrary: s)
  case 0
  then show ?case by simp
next
  case (Suc n)
  let ?s' = "sweep F reachable tracked transfer s"
  let ?s0 = "s\<lparr>fs_changed := False\<rparr>"
  have wf: "flow_wf (length tracked) ?s'"
    unfolding sweep_def using Suc.prems(1) by (intro fold_visit_wf assms(1)) (simp add: flow_wf_def)
  have dom: "set (cfg_blocks F) \<inter> reachable \<subseteq> dom (fs_in ?s') \<inter> dom (fs_out ?s')"
    unfolding sweep_def using Suc.prems(2) fold_visit_dom [of _ ?s0] by fastforce
  show ?case
  proof (cases "fs_changed ?s'")
    case True
    with Suc.prems(3,4) Suc.IH [OF wf dom] show ?thesis by simp
  next
    case False
    then have res: "iterateFlow (Suc n) F reachable tracked transfer s = ?s'"
      using Suc.prems(3) by (cases n) simp_all
    have "?s' = ?s0" and same: "\<forall>b \<in> set (cfg_blocks F).
        \<not> fs_changed (visitBlock F reachable tracked transfer b ?s0)"
      using fold_visit_unchanged [of F reachable tracked transfer "cfg_blocks F" ?s0] False
      by (auto simp: sweep_def)
    have "fs_in ?s' b = Some (computeInState F reachable (fs_out ?s') tracked b) \<and>
        fs_out ?s' b = Some (transfer b (computeInState F reachable (fs_out ?s') tracked b))"
      if "b \<in> set (cfg_blocks F) \<inter> reachable" for b
    proof -
      have "b \<in> dom (fs_in ?s')" "b \<in> dom (fs_out ?s')" using dom that by auto
      with visitBlock_unchanged(3) [of F reachable tracked transfer b ?s0] same that
      show ?thesis unfolding \<open>?s' = ?s0\<close> by auto
    qed
    with wf res show ?thesis by (simp add: converged_def)
  qed
qed


subsection \<open>Soundness over paths\<close>

definition cfg_ok :: "'b cfg \<Rightarrow> bool" where
  "cfg_ok F \<longleftrightarrow>
     cfg_entry F \<in> set (cfg_blocks F) \<and>
     (\<forall>b \<in> set (cfg_blocks F). set (cfg_succs F b) \<subseteq> set (cfg_blocks F) \<and>
        (\<forall>b' \<in> set (cfg_succs F b). b \<in> set (cfg_preds F b')))"

text \<open>
  Runs of the program: \<open>M i\<close> are the bytes of object \<open>i\<close> that are initialised, \<open>exec b M M'\<close> says
  that running block \<open>b\<close> turns \<open>M\<close> into \<open>M'\<close>.
\<close>

type_synonym initialised_bytes = "nat \<Rightarrow> u64 set"

inductive program_run ::
    "'b cfg \<Rightarrow> ('b \<Rightarrow> initialised_bytes \<Rightarrow> initialised_bytes \<Rightarrow> bool) \<Rightarrow> 'b \<Rightarrow> initialised_bytes \<Rightarrow> bool"
  for F exec where
  run_entry: "program_run F exec (cfg_entry F) M"
| run_step: "program_run F exec b M \<Longrightarrow> exec b M M' \<Longrightarrow> b' \<in> set (cfg_succs F b) \<Longrightarrow>
     program_run F exec b' M'"

text \<open>The recorded bytes are initialised.\<close>

definition claims_hold :: "InitRangeState \<Rightarrow> initialised_bytes \<Rightarrow> bool" where
  "claims_hold st M \<longleftrightarrow> (\<forall>i < length st. bytes (st ! i) \<subseteq> M i)"

text \<open>A transfer function that is right about each block on its own.\<close>

definition right_about_blocks ::
    "nat \<Rightarrow> ('b \<Rightarrow> InitRangeState \<Rightarrow> InitRangeState) \<Rightarrow>
     ('b \<Rightarrow> initialised_bytes \<Rightarrow> initialised_bytes \<Rightarrow> bool) \<Rightarrow> bool" where
  "right_about_blocks n transfer exec \<longleftrightarrow>
     (\<forall>b st M M'. state_wf n st \<longrightarrow> claims_hold st M \<longrightarrow> exec b M M' \<longrightarrow> claims_hold (transfer b st) M')"

lemma claims_hold_le: "state_le st st' \<Longrightarrow> claims_hold st' M \<Longrightarrow> claims_hold st M"
  by (fastforce simp: state_le_def claims_hold_def list_all2_conv_all_nth)

lemma claims_hold_bottom [simp]: "claims_hold (makeBottomState n) M"
  by (simp add: claims_hold_def makeBottomState_def bytes_def)

lemma reachable_blocks:
  assumes "cfg_ok F"
  shows "computeReachableBlocks F = Some {b. (cfg_entry F, b) \<in> (edges (cfg_succs F))\<^sup>*}"
proof -
  have ne: "cfg_blocks F \<noteq> []" using assms by (auto simp: cfg_ok_def)
  have "card (set (cfg_blocks F)) \<le> length (cfg_blocks F)" by (rule card_length)
  then have "explore (length (cfg_blocks F)) (cfg_succs F) [cfg_entry F] (set [cfg_entry F]) =
      Some ((edges (cfg_succs F))\<^sup>* `` set [cfg_entry F])"
    using assms by (intro explore_from [where U = "set (cfg_blocks F)"]) (auto simp: cfg_ok_def)
  with ne show ?thesis by (simp add: computeReachableBlocks_def Image_def)
qed

lemma reachable_closed:
  assumes "cfg_ok F" and "computeReachableBlocks F = Some R"
  shows "cfg_entry F \<in> R" and "R \<subseteq> set (cfg_blocks F)"
    and "b \<in> R \<Longrightarrow> b' \<in> set (cfg_succs F b) \<Longrightarrow> b' \<in> R"
proof -
  have R: "R = {b. (cfg_entry F, b) \<in> (edges (cfg_succs F))\<^sup>*}"
    using assms reachable_blocks by fastforce
  then show "cfg_entry F \<in> R" by simp
  show "R \<subseteq> set (cfg_blocks F)"
  proof
    fix b assume "b \<in> R"
    then have "(cfg_entry F, b) \<in> (edges (cfg_succs F))\<^sup>*" by (simp add: R)
    then show "b \<in> set (cfg_blocks F)"
      by induction (use assms(1) in \<open>auto simp: cfg_ok_def\<close>)
  qed
  show "b' \<in> R" if "b \<in> R" "b' \<in> set (cfg_succs F b)"
    using that unfolding R by (auto intro: rtrancl_into_rtrancl)
qed

lemma converged_claims_hold:
  fixes tracked :: "'v TrackedMemoryObject list"
  assumes conv: "converged F R tracked transfer s" and ok: "cfg_ok F"
    and R: "computeReachableBlocks F = Some R"
    and right: "right_about_blocks (length tracked) transfer exec"
    and run: "program_run F exec b M"
  shows "b \<in> R \<and> (\<exists>i. fs_in s b = Some i \<and> claims_hold i M)"
  using run
proof (induction rule: program_run.induct)
  case (run_entry M)
  have "cfg_entry F \<in> set (cfg_blocks F) \<inter> R" using ok reachable_closed(1) [OF ok R]
    by (auto simp: cfg_ok_def)
  with conv show ?case by (auto simp: converged_def computeInState_def Let_def)
next
  case (run_step b M M' b')
  let ?in = "\<lambda>b. computeInState F R (fs_out s) tracked b"
  have wf: "\<And>p out. fs_out s p = Some out \<Longrightarrow> state_wf (length tracked) out"
    using conv by (auto simp: converged_def flow_wf_def)
  have bR: "b \<in> set (cfg_blocks F) \<inter> R" using run_step.IH reachable_closed(2) [OF ok R] by auto
  then have inb: "fs_in s b = Some (?in b)" and outb: "fs_out s b = Some (transfer b (?in b))"
    using conv by (auto simp: converged_def)
  have b'R: "b' \<in> R" using run_step reachable_closed(3) [OF ok R] by blast
  then have inb': "fs_in s b' = Some (?in b')"
    using conv reachable_closed(2) [OF ok R] by (auto simp: converged_def)
  have "state_wf (length tracked) (?in b)" by (rule computeInState_spec(1)) (rule wf)
  moreover have "claims_hold (?in b) M" using run_step.IH inb by simp
  ultimately have "claims_hold (transfer b (?in b)) M'"
    using right run_step.hyps(2) unfolding right_about_blocks_def by blast
  moreover have "state_le (?in b') (transfer b (?in b))"
  proof (cases "b' = cfg_entry F")
    case True
    then have "?in b' = makeBottomState (length tracked)" by (simp add: computeInState_def Let_def)
    then show ?thesis using wf [OF outb] by (simp add: bottom_le state_wf_def)
  next
    case False
    have "b \<in> set (cfg_preds F b')" using ok run_step.hyps(3) bR by (auto simp: cfg_ok_def)
    from computeInState_spec(2) [where outState = "fs_out s" and F = F and reachable = R
        and tracked = tracked and BB = b' and p = b, OF wf False this _ outb] bR
    show ?thesis by simp
  qed
  ultimately show ?case using b'R inb' claims_hold_le by blast
qed

lemma initialFlow_ok:
  "flow_wf (length tracked) (initialFlow F R tracked)"
  "fs_changed (initialFlow F R tracked)"
  "set (cfg_blocks F) \<inter> R \<subseteq> dom (fs_in (initialFlow F R tracked)) \<inter> dom (fs_out (initialFlow F R tracked))"
  by (auto simp: initialFlow_def Let_def flow_wf_def split: if_splits)

lemma analyzeFlow_claims_hold:
  fixes tracked :: "'v TrackedMemoryObject list"
  assumes "cfg_ok F" and "transfer_ok (length tracked) transfer"
    and "right_about_blocks (length tracked) transfer exec"
    and "analyzeFlow F tracked transfer = Some s" and "\<not> fs_changed s"
    and "program_run F exec b M"
  shows "\<exists>i. fs_in s b = Some i \<and> claims_hold i M"
proof -
  obtain R where R: "computeReachableBlocks F = Some R" using reachable_blocks [OF assms(1)] by blast
  then have s: "s = iterateFlow (maxIterations (length (filter (\<lambda>BB. BB \<in> R) (cfg_blocks F))))
      F R tracked transfer (initialFlow F R tracked)"
    using assms(4) by (simp add: analyzeFlow_def)
  have "converged F R tracked transfer s"
    unfolding s using assms(5) s
    by (intro iterateFlow_converges [OF assms(2) initialFlow_ok(1) initialFlow_ok(3) initialFlow_ok(2)]) simp
  from converged_claims_hold [OF this assms(1) R assms(3,6)] show ?thesis by blast
qed

section \<open>Objects\<close>

lemma clip_spec:
  assumes "clipRangeToObject obj b e = Some (b', e')"
  shows "b' < e'" and "{b' ..< e'} = (if obj_sizeBytes obj = 0 then {b ..< e}
           else {b ..< e} \<inter> {0 ..< obj_sizeBytes obj})"
  using assms by (auto simp: clipRangeToObject_def Let_def not_le split: if_splits)

lemma clip_None:
  "clipRangeToObject obj b e = None \<longleftrightarrow>
     (if obj_sizeBytes obj = 0 then {b ..< e} else {b ..< e} \<inter> {0 ..< obj_sizeBytes obj}) = {}"
  by (auto simp: clipRangeToObject_def Let_def not_le not_less)

lemma layout_cover_iff:
  assumes "wf_ranges initialized" and "obj_hasNonPaddingLayout obj"
  shows "isRangeCoveredRespectingNonPaddingLayout obj initialized b e \<longleftrightarrow>
           {b ..< e} \<inter> bytes (obj_nonPaddingRanges obj) \<subseteq> bytes initialized"
proof -
  have piece: "(max b (br_begin r) \<ge> min e (br_end r) \<or>
        isRangeCovered initialized (max b (br_begin r)) (min e (br_end r))) \<longleftrightarrow>
      {b ..< e} \<inter> {br_begin r ..< br_end r} \<subseteq> bytes initialized" for r
  proof -
    have "{b ..< e} \<inter> {br_begin r ..< br_end r} = {max b (br_begin r) ..< min e (br_end r)}" by auto
    then show ?thesis by (auto simp: isRangeCovered_iff [OF assms(1)])
  qed
  have "list_all (\<lambda>relevant. max b (br_begin relevant) \<ge> min e (br_end relevant) \<or>
        isRangeCovered initialized (max b (br_begin relevant)) (min e (br_end relevant)))
      (obj_nonPaddingRanges obj) \<longleftrightarrow>
      {b ..< e} \<inter> bytes (obj_nonPaddingRanges obj) \<subseteq> bytes initialized"
    unfolding list_all_iff piece
    by (simp add: bytes_def range_bytes_def Int_UN_distrib UN_subset_iff)
  with assms(2) show ?thesis
    by (auto simp: isRangeCoveredRespectingNonPaddingLayout_def Let_def isRangeCovered_iff [OF assms(1)])
qed

section \<open>Layout\<close>

fun leaf_bytes :: "u64 \<Rightarrow> ty_view \<Rightarrow> u64 set" where
  "leaf_bytes base (StructTy members) =
     \<Union> (set (map (\<lambda>(off, ty). leaf_bytes (saturatingAdd base off) ty) members))"
| "leaf_bytes base (ArrayTy count stride elem) =
     (case stride of None \<Rightarrow> {}
      | Some st \<Rightarrow> (\<Union>i \<in> {0 ..< unat count}. leaf_bytes (saturatingAdd base (of_nat i * st)) elem))"
| "leaf_bytes base (OtherTy storeSize) =
     (case storeSize of None \<Rightarrow> {} | Some w \<Rightarrow> {base ..< saturatingAdd base w})"

lemma saturatingAdd_0 [simp]: "saturatingAdd b 0 = b"
  by (simp add: saturatingAdd_def)

lemma collectLeafRanges_bytes:
  "collectLeafRanges base depth ty out = (True, out') \<Longrightarrow> wf_ranges out \<Longrightarrow>
     wf_ranges out' \<and> bytes out' = bytes out \<union> leaf_bytes base ty"
  "collectMembers base depth members out = (True, out') \<Longrightarrow> wf_ranges out \<Longrightarrow>
     wf_ranges out' \<and> bytes out' = bytes out \<union> leaf_bytes base (StructTy members)"
  "collectElements base depth elem st idxs out = (True, out') \<Longrightarrow> wf_ranges out \<Longrightarrow>
     wf_ranges out' \<and> bytes out' = bytes out \<union>
       (\<Union>i \<in> set idxs. leaf_bytes (saturatingAdd base (of_nat i * st)) elem)"
proof (induction base depth ty out and base depth members out and base depth elem st idxs out
    arbitrary: out' and out' and out' rule: collectLeafRanges_collectMembers_collectElements.induct)
  case (1 baseOffset depth ty out)
  then show ?case
    by (auto simp: range_laws split: ty_view.splits option.splits if_splits)
next
  case (3 baseOffset depth memberOffset ty members out)
  then show ?case by (auto split: prod.splits bool.splits)
next
  case (5 baseOffset depth elem elemStride idx idxs out)
  then show ?case by (auto split: prod.splits bool.splits)
qed auto

subsection \<open>Loop-free functions\<close>

text \<open>
  When the blocks are listed so that every reachable predecessor of a block comes before
  it (a loop-free function in topological order), the first sweep reaches the fixpoint and
  the second one notices it.
\<close>

definition topological :: "'b cfg \<Rightarrow> 'b set \<Rightarrow> bool" where
  "topological F R \<longleftrightarrow>
     (\<forall>pre b post. cfg_blocks F = pre @ b # post \<longrightarrow>
        b \<notin> set pre \<and> (\<forall>p \<in> set (cfg_preds F b). p \<in> R \<longrightarrow> p \<in> set pre))"

definition settled ::
    "'b cfg \<Rightarrow> 'b set \<Rightarrow> 'v TrackedMemoryObject list \<Rightarrow> ('b \<Rightarrow> InitRangeState \<Rightarrow> InitRangeState) \<Rightarrow>
     'b flow_state \<Rightarrow> 'b \<Rightarrow> bool" where
  "settled F R tracked transfer s b \<longleftrightarrow>
     (b \<in> R \<longrightarrow> fs_in s b = Some (computeInState F R (fs_out s) tracked b) \<and>
        fs_out s b = Some (transfer b (computeInState F R (fs_out s) tracked b)))"

lemma meetPreds_cong:
  "(\<And>p. p \<in> set ps \<Longrightarrow> p \<in> R \<Longrightarrow> out p = out' p) \<Longrightarrow>
     meetPreds n R out ps h m = meetPreds n R out' ps h m"
  by (induction ps arbitrary: h m) (auto split: option.splits)

lemma computeInState_cong:
  "(\<And>p. p \<in> set (cfg_preds F b) \<Longrightarrow> p \<in> R \<Longrightarrow> out p = out' p) \<Longrightarrow>
     computeInState F R out tracked b = computeInState F R out' tracked b"
  using meetPreds_cong [of "cfg_preds F b" R out out'] by (simp add: computeInState_def Let_def)

lemma visitBlock_other:
  assumes "c \<noteq> b"
  shows "fs_in (visitBlock F R tracked transfer b s) c = fs_in s c"
    and "fs_out (visitBlock F R tracked transfer b s) c = fs_out s c"
  using assms by (auto simp: visitBlock_def Let_def)

lemma visitBlock_settles:
  assumes "b \<in> R \<Longrightarrow> b \<in> dom (fs_in s) \<inter> dom (fs_out s)" and "\<not> (b \<in> set (cfg_preds F b) \<and> b \<in> R)"
  shows "settled F R tracked transfer (visitBlock F R tracked transfer b s) b"
proof (cases "b \<in> R")
  case True
  let ?s' = "visitBlock F R tracked transfer b s"
  have "computeInState F R (fs_out ?s') tracked b = computeInState F R (fs_out s) tracked b"
    using assms(2) by (intro computeInState_cong) (metis visitBlock_other(2))
  moreover have "fs_in ?s' b = Some (computeInState F R (fs_out s) tracked b) \<and>
      fs_out ?s' b = Some (transfer b (computeInState F R (fs_out s) tracked b))"
    using assms(1) [OF True] True by (auto simp: visitBlock_def Let_def statesEqual_def)
  ultimately show ?thesis by (simp add: settled_def)
qed (simp add: settled_def)

lemma visitBlock_keeps_settled:
  assumes "settled F R tracked transfer s c" and "c \<noteq> b" and "\<not> (b \<in> set (cfg_preds F c) \<and> b \<in> R)"
  shows "settled F R tracked transfer (visitBlock F R tracked transfer b s) c"
proof -
  have "computeInState F R (fs_out (visitBlock F R tracked transfer b s)) tracked c =
      computeInState F R (fs_out s) tracked c"
    using assms(3) by (intro computeInState_cong) (metis visitBlock_other(2))
  with assms(1) show ?thesis by (simp add: settled_def visitBlock_other [OF assms(2)])
qed

lemma fold_visit_settles:
  assumes topo: "topological F R"
  shows "cfg_blocks F = pre @ bs \<Longrightarrow> \<forall>c \<in> set pre. settled F R tracked transfer s c \<Longrightarrow>
    set bs \<inter> R \<subseteq> dom (fs_in s) \<inter> dom (fs_out s) \<Longrightarrow>
    \<forall>c \<in> set (cfg_blocks F). settled F R tracked transfer (fold (visitBlock F R tracked transfer) bs s) c"
proof (induction bs arbitrary: pre s)
  case (Cons b bs)
  let ?s' = "visitBlock F R tracked transfer b s"
  have b: "b \<notin> set pre" "\<And>p. p \<in> set (cfg_preds F b) \<Longrightarrow> p \<in> R \<Longrightarrow> p \<in> set pre"
    using topo Cons.prems(1) by (auto simp: topological_def)
  have "settled F R tracked transfer ?s' b"
    using Cons.prems(3) b by (intro visitBlock_settles) auto
  moreover have "settled F R tracked transfer ?s' c" if c: "c \<in> set pre" for c
  proof (rule visitBlock_keeps_settled)
    obtain us vs where "pre = us @ c # vs" using split_list [OF c] by blast
    with topo Cons.prems(1) have "\<forall>p \<in> set (cfg_preds F c). p \<in> R \<longrightarrow> p \<in> set us"
      by (auto simp: topological_def)
    with b(1) \<open>pre = us @ c # vs\<close> show "\<not> (b \<in> set (cfg_preds F c) \<and> b \<in> R)" by auto
  qed (use Cons.prems(2) b(1) c in auto)
  moreover have "set bs \<inter> R \<subseteq> dom (fs_in ?s') \<inter> dom (fs_out ?s')"
    using Cons.prems(3) visitBlock_dom [of _ s F R tracked transfer b] by fastforce
  ultimately have "\<forall>c \<in> set (cfg_blocks F). settled F R tracked transfer
      (fold (visitBlock F R tracked transfer) bs ?s') c"
    using Cons.prems(1) by (intro Cons.IH [of "pre @ [b]"]) auto
  then show ?case by simp
qed simp

lemma fold_visit_settled:
  "\<forall>c \<in> set bs. settled F R tracked transfer s c \<Longrightarrow>
     fold (visitBlock F R tracked transfer) bs s = s"
proof (induction bs arbitrary: s)
  case (Cons b bs)
  then have "visitBlock F R tracked transfer b s = s"
    by (auto simp: visitBlock_def settled_def Let_def statesEqual_def)
  with Cons show ?case by simp
qed simp

lemma analyzeFlow_loop_free:
  assumes ok: "cfg_ok F" and R: "computeReachableBlocks F = Some R" and topo: "topological F R"
  shows "\<exists>s. analyzeFlow F tracked transfer = Some s \<and> \<not> fs_changed s"
proof -
  let ?i = "initialFlow F R tracked"
  let ?s1 = "sweep F R tracked transfer ?i"
  let ?s2 = "sweep F R tracked transfer ?s1"
  have "\<forall>c \<in> set (cfg_blocks F). settled F R tracked transfer ?s1 c"
    unfolding sweep_def using initialFlow_ok(3) [of F R tracked]
    by (intro fold_visit_settles [OF topo, of "[]"]) auto
  then have "?s2 = ?s1\<lparr>fs_changed := False\<rparr>"
    unfolding sweep_def [of F R tracked transfer ?s1]
    by (intro fold_visit_settled) (simp add: settled_def)
  then have "\<not> fs_changed ?s2" by simp
  moreover have "iterateFlow n F R tracked transfer s = s" if "\<not> fs_changed s" for n s
    using that by (cases n) simp_all
  ultimately have "\<not> fs_changed (iterateFlow (Suc (Suc n)) F R tracked transfer ?i)" for n
    by simp
  moreover have "\<exists>n. maxIterations k = Suc (Suc n)" for k
    by (intro exI [of _ "maxIterations k - 2"]) (simp add: maxIterations_def)
  ultimately have "\<not> fs_changed (iterateFlow (maxIterations k) F R tracked transfer ?i)" for k
    by metis
  with R show ?thesis by (simp add: analyzeFlow_def)
qed

section \<open>Properties\<close>

text \<open>
  C2: When the fixpoint loop stops because nothing changed, every byte that is recorded as
  initialised at a block is initialised in every run of the program that reaches the block. The
  transfer function must be right about each block on its own: from recorded bytes that are
  initialised before the block it records only bytes that are initialised after it. It need not
  be monotone.
\<close>

theorem must_init_sound_on_runs:
  fixes tracked :: "'v TrackedMemoryObject list"
  assumes "cfg_ok F" and "transfer_ok (length tracked) transfer"
    and "right_about_blocks (length tracked) transfer exec"
    and "analyzeFlow F tracked transfer = Some s" and "\<not> fs_changed s"
    and "program_run F exec b M"
  shows "\<exists>i. fs_in s b = Some i \<and> claims_hold i M"
  using assms by (rule analyzeFlow_claims_hold)

text \<open>A branch that initialises the first four bytes of an eight byte object on one side.\<close>

definition branch_cfg :: "nat cfg" where
  "branch_cfg = \<lparr>cfg_blocks = [0, 1, 2], cfg_entry = 0,
     cfg_succs = (\<lambda>b. if b = 0 then [1, 2] else if b = 1 then [2] else []),
     cfg_preds = (\<lambda>b. if b = 1 then [0] else if b = 2 then [0, 1] else [])\<rparr>"

definition branch_object :: "nat TrackedMemoryObject" where
  "branch_object = \<lparr>obj_alloca = Some 0, obj_param = None, obj_sizeBytes = 8,
     obj_nonPaddingRanges = [], obj_kind = Alloca, obj_hasNonPaddingLayout = False\<rparr>"

text \<open>The last block calls an assignment operator: its transfer function is not monotone.\<close>

definition branch_transfer :: "nat \<Rightarrow> InitRangeState \<Rightarrow> InitRangeState" where
  "branch_transfer b st =
     (if b = 1 then map (\<lambda>r. addRange r 0 4) st
      else if b = 2 then map (\<lambda>r. if r = [] then addRange r 0 8 else r) st else st)"

definition branch_exec :: "nat \<Rightarrow> initialised_bytes \<Rightarrow> initialised_bytes \<Rightarrow> bool" where
  "branch_exec b M M' \<longleftrightarrow>
     M' = (if b = 1 then \<lambda>i. M i \<union> {0 ..< 4} else if b = 2 then \<lambda>i. M i \<union> {0 ..< 8} else M)"

lemma branch_ok: "cfg_ok branch_cfg" "transfer_ok (length [branch_object]) branch_transfer"
  "right_about_blocks (length [branch_object]) branch_transfer branch_exec"
proof -
  show "cfg_ok branch_cfg" by (simp add: cfg_ok_def branch_cfg_def)
  show "transfer_ok (length [branch_object]) branch_transfer"
    unfolding transfer_ok_def branch_transfer_def state_wf_def
    by (auto simp: list_all_iff range_laws)
  show "right_about_blocks (length [branch_object]) branch_transfer branch_exec"
    unfolding right_about_blocks_def branch_transfer_def branch_exec_def state_wf_def claims_hold_def
    by (fastforce simp: list_all_length range_laws split: if_splits)
qed

lemma branch_run: "program_run branch_cfg branch_exec 2 (\<lambda>_. {0 ..< 4})"
proof -
  have "program_run branch_cfg branch_exec 0 (\<lambda>_. {})"
    using run_entry [of branch_cfg branch_exec "\<lambda>_. {}"] by (simp add: branch_cfg_def)
  from run_step [OF this, of "\<lambda>_. {}" 1] have "program_run branch_cfg branch_exec 1 (\<lambda>_. {})"
    by (simp add: branch_cfg_def branch_exec_def)
  from run_step [OF this, of "\<lambda>_. {0 ..< 4}" 2] show ?thesis
    by (simp add: branch_cfg_def branch_exec_def)
qed

lemma branch_reachable: "computeReachableBlocks branch_cfg = Some {0, 1, 2}"
  by (simp add: computeReachableBlocks_def branch_cfg_def numeral_eq_Suc insert_commute)

lemma branch_topological: "topological branch_cfg {0, 1, 2}"
  by (auto simp: topological_def branch_cfg_def Cons_eq_append_conv)

theorem must_init_sound_on_runs_witness:
  "\<exists>s i. analyzeFlow branch_cfg [branch_object] branch_transfer = Some s \<and> fs_in s 2 = Some i \<and>
     claims_hold i (\<lambda>_. {0 ..< 4})"
proof -
  obtain s where s: "analyzeFlow branch_cfg [branch_object] branch_transfer = Some s" "\<not> fs_changed s"
    using analyzeFlow_loop_free [OF branch_ok(1) branch_reachable branch_topological] by blast
  from must_init_sound_on_runs [OF branch_ok s branch_run] s(1) show ?thesis by blast
qed

text \<open>
  C12: On a loop-free function whose blocks are listed in topological order the loop ends by
  reaching its fixpoint: the bound on the number of sweeps never cuts it short.
\<close>

theorem loop_free_reaches_fixpoint:
  fixes tracked :: "'v TrackedMemoryObject list"
  assumes "cfg_ok F" and "computeReachableBlocks F = Some R" and "topological F R"
  shows "\<exists>s. analyzeFlow F tracked transfer = Some s \<and> \<not> fs_changed s"
  using assms by (rule analyzeFlow_loop_free)

theorem loop_free_reaches_fixpoint_witness:
  "\<exists>s. analyzeFlow branch_cfg [branch_object] branch_transfer = Some s \<and> \<not> fs_changed s"
  by (rule loop_free_reaches_fixpoint [OF branch_ok(1) branch_reachable branch_topological])

text \<open>
  For an object whose type layout was collected, a read is accepted exactly when every
  byte of it that belongs to a leaf member of the type is initialised: padding never
  matters, every other byte does.
\<close>

theorem padding_is_the_only_exemption:
  assumes "collectLeafRanges 0 0 ty [] = (True, rs)" and "obj_hasNonPaddingLayout obj"
    and "obj_nonPaddingRanges obj = rs" and "wf_ranges initialized"
  shows "isRangeCoveredRespectingNonPaddingLayout obj initialized b e \<longleftrightarrow>
           {b ..< e} \<inter> leaf_bytes 0 ty \<subseteq> bytes initialized"
  using collectLeafRanges_bytes(1) [OF assms(1)] layout_cover_iff [OF assms(4,2)] assms(3) by simp

text \<open>A \<open>struct {char; int}\<close>: three bytes of padding after the first member.\<close>

theorem padding_is_the_only_exemption_witness:
  "isRangeCoveredRespectingNonPaddingLayout
     \<lparr>obj_alloca = Some (0 :: nat), obj_param = None, obj_sizeBytes = 8,
      obj_nonPaddingRanges = [\<lparr>br_begin = 0, br_end = 1\<rparr>, \<lparr>br_begin = 4, br_end = 8\<rparr>],
      obj_kind = Alloca, obj_hasNonPaddingLayout = True\<rparr>
     [\<lparr>br_begin = 0, br_end = 1\<rparr>, \<lparr>br_begin = 4, br_end = 8\<rparr>] 0 8"
proof -
  let ?rs = "[\<lparr>br_begin = 0, br_end = 1\<rparr>, \<lparr>br_begin = 4, br_end = 8\<rparr>]"
  let ?ty = "StructTy [(0, OtherTy (Some 1)), (4, OtherTy (Some 4))]"
  have c: "collectLeafRanges 0 0 ?ty [] = (True, ?rs)"
    by (simp add: addRange_def saturatingAdd_def)
  have "saturatingAdd 0 1 = 1" "saturatingAdd 0 4 = 4" "saturatingAdd 4 4 = 8"
    by (simp_all add: saturatingAdd_def)
  then have "{0 ..< 8} \<inter> leaf_bytes 0 ?ty \<subseteq> bytes ?rs" by auto
  moreover have "wf_ranges ?rs" by (simp add: wf_ranges_Cons)
  ultimately show ?thesis by (simp add: padding_is_the_only_exemption [OF c])
qed

end
