(* ===== verification/UninitSummary.thy ===== *)
theory UninitSummary
  imports InitState
begin

text \<open>
  The interprocedural summaries of \<open>src/analysis/UninitializedVarAnalysis.cpp\<close>: the
  effect of a function on each pointer parameter, the merge of effects, the public form
  exchanged between translation units, its merge with an exact change flag, its
  comparison, and the dirty-set fixpoint \<open>computeFunctionSummaries\<close>. The
  \<open>unordered_map\<close> from symbol name to summary is an association list with distinct keys,
  in some iteration order. The analysis of one function is an argument of the fixpoint.
\<close>

section \<open>Effects\<close>

record slot_write =
  sw_slotOffset :: u64
  sw_writeSizeBytes :: u64  \<comment> \<open>0 means unknown or full pointee write\<close>

record param_effect =
  pe_reads :: range_set      \<comment> \<open>\<open>readBeforeWriteRanges\<close>\<close>
  pe_writes :: range_set     \<comment> \<open>\<open>writeRanges\<close>\<close>
  pe_slots :: "slot_write list"
  pe_unknownRead :: bool
  pe_unknownWrite :: bool

type_synonym function_summary = "param_effect list"

definition emptyEffect :: param_effect where
  "emptyEffect = \<lparr>pe_reads = [], pe_writes = [], pe_slots = [], pe_unknownRead = False,
                  pe_unknownWrite = False\<rparr>"

definition hasAnyEffect :: "param_effect \<Rightarrow> bool" where
  "hasAnyEffect e =
     (pe_unknownRead e \<or> pe_unknownWrite e \<or> pe_reads e \<noteq> [] \<or> pe_writes e \<noteq> [] \<or> pe_slots e \<noteq> [])"

definition isEmptyParamEffect :: "param_effect \<Rightarrow> bool" where
  "isEmptyParamEffect e = (\<not> hasAnyEffect e)"

definition makeEmptySummary :: "nat \<Rightarrow> function_summary" where
  "makeEmptySummary argCount = replicate argCount emptyEffect"

definition addPointerSlotWriteEffect :: "slot_write list \<Rightarrow> slot_write \<Rightarrow> slot_write list" where
  "addPointerSlotWriteEffect slots candidate =
     (if candidate \<in> set slots then slots else slots @ [candidate])"

text \<open>\<open>pop_back\<close> while the last effect is empty.\<close>

definition trimTrailingEmptyParamEffects :: "function_summary \<Rightarrow> function_summary" where
  "trimTrailingEmptyParamEffects s = rev (dropWhile isEmptyParamEffect (rev s))"

definition addRanges :: "range_set \<Rightarrow> range_set \<Rightarrow> range_set" where
  "addRanges dst src = fold (\<lambda>r s. addRange s (br_begin r) (br_end r)) src dst"

definition addSlots :: "slot_write list \<Rightarrow> slot_write list \<Rightarrow> slot_write list" where
  "addSlots dst src = fold (\<lambda>w s. addPointerSlotWriteEffect s w) src dst"

definition mergeParamEffect :: "param_effect \<Rightarrow> param_effect \<Rightarrow> param_effect" where
  "mergeParamEffect dst src =
     \<lparr>pe_reads = addRanges (pe_reads dst) (pe_reads src),
      pe_writes = addRanges (pe_writes dst) (pe_writes src),
      pe_slots = addSlots (pe_slots dst) (pe_slots src),
      pe_unknownRead = (pe_unknownRead dst \<or> pe_unknownRead src),
      pe_unknownWrite = (pe_unknownWrite dst \<or> pe_unknownWrite src)\<rparr>"

definition resizeEffects :: "nat \<Rightarrow> param_effect list \<Rightarrow> param_effect list" where
  "resizeEffects n es = take n es @ replicate (n - length es) emptyEffect"

definition mergeFunctionSummary :: "function_summary \<Rightarrow> function_summary \<Rightarrow> bool \<times> function_summary" where
  "mergeFunctionSummary dst src =
     (let grown = length dst < length src;
          dst1 = (if grown then resizeEffects (length src) dst else dst);
          dst2 = map2 mergeParamEffect (take (length src) dst1) src @ drop (length src) dst1;
          altered = (\<exists>i < length src. dst1 ! i \<noteq> dst2 ! i);
          dst3 = trimTrailingEmptyParamEffects dst2
      in (grown \<or> altered \<or> length dst3 \<noteq> length dst2, dst3))"

section \<open>The public form\<close>

record public_effect =
  pub_reads :: range_set
  pub_writes :: range_set
  pub_slots :: "slot_write list"
  pub_unknownRead :: bool
  pub_unknownWrite :: bool

type_synonym public_function = "public_effect list"
type_synonym summary_index = "(string \<times> public_function) list"

definition emptyPublic :: public_effect where
  "emptyPublic = \<lparr>pub_reads = [], pub_writes = [], pub_slots = [], pub_unknownRead = False,
                  pub_unknownWrite = False\<rparr>"

definition isEmptyPublicParamEffect :: "public_effect \<Rightarrow> bool" where
  "isEmptyPublicParamEffect e =
     (\<not> pub_unknownRead e \<and> \<not> pub_unknownWrite e \<and> pub_reads e = [] \<and> pub_writes e = [] \<and>
      pub_slots e = [])"

definition importEffect :: "public_effect \<Rightarrow> param_effect" where
  "importEffect src =
     \<lparr>pe_reads = addRanges [] (pub_reads src), pe_writes = addRanges [] (pub_writes src),
      pe_slots = addSlots [] (pub_slots src), pe_unknownRead = pub_unknownRead src,
      pe_unknownWrite = pub_unknownWrite src\<rparr>"

definition importPublicFunctionSummary :: "public_function \<Rightarrow> function_summary" where
  "importPublicFunctionSummary s = trimTrailingEmptyParamEffects (map importEffect s)"

definition exportEffect :: "param_effect \<Rightarrow> public_effect" where
  "exportEffect e =
     \<lparr>pub_reads = pe_reads e, pub_writes = pe_writes e, pub_slots = pe_slots e,
      pub_unknownRead = pe_unknownRead e, pub_unknownWrite = pe_unknownWrite e\<rparr>"

definition exportPublicFunctionSummary :: "function_summary \<Rightarrow> public_function" where
  "exportPublicFunctionSummary s =
     rev (dropWhile isEmptyPublicParamEffect (rev (map exportEffect s)))"

text \<open>
  \<open>importExternalSummaryMap\<close>: the same import for every function of an index, under the
  canonical symbol name (\<open>canon\<close>); \<open>emplace\<close> keeps the first entry of a name, and
  functions without effect are left out.
\<close>

definition importExternalSummaryMap ::
    "(string \<Rightarrow> string) \<Rightarrow> summary_index \<Rightarrow> (string \<rightharpoonup> function_summary)" where
  "importExternalSummaryMap canon external =
     map_of (filter (\<lambda>(_, s). s \<noteq> [])
       (map (\<lambda>(name, f). (canon name, importPublicFunctionSummary f)) external))"

section \<open>Merging the public form\<close>

fun absorbPublic :: "u64 \<Rightarrow> range_set \<Rightarrow> bool \<times> u64 \<times> range_set" where
  "absorbPublic e [] = (False, e, [])"
| "absorbPublic e (n # ns) =
     (if br_begin n \<le> e
      then case absorbPublic (max e (br_end n)) ns of (_, e', kept) \<Rightarrow> (True, e', kept)
      else (False, e, n # ns))"

definition addPublicRange :: "range_set \<Rightarrow> u64 \<Rightarrow> u64 \<Rightarrow> bool \<times> range_set" where
  "addPublicRange ranges b e =
     (if b \<ge> e then (False, ranges)
      else
        let before = takeWhile (\<lambda>r. br_end r < b) ranges;
            rest = dropWhile (\<lambda>r. br_end r < b) ranges
        in case rest of
             [] \<Rightarrow> (True, ranges @ [\<lparr>br_begin = b, br_end = e\<rparr>])
           | it # nxt \<Rightarrow>
               if e < br_begin it
               then (True, before @ \<lparr>br_begin = b, br_end = e\<rparr> # rest)
               else
                 let b' = min (br_begin it) b;
                     e1 = max (br_end it) e;
                     changed = (b' \<noteq> br_begin it \<or> e1 \<noteq> br_end it)
                 in case absorbPublic e1 nxt of
                      (swallowed, e', kept) \<Rightarrow>
                        (changed \<or> swallowed,
                         before @ \<lparr>br_begin = b', br_end = e'\<rparr> # kept))"

fun addPublicRanges :: "range_set \<Rightarrow> range_set \<Rightarrow> bool \<times> range_set" where
  "addPublicRanges dst [] = (False, dst)"
| "addPublicRanges dst (r # rs) =
     (case addPublicRange dst (br_begin r) (br_end r) of
        (c, dst') \<Rightarrow> case addPublicRanges dst' rs of (c', dst'') \<Rightarrow> (c \<or> c', dst''))"

fun addPublicSlots :: "slot_write list \<Rightarrow> slot_write list \<Rightarrow> bool \<times> slot_write list" where
  "addPublicSlots dst [] = (False, dst)"
| "addPublicSlots dst (w # ws) =
     (if w \<in> set dst then addPublicSlots dst ws
      else case addPublicSlots (dst @ [w]) ws of (_, dst') \<Rightarrow> (True, dst'))"

definition mergePublicParamEffect :: "public_effect \<Rightarrow> public_effect \<Rightarrow> bool \<times> public_effect" where
  "mergePublicParamEffect dst src =
     (let (c1, reads) = addPublicRanges (pub_reads dst) (pub_reads src);
          (c2, writes) = addPublicRanges (pub_writes dst) (pub_writes src);
          (c3, slots) = addPublicSlots (pub_slots dst) (pub_slots src);
          c4 = (pub_unknownRead src \<and> \<not> pub_unknownRead dst);
          c5 = (pub_unknownWrite src \<and> \<not> pub_unknownWrite dst)
      in (c1 \<or> c2 \<or> c3 \<or> c4 \<or> c5,
          \<lparr>pub_reads = reads, pub_writes = writes, pub_slots = slots,
           pub_unknownRead = (pub_unknownRead dst \<or> c4),
           pub_unknownWrite = (pub_unknownWrite dst \<or> c5)\<rparr>))"

definition effectivePublicParamEffectCount :: "public_function \<Rightarrow> nat" where
  "effectivePublicParamEffectCount fn = length (dropWhile isEmptyPublicParamEffect (rev fn))"

definition trimTrailingEmptyPublicParamEffects :: "public_function \<Rightarrow> public_function" where
  "trimTrailingEmptyPublicParamEffects fn = take (effectivePublicParamEffectCount fn) fn"

definition mergePublicFunctionSummary :: "public_function \<Rightarrow> public_function \<Rightarrow> bool \<times> public_function" where
  "mergePublicFunctionSummary dst src =
     (let srcSize = effectivePublicParamEffectCount src;
          grown = length dst < srcSize;
          dst1 = (if grown then dst @ replicate (srcSize - length dst) emptyPublic else dst);
          merged = map2 mergePublicParamEffect (take srcSize dst1) (take srcSize src);
          dst2 = map snd merged @ drop srcSize dst1;
          dst3 = trimTrailingEmptyPublicParamEffects dst2
      in (grown \<or> list_ex fst merged \<or> length dst3 \<noteq> length dst2, dst3))"

fun updateEntry :: "string \<Rightarrow> public_function \<Rightarrow> summary_index \<Rightarrow> summary_index" where
  "updateEntry k v [] = [(k, v)]"
| "updateEntry k v ((k', v') # rest) = (if k = k' then (k, v) # rest else (k', v') # updateEntry k v rest)"

fun mergeUninitializedSummaryIndex :: "summary_index \<Rightarrow> summary_index \<Rightarrow> bool \<times> summary_index" where
  "mergeUninitializedSummaryIndex dst [] = (False, dst)"
| "mergeUninitializedSummaryIndex dst ((name, fn) # entries) =
     (if effectivePublicParamEffectCount fn = 0 then mergeUninitializedSummaryIndex dst entries
      else case map_of dst name of
             None \<Rightarrow>
               (case mergeUninitializedSummaryIndex
                       (updateEntry name (trimTrailingEmptyPublicParamEffects fn) dst) entries of
                  (_, dst') \<Rightarrow> (True, dst'))
           | Some old \<Rightarrow>
               (case mergePublicFunctionSummary old fn of
                  (c, new) \<Rightarrow>
                    (case mergeUninitializedSummaryIndex (updateEntry name new dst) entries of
                       (c', dst') \<Rightarrow> (c \<or> c', dst'))))"

section \<open>Comparing the public form\<close>

definition publicFunctionSummaryEquals :: "public_function \<Rightarrow> public_function \<Rightarrow> bool" where
  "publicFunctionSummaryEquals lhs rhs =
     (effectivePublicParamEffectCount lhs = effectivePublicParamEffectCount rhs \<and>
      list_all2 (\<lambda>l r. l = r) (take (effectivePublicParamEffectCount lhs) lhs)
        (take (effectivePublicParamEffectCount lhs) rhs))"

definition uninitializedSummaryIndexEquals :: "summary_index \<Rightarrow> summary_index \<Rightarrow> bool" where
  "uninitializedSummaryIndexEquals lhs rhs =
     (length lhs = length rhs \<and>
      list_all (\<lambda>(name, fn). case map_of rhs name of
                   None \<Rightarrow> False | Some fn' \<Rightarrow> publicFunctionSummaryEquals fn fn') lhs)"

definition computeChangedUninitializedFunctionNames :: "summary_index \<Rightarrow> summary_index \<Rightarrow> string set" where
  "computeChangedUninitializedFunctionNames prev nxt =
     set (map fst (filter (\<lambda>(name, fn). case map_of prev name of
                     None \<Rightarrow> True | Some fn' \<Rightarrow> \<not> publicFunctionSummaryEquals fn fn') nxt)) \<union>
     set (map fst (filter (\<lambda>(name, _). map_of nxt name = None) prev))"

section \<open>The dirty-set fixpoint\<close>

record ('f, 's) summary_state =
  ss_map :: "'f \<rightharpoonup> 's"
  ss_changed :: bool
  ss_nextDirty :: "'f set"

text \<open>
  \<open>analyze f S\<close> is the summary \<open>analyzeFunction\<close> computes for \<open>f\<close> under the summaries
  \<open>S\<close>; \<open>callers g\<close> are the functions with a direct call to \<open>g\<close>.
\<close>

definition analyzeDirty ::
    "('f \<Rightarrow> ('f \<rightharpoonup> 's) \<Rightarrow> 's) \<Rightarrow> ('f \<Rightarrow> 'f list) \<Rightarrow> 'f set \<Rightarrow> 'f \<Rightarrow> ('f, 's) summary_state \<Rightarrow>
     ('f, 's) summary_state" where
  "analyzeDirty analyze callers dirty f st =
     (if f \<notin> dirty then st
      else let nxt = analyze f (ss_map st)
           in if ss_map st f = Some nxt then st
              else st\<lparr>ss_map := (ss_map st)(f \<mapsto> nxt), ss_changed := True,
                      ss_nextDirty := ss_nextDirty st \<union> set (callers f)\<rparr>)"

definition summarySweep ::
    "('f \<Rightarrow> ('f \<rightharpoonup> 's) \<Rightarrow> 's) \<Rightarrow> ('f \<Rightarrow> 'f list) \<Rightarrow> 'f list \<Rightarrow> 'f set \<Rightarrow> ('f \<rightharpoonup> 's) \<Rightarrow>
     ('f, 's) summary_state" where
  "summarySweep analyze callers fs dirty S =
     fold (analyzeDirty analyze callers dirty) fs
       \<lparr>ss_map = S, ss_changed = False, ss_nextDirty = {}\<rparr>"

fun summaryLoop ::
    "nat \<Rightarrow> ('f \<Rightarrow> ('f \<rightharpoonup> 's) \<Rightarrow> 's) \<Rightarrow> ('f \<Rightarrow> 'f list) \<Rightarrow> 'f list \<Rightarrow> 'f set \<Rightarrow> ('f \<rightharpoonup> 's) \<Rightarrow>
     bool \<times> ('f \<rightharpoonup> 's)" where
  "summaryLoop 0 analyze callers fs dirty S = (True, S)"
| "summaryLoop (Suc guard) analyze callers fs dirty S =
     (let st = summarySweep analyze callers fs dirty S
      in if ss_changed st
         then summaryLoop guard analyze callers fs (ss_nextDirty st) (ss_map st)
         else (False, ss_map st))"

section \<open>Modules\<close>

text \<open>
  What the driver reads of an LLVM module: its functions in order, and of each whether it
  is a declaration, its parameter count, the functions its call instructions name directly
  (\<open>getCalledFunction\<close>), its symbol name and whether its linkage is local.
\<close>

record 'f uninit_module =
  um_functions :: "'f list"
  um_isDeclaration :: "'f \<Rightarrow> bool"
  um_argCount :: "'f \<Rightarrow> nat"
  um_calls :: "'f \<Rightarrow> 'f list"
  um_name :: "'f \<Rightarrow> string"
  um_localLinkage :: "'f \<Rightarrow> bool"

text \<open>
  The functions to analyse and, transitively, the defined callees that
  \<open>shouldIncludeInSummaryScope\<close> accepts (\<open>include\<close>). Each function enters the work list at
  most once, so their number is enough fuel.
\<close>

definition analysisFunctions :: "'f uninit_module \<Rightarrow> ('f \<Rightarrow> bool) \<Rightarrow> 'f list" where
  "analysisFunctions M shouldAnalyze =
     filter (\<lambda>f. \<not> um_isDeclaration M f \<and> shouldAnalyze f) (um_functions M)"

definition scopeCallees :: "'f uninit_module \<Rightarrow> ('f \<Rightarrow> bool) \<Rightarrow> 'f \<Rightarrow> 'f list" where
  "scopeCallees M include f =
     filter (\<lambda>callee. \<not> um_isDeclaration M callee \<and> include callee) (um_calls M f)"

definition collectSummaryScope ::
    "'f uninit_module \<Rightarrow> ('f \<Rightarrow> bool) \<Rightarrow> ('f \<Rightarrow> bool) \<Rightarrow> 'f set option" where
  "collectSummaryScope M shouldAnalyze include =
     (let roots = rev (analysisFunctions M shouldAnalyze)
      in explore (length (um_functions M)) (scopeCallees M include) roots (set roots))"

definition callerOf :: "'f uninit_module \<Rightarrow> 'f list \<Rightarrow> 'f \<Rightarrow> 'f list" where
  "callerOf M fs g =
     concat (map (\<lambda>f. map (\<lambda>_. f) (filter (\<lambda>callee. callee \<in> set fs \<and> callee = g) (um_calls M f))) fs)"

text \<open>The flag says whether the guard of 64 rounds stopped the loop before it was stable.\<close>

definition computeFunctionSummaries ::
    "('f \<Rightarrow> ('f \<rightharpoonup> function_summary) \<Rightarrow> function_summary) \<Rightarrow> 'f uninit_module \<Rightarrow> ('f \<Rightarrow> bool) \<Rightarrow>
     bool \<times> ('f \<rightharpoonup> function_summary)" where
  "computeFunctionSummaries analyze M shouldAnalyze =
     (let fs = analysisFunctions M shouldAnalyze
      in summaryLoop 64 analyze (callerOf M fs) fs (set fs)
           (\<lambda>f. if f \<in> set fs then Some (makeEmptySummary (um_argCount M f)) else None))"

definition shouldExportFunctionSummary :: "'f uninit_module \<Rightarrow> 'f \<Rightarrow> bool" where
  "shouldExportFunctionSummary M f =
     (\<not> um_isDeclaration M f \<and> um_name M f \<noteq> [] \<and> \<not> um_localLinkage M f)"

definition exportSummaryIndexForModule ::
    "(string \<Rightarrow> string) \<Rightarrow> 'f uninit_module \<Rightarrow> ('f \<rightharpoonup> function_summary) \<Rightarrow> summary_index" where
  "exportSummaryIndexForModule canon M summaries =
     fold (\<lambda>f out.
             if \<not> shouldExportFunctionSummary M f then out
             else case summaries f of
                    None \<Rightarrow> out
                  | Some s \<Rightarrow>
                      let normalized = trimTrailingEmptyParamEffects s
                      in if normalized = [] then out
                         else updateEntry (canon (um_name M f)) (exportPublicFunctionSummary normalized) out)
       (um_functions M) []"

definition buildUninitializedSummaryIndex ::
    "('f \<Rightarrow> ('f \<rightharpoonup> function_summary) \<Rightarrow> function_summary) \<Rightarrow> (string \<Rightarrow> string) \<Rightarrow>
     'f uninit_module \<Rightarrow> 'f set \<Rightarrow> summary_index" where
  "buildUninitializedSummaryIndex analyze canon M summaryScope =
     exportSummaryIndexForModule canon M
       (snd (computeFunctionSummaries analyze M (\<lambda>f. f \<in> summaryScope)))"

section \<open>What a public summary denotes\<close>

record effect_den =
  den_reads :: "u64 set"
  den_writes :: "u64 set"
  den_slots :: "slot_write set"
  den_unknownRead :: bool
  den_unknownWrite :: bool

definition eff_den :: "public_effect \<Rightarrow> effect_den" where
  "eff_den e = \<lparr>den_reads = bytes (pub_reads e), den_writes = bytes (pub_writes e),
     den_slots = set (pub_slots e), den_unknownRead = pub_unknownRead e,
     den_unknownWrite = pub_unknownWrite e\<rparr>"

definition den_join :: "effect_den \<Rightarrow> effect_den \<Rightarrow> effect_den" where
  "den_join d d' = \<lparr>den_reads = den_reads d \<union> den_reads d', den_writes = den_writes d \<union> den_writes d',
     den_slots = den_slots d \<union> den_slots d',
     den_unknownRead = (den_unknownRead d \<or> den_unknownRead d'),
     den_unknownWrite = (den_unknownWrite d \<or> den_unknownWrite d')\<rparr>"

definition eff_wf :: "public_effect \<Rightarrow> bool" where
  "eff_wf e \<longleftrightarrow> wf_ranges (pub_reads e) \<and> wf_ranges (pub_writes e)"

definition eff_at :: "public_function \<Rightarrow> nat \<Rightarrow> public_effect" where
  "eff_at f i = (if i < length f then f ! i else emptyPublic)"

definition fn_den :: "public_function \<Rightarrow> nat \<Rightarrow> effect_den" where
  "fn_den f i = eff_den (eff_at f i)"

definition fn_wf :: "public_function \<Rightarrow> bool" where
  "fn_wf f \<longleftrightarrow> list_all eff_wf f"

lemma empty_den [simp]: "den_join d (eff_den emptyPublic) = d" "den_join (eff_den emptyPublic) d = d"
  by (simp_all add: eff_den_def emptyPublic_def den_join_def)

lemma den_join_ac: "den_join (den_join a b) c = den_join a (den_join b c)" "den_join a b = den_join b a"
  "den_join a a = a"
  by (auto simp: den_join_def)

lemma eff_wf_empty [simp]: "eff_wf emptyPublic"
  by (simp add: eff_wf_def emptyPublic_def)

lemma wf_bytes_empty: "wf_ranges rs \<Longrightarrow> bytes rs = {} \<longleftrightarrow> rs = []"
  using range.canonical [of rs "[]"] by auto

lemma empty_iff: "isEmptyPublicParamEffect e \<longleftrightarrow> e = emptyPublic"
  by (auto simp: isEmptyPublicParamEffect_def emptyPublic_def)

lemma empty_iff_den: "eff_wf e \<Longrightarrow> e = emptyPublic \<longleftrightarrow> eff_den e = eff_den emptyPublic"
  by (auto simp: eff_den_def emptyPublic_def eff_wf_def wf_bytes_empty)

subsection \<open>Ranges and slots\<close>

lemma absorbFollowing_length: "length (snd (absorbFollowing e ns)) \<le> length ns"
  by (induction e ns rule: absorbFollowing.induct) (auto simp: le_Suc_eq)

lemma absorbFollowing_shrinks [simp]: "snd (absorbFollowing e ns) \<noteq> n # ns"
  using absorbFollowing_length [of e ns] by (auto dest: arg_cong [where f = length])

lemma absorbPublic_eq:
  "absorbPublic e ns = (snd (absorbFollowing e ns) \<noteq> ns, absorbFollowing e ns)"
  by (induction e ns rule: absorbFollowing.induct) (auto split: prod.splits)

lemma absorb_same: "absorbFollowing e ns = (e', ns) \<Longrightarrow> e' = e"
  using absorbFollowing_shrinks by (cases ns) (fastforce split: if_splits dest: arg_cong [where f = snd])+

lemma addPublicRange_eq: "addPublicRange rs b e = (addRange rs b e \<noteq> rs, addRange rs b e)"
proof (cases "b \<ge> e")
  case True
  then show ?thesis by (simp add: addPublicRange_def addRange_def)
next
  case False
  have split: "takeWhile (\<lambda>r. br_end r < b) rs @ dropWhile (\<lambda>r. br_end r < b) rs = rs"
    by simp
  show ?thesis
  proof (cases "dropWhile (\<lambda>r. br_end r < b) rs")
    case Nil
    with False show ?thesis
      by (simp add: addPublicRange_def addRange_def Let_def del: dropWhile_eq_Nil_conv)
  next
    case (Cons it nxt)
    obtain e' kept where ab: "absorbFollowing (max (br_end it) e) nxt = (e', kept)" by fastforce
    have rs: "rs = takeWhile (\<lambda>r. br_end r < b) rs @ it # nxt" using split Cons by simp
    have eq: "takeWhile (\<lambda>r. br_end r < b) rs @ xs = rs \<longleftrightarrow> xs = it # nxt" for xs
      by (subst (2) rs) simp
    show ?thesis
    proof (cases "e < br_begin it")
      case True
      then have "takeWhile (\<lambda>r. br_end r < b) rs @ \<lparr>br_begin = b, br_end = e\<rparr> # it # nxt \<noteq> rs"
        by (simp add: eq)
      with True False Cons show ?thesis by (simp add: addPublicRange_def addRange_def)
    next
      case nlt: False
      have "(min (br_begin it) b = br_begin it \<and> max (br_end it) e = br_end it \<and> kept = nxt) \<longleftrightarrow>
          \<lparr>br_begin = min (br_begin it) b, br_end = e'\<rparr> # kept = it # nxt"
        using absorb_same [of "max (br_end it) e" nxt e'] ab by (cases it) (auto simp: eq_commute)
      with nlt False Cons ab show ?thesis
        by (auto simp: addPublicRange_def addRange_def absorbPublic_eq Let_def eq)
    qed
  qed
qed

lemma addPublicRanges_spec:
  assumes "addPublicRanges dst rs = (c, dst')" and "wf_ranges dst"
  shows "wf_ranges dst' \<and> bytes dst' = bytes dst \<union> bytes rs \<and> (c \<longleftrightarrow> dst' \<noteq> dst)"
  using assms
proof (induction dst rs arbitrary: c dst' rule: addPublicRanges.induct)
  case (2 dst r rs)
  let ?d = "addRange dst (br_begin r) (br_end r)"
  obtain c1 where rest: "addPublicRanges ?d rs = (c1, dst')" and c: "c \<longleftrightarrow> ?d \<noteq> dst \<or> c1"
    using 2(2) by (auto simp: addPublicRange_eq split: prod.splits)
  have d: "wf_ranges ?d" "bytes ?d = bytes dst \<union> {br_begin r ..< br_end r}"
    using 2(3) by (simp_all add: range_laws)
  have ih: "wf_ranges dst' \<and> bytes dst' = bytes ?d \<union> bytes rs \<and> (c1 \<longleftrightarrow> dst' \<noteq> ?d)"
    by (rule 2(1) [OF addPublicRange_eq [of dst "br_begin r" "br_end r", symmetric] rest d(1)])
  have "dst' = dst \<Longrightarrow> ?d = dst"
    using ih d 2(3) by (intro range.canonical) auto
  with ih d c show ?case by auto
qed auto

lemma addPublicSlots_spec:
  "addPublicSlots dst ws = (c, dst') \<Longrightarrow>
     set dst' = set dst \<union> set ws \<and> (c \<longleftrightarrow> dst' \<noteq> dst) \<and> prefix dst dst' \<and>
     (set dst' = set dst \<longrightarrow> dst' = dst)"
proof (induction dst ws arbitrary: c dst' rule: addPublicSlots.induct)
  case (2 dst w ws)
  show ?case
  proof (cases "w \<in> set dst")
    case True
    then have "addPublicSlots dst ws = (c, dst')" using 2(3) by simp
    note ih = 2(1) [OF True this]
    have "set dst \<union> set (w # ws) = set dst \<union> set ws" using True by auto
    from ih [folded this] show ?thesis .
  next
    case False
    then obtain c1 where rest: "addPublicSlots (dst @ [w]) ws = (c1, dst')" and "c"
      using 2(3) by (auto split: prod.splits)
    have "set dst' = set (dst @ [w]) \<union> set ws \<and> prefix (dst @ [w]) dst'"
      using 2(2) [OF False rest] by auto
    then have "set dst' = set dst \<union> set (w # ws)" and "prefix dst dst'" and "w \<in> set dst'"
      by (auto simp: append_prefixD)
    moreover from this False have "set dst' \<noteq> set dst" and "dst' \<noteq> dst" by auto
    ultimately show ?thesis using \<open>c\<close> by blast
  qed
qed auto

lemma mergePublicParamEffect_spec:
  assumes "mergePublicParamEffect dst src = (c, r)" and "eff_wf dst"
  shows "eff_wf r \<and> eff_den r = den_join (eff_den dst) (eff_den src) \<and> (c \<longleftrightarrow> r \<noteq> dst) \<and>
         (eff_den r = eff_den dst \<longrightarrow> r = dst)"
proof -
  obtain c1 rd c2 wr c3 sl where p:
    "addPublicRanges (pub_reads dst) (pub_reads src) = (c1, rd)"
    "addPublicRanges (pub_writes dst) (pub_writes src) = (c2, wr)"
    "addPublicSlots (pub_slots dst) (pub_slots src) = (c3, sl)" by (metis surj_pair)
  note s = addPublicRanges_spec [OF p(1)] addPublicRanges_spec [OF p(2)] addPublicSlots_spec [OF p(3)]
  have r: "r = \<lparr>pub_reads = rd, pub_writes = wr, pub_slots = sl,
      pub_unknownRead = (pub_unknownRead dst \<or> pub_unknownRead src),
      pub_unknownWrite = (pub_unknownWrite dst \<or> pub_unknownWrite src)\<rparr>"
    and c: "c \<longleftrightarrow> c1 \<or> c2 \<or> c3 \<or> (pub_unknownRead src \<and> \<not> pub_unknownRead dst) \<or>
      (pub_unknownWrite src \<and> \<not> pub_unknownWrite dst)"
    using assms(1) p by (auto simp: mergePublicParamEffect_def Let_def)
  have "r \<noteq> dst \<longleftrightarrow> c"
    unfolding r c using s assms(2) by (cases dst) (auto simp: eff_wf_def)
  moreover have "eff_den r = eff_den dst \<longrightarrow> r = dst"
  proof -
    have "rd = pub_reads dst" if "bytes rd = bytes (pub_reads dst)"
      using range.canonical [OF _ _ that] s(1) assms(2) by (simp add: eff_wf_def)
    moreover have "wr = pub_writes dst" if "bytes wr = bytes (pub_writes dst)"
      using range.canonical [OF _ _ that] s(2) assms(2) by (simp add: eff_wf_def)
    moreover have "sl = pub_slots dst" if "set sl = set (pub_slots dst)"
      using s(3) that by simp
    ultimately show ?thesis unfolding r by (cases dst) (simp add: eff_den_def)
  qed
  moreover have "eff_wf r" "eff_den r = den_join (eff_den dst) (eff_den src)"
    unfolding r using s assms(2) by (auto simp: eff_wf_def eff_den_def den_join_def)
  ultimately show ?thesis by simp
qed

subsection \<open>Functions\<close>

definition trimmed :: "public_function \<Rightarrow> bool" where
  "trimmed f \<longleftrightarrow> f = [] \<or> last f \<noteq> emptyPublic"

lemma trim_rev: "trimTrailingEmptyPublicParamEffects f = rev (dropWhile isEmptyPublicParamEffect (rev f))"
proof -
  have "rev (dropWhile P (rev f)) = take (length (dropWhile P (rev f))) f" for P
  proof -
    have "f = rev (dropWhile P (rev f)) @ rev (takeWhile P (rev f))"
      by (simp flip: rev_append)
    then show ?thesis by (metis append_eq_conv_conj length_rev)
  qed
  then show ?thesis
    by (simp add: trimTrailingEmptyPublicParamEffects_def effectivePublicParamEffectCount_def)
qed

lemma trim_snoc [simp]:
  "trimTrailingEmptyPublicParamEffects (f @ [e]) =
     (if e = emptyPublic then trimTrailingEmptyPublicParamEffects f else f @ [e])"
  by (simp add: trim_rev empty_iff)

lemma trim_Nil [simp]: "trimTrailingEmptyPublicParamEffects [] = []"
  by (simp add: trim_rev)

lemma trim_trimmed: "trimmed f \<Longrightarrow> trimTrailingEmptyPublicParamEffects f = f"
  by (cases f rule: rev_cases) (auto simp: trimmed_def)

lemma trimmed_trim [simp]: "trimmed (trimTrailingEmptyPublicParamEffects f)"
  by (induction f rule: rev_induct) (auto simp: trimmed_def)

lemma eff_at_snoc_empty [simp]: "eff_at (f @ [emptyPublic]) i = eff_at f i"
  by (auto simp: eff_at_def nth_append less_Suc_eq)

lemma eff_at_trim [simp]: "eff_at (trimTrailingEmptyPublicParamEffects f) i = eff_at f i"
  by (induction f rule: rev_induct) auto

lemma fn_wf_trim: "fn_wf f \<Longrightarrow> fn_wf (trimTrailingEmptyPublicParamEffects f)"
  by (induction f rule: rev_induct) (auto simp: fn_wf_def)

lemma fn_den_trim [simp]: "fn_den (trimTrailingEmptyPublicParamEffects f) = fn_den f"
  by (simp add: fn_den_def fun_eq_iff)

lemma effective_length: "effectivePublicParamEffectCount f = length (trimTrailingEmptyPublicParamEffects f)"
  by (simp add: trim_rev effectivePublicParamEffectCount_def)

lemma effective_le: "effectivePublicParamEffectCount f \<le> length f"
  by (simp add: effective_length trim_rev) (metis length_dropWhile_le length_rev)

lemma trim_length_eq: "length (trimTrailingEmptyPublicParamEffects f) = length f \<longleftrightarrow>
    trimTrailingEmptyPublicParamEffects f = f"
  using effective_le [of f] by (auto simp: trimTrailingEmptyPublicParamEffects_def)

lemma eff_wf_at: "fn_wf f \<Longrightarrow> eff_wf (eff_at f i)"
  by (auto simp: fn_wf_def eff_at_def list_all_length)

lemma join_empty: "den_join a b = eff_den emptyPublic \<longleftrightarrow> a = eff_den emptyPublic \<and> b = eff_den emptyPublic"
  by (cases a; cases b) (auto simp: den_join_def eff_den_def emptyPublic_def)

lemma mergePublicFunctionSummary_spec:
  assumes "mergePublicFunctionSummary dst src = (c, r)" and "fn_wf dst" and "fn_wf src"
  shows "fn_wf r \<and> trimmed r \<and> (\<forall>i. fn_den r i = den_join (fn_den dst i) (fn_den src i)) \<and>
         (c \<longleftrightarrow> r \<noteq> dst) \<and> (\<forall>i. fn_den r i = fn_den dst i \<longrightarrow> eff_at r i = eff_at dst i)"
proof -
  define n where "n = effectivePublicParamEffectCount src"
  define grown where "grown \<longleftrightarrow> length dst < n"
  define dst1 where "dst1 = (if grown then dst @ replicate (n - length dst) emptyPublic else dst)"
  define merged where "merged = map2 mergePublicParamEffect (take n dst1) (take n src)"
  define dst2 where "dst2 = map snd merged @ drop n dst1"
  have r: "r = trimTrailingEmptyPublicParamEffects dst2"
    and c: "c \<longleftrightarrow> grown \<or> list_ex fst merged \<or> length r \<noteq> length dst2"
    using assms(1) unfolding mergePublicFunctionSummary_def Let_def n_def grown_def dst1_def
        merged_def dst2_def by auto
  have len: "n \<le> length src" "n \<le> length dst1" "length merged = n" "length dst2 = length dst1"
    using effective_le [of src] by (auto simp: n_def dst1_def grown_def merged_def dst2_def)
  have at1: "eff_at dst1 i = eff_at dst i" for i
    by (auto simp: dst1_def eff_at_def nth_append)
  have nth1: "dst1 ! i = eff_at dst i" if "i < length dst1" for i
    using at1 [of i] that by (simp add: eff_at_def)
  have src_at: "eff_at src i = (if i < n then src ! i else emptyPublic)" for i
    using eff_at_trim [of src i] len(1)
    by (simp add: eff_at_def effective_length [of src, folded n_def, symmetric]
        trimTrailingEmptyPublicParamEffects_def n_def [symmetric] split: if_splits)
  have mi: "merged ! i = mergePublicParamEffect (eff_at dst i) (src ! i)" if "i < n" for i
    using that len nth1 by (simp add: merged_def)
  have spec: "eff_wf (snd (merged ! i)) \<and>
      eff_den (snd (merged ! i)) = den_join (fn_den dst i) (fn_den src i) \<and>
      (fst (merged ! i) \<longleftrightarrow> snd (merged ! i) \<noteq> eff_at dst i) \<and>
      (eff_den (snd (merged ! i)) = fn_den dst i \<longrightarrow> snd (merged ! i) = eff_at dst i)" if "i < n" for i
    using mergePublicParamEffect_spec [of "eff_at dst i" "src ! i"] that mi [OF that]
      eff_wf_at [OF assms(2), of i] src_at [of i]
    by (cases "mergePublicParamEffect (eff_at dst i) (src ! i)") (auto simp: fn_den_def)
  have at2: "eff_at dst2 i = (if i < n then snd (merged ! i) else eff_at dst i)" for i
    using len at1 [of i] by (auto simp: eff_at_def dst2_def nth_append)
  have den: "fn_den r i = den_join (fn_den dst i) (fn_den src i)" for i
    unfolding r using spec [of i] src_at [of i] by (simp add: fn_den_def at2)
  have "eff_wf (dst2 ! i)" if "i < length dst2" for i
  proof -
    have "dst2 ! i = eff_at dst2 i" using that by (simp add: eff_at_def)
    then show ?thesis using spec [of i] eff_wf_at [OF assms(2), of i] by (simp add: at2)
  qed
  then have wf: "fn_wf r" unfolding r by (intro fn_wf_trim) (simp add: fn_wf_def list_all_length)
  have "c \<longleftrightarrow> r \<noteq> dst"
  proof (cases grown)
    case True
    then have n: "0 < n" "length dst2 = n" using len by (auto simp: dst1_def grown_def)
    have "trimmed (trimTrailingEmptyPublicParamEffects src)" by simp
    then have "src ! (n - 1) \<noteq> emptyPublic"
      using n len(1) unfolding trimmed_def trimTrailingEmptyPublicParamEffects_def n_def [symmetric]
      by (subst (asm) last_conv_nth) auto
    moreover have "eff_wf (src ! (n - 1))" using eff_wf_at [OF assms(3), of "n - 1"] src_at [of "n - 1"] n by simp
    ultimately have "eff_den (src ! (n - 1)) \<noteq> eff_den emptyPublic" by (simp add: empty_iff_den)
    then have "fn_den src (n - 1) \<noteq> eff_den emptyPublic" using src_at n by (simp add: fn_den_def)
    moreover have "fn_den src (n - 1) = eff_den emptyPublic" if "dst2 ! (n - 1) = emptyPublic"
    proof -
      have "snd (merged ! (n - 1)) = emptyPublic"
        using at2 [of "n - 1"] n that by (simp add: eff_at_def)
      with spec [of "n - 1"] n have "den_join (fn_den dst (n - 1)) (fn_den src (n - 1)) = eff_den emptyPublic"
        by simp
      then show ?thesis by (simp add: join_empty)
    qed
    ultimately have "dst2 ! (n - 1) \<noteq> emptyPublic" by blast
    then have "trimmed dst2" using n unfolding trimmed_def by (subst last_conv_nth) auto
    then have "length r = n" using n by (simp add: r trim_trimmed)
    with True c show ?thesis by (auto simp: grown_def)
  next
    case False
    show ?thesis
    proof (cases "length r = length dst2")
      case True
      then have r2: "r = dst2" unfolding r by (simp add: trim_length_eq)
      have "list_ex fst merged \<longleftrightarrow> dst2 \<noteq> dst"
      proof -
        have l: "length dst2 = length dst" using False len by (simp add: dst1_def)
        have "dst2 \<noteq> dst \<longleftrightarrow> (\<exists>i < length dst. dst2 ! i \<noteq> dst ! i)"
          using l by (auto simp: list_eq_iff_nth_eq)
        also have "\<dots> \<longleftrightarrow> (\<exists>i < n. snd (merged ! i) \<noteq> eff_at dst i)"
        proof -
          have "dst2 ! i \<noteq> dst ! i \<longleftrightarrow> i < n \<and> snd (merged ! i) \<noteq> eff_at dst i" if "i < length dst" for i
            using at2 [of i] that l by (auto simp: eff_at_def)
          moreover have "n \<le> length dst" using False by (simp add: grown_def)
          ultimately show ?thesis by (metis order.strict_trans2)
        qed
        also have "\<dots> \<longleftrightarrow> list_ex fst merged"
          using spec len(3) by (auto simp: list_ex_length)
        finally show ?thesis by simp
      qed
      with False True c r2 show ?thesis by simp
    qed (use False len c in \<open>auto simp: dst1_def\<close>)
  qed
  moreover have "eff_at r i = eff_at dst i" if "fn_den r i = fn_den dst i" for i
  proof (cases "i < n")
    case True
    have "eff_den (snd (merged ! i)) = fn_den dst i"
      using that True unfolding r fn_den_trim fn_den_def at2 by simp
    with spec [OF True] True show ?thesis unfolding r eff_at_trim at2 by simp
  qed (simp add: r at2)
  moreover have "trimmed r" by (simp add: r)
  ultimately show ?thesis using wf den by blast
qed

lemma trimmed_ext:
  assumes "trimmed f" and "trimmed g" and at: "\<And>i. eff_at f i = eff_at g i"
  shows "f = g"
proof -
  have short: "length g \<le> length f" if "trimmed g" "\<And>i. eff_at f i = eff_at g i" for f g
  proof (rule ccontr)
    assume "\<not> length g \<le> length f"
    then have "g \<noteq> []" "length f \<le> length g - 1" by auto
    with that(2) [of "length g - 1"] that(1) show False
      by (simp add: eff_at_def trimmed_def last_conv_nth)
  qed
  have "length f = length g" using short [of g f] short [of f g] assms by (simp add: antisym)
  moreover have "f ! i = g ! i" if "i < length f" "length f = length g" for i
    using at [of i] that by (simp add: eff_at_def)
  ultimately show ?thesis by (simp add: list_eq_iff_nth_eq)
qed

subsection \<open>Indices\<close>

definition idx_den :: "summary_index \<Rightarrow> string \<Rightarrow> nat \<Rightarrow> effect_den" where
  "idx_den d name i = (case map_of d name of None \<Rightarrow> eff_den emptyPublic | Some f \<Rightarrow> fn_den f i)"

definition idx_wf :: "summary_index \<Rightarrow> bool" where
  "idx_wf d \<longleftrightarrow> distinct (map fst d) \<and> (\<forall>(k, f) \<in> set d. fn_wf f \<and> trimmed f)"

lemma map_of_update [simp]: "map_of (updateEntry k v d) = (map_of d)(k \<mapsto> v)"
  by (induction d) (auto simp: fun_eq_iff)

lemma keys_update: "fst ` set (updateEntry k v d) = insert k (fst ` set d)"
proof (induction d)
  case (Cons e d)
  show ?case by (cases e) (simp add: Cons.IH insert_commute)
qed simp

lemma update_wf: "idx_wf d \<Longrightarrow> fn_wf v \<Longrightarrow> trimmed v \<Longrightarrow> idx_wf (updateEntry k v d)"
proof -
  have "distinct (map fst d) \<Longrightarrow> distinct (map fst (updateEntry k v d))"
  proof (induction d)
    case (Cons e d)
    then show ?case by (cases e) (simp add: keys_update)
  qed simp
  moreover have "set (updateEntry k v d) \<subseteq> insert (k, v) (set d)"
    by (induction d rule: updateEntry.induct [where ?a0.0 = k and ?a1.0 = v]) auto
  ultimately show "idx_wf d \<Longrightarrow> fn_wf v \<Longrightarrow> trimmed v \<Longrightarrow> idx_wf (updateEntry k v d)"
    by (force simp: idx_wf_def)
qed

lemma update_same: "map_of d k = Some v \<Longrightarrow> updateEntry k v d = d"
  by (induction d) (auto split: if_splits)

lemma idx_den_update: "idx_den (updateEntry k v d) name i = (if name = k then fn_den v i else idx_den d name i)"
  by (simp add: idx_den_def)

lemma fn_den_not_bottom: "fn_wf f \<Longrightarrow> effectivePublicParamEffectCount f \<noteq> 0 \<Longrightarrow> \<exists>i. fn_den f i \<noteq> eff_den emptyPublic"
proof -
  let ?g = "trimTrailingEmptyPublicParamEffects f"
  assume "fn_wf f" and "effectivePublicParamEffectCount f \<noteq> 0"
  then have "?g \<noteq> []" "fn_wf ?g" by (simp_all add: effective_length fn_wf_trim)
  moreover have "trimmed ?g" by simp
  ultimately have "?g ! (length ?g - 1) \<noteq> emptyPublic" "eff_wf (?g ! (length ?g - 1))"
    by (auto simp: trimmed_def last_conv_nth fn_wf_def list_all_length)
  then have "fn_den ?g (length ?g - 1) \<noteq> eff_den emptyPublic"
    using \<open>?g \<noteq> []\<close> by (simp only: fn_den_def eff_at_def) (simp add: empty_iff_den)
  then show ?thesis by (metis fn_den_trim)
qed

lemma den_join_le: "den_join (den_join a b) c = a \<Longrightarrow> den_join a b = a"
  by (metis den_join_ac(1) den_join_ac(2) den_join_ac(3))

lemma fn_den_zero: "effectivePublicParamEffectCount f = 0 \<Longrightarrow> fn_den f i = eff_den emptyPublic"
  using fn_den_trim [of f] by (simp add: effective_length) (metis eff_at_def fn_den_def list.size(3) not_less_zero)

lemma mergeUninitializedSummaryIndex_spec:
  assumes "mergeUninitializedSummaryIndex dst src = (c, r)" and "idx_wf dst"
    and "distinct (map fst src)" and "\<forall>(k, f) \<in> set src. fn_wf f"
  shows "idx_wf r \<and> (\<forall>name i. idx_den r name i = den_join (idx_den dst name i) (idx_den src name i)) \<and>
         (c \<longleftrightarrow> r \<noteq> dst)"
  using assms
proof (induction dst src arbitrary: c r rule: mergeUninitializedSummaryIndex.induct)
  case (1 dst)
  then show ?case by (simp add: idx_den_def)
next
  case (2 dst name fn entries)
  have fresh: "map_of entries name = None" and ds: "distinct (map fst entries)" "\<forall>(k, f) \<in> set entries. fn_wf f"
    and fw: "fn_wf fn"
    using 2(6,7) by (auto simp: map_of_eq_None_iff)
  have src: "idx_den ((name, fn) # entries) k i = (if k = name then fn_den fn i else idx_den entries k i)" for k i
    by (simp add: idx_den_def)
  have bot: "idx_den entries name i = eff_den emptyPublic" for i using fresh by (simp add: idx_den_def)
  show ?case
  proof (cases "effectivePublicParamEffectCount fn = 0")
    case True
    with 2(1) [OF True _ 2(5) ds] 2(4) show ?thesis
      by (auto simp: src fn_den_zero bot)
  next
    case nz: False
    show ?thesis
    proof (cases "map_of dst name")
      case None
      let ?d = "updateEntry name (trimTrailingEmptyPublicParamEffects fn) dst"
      obtain c1 where rest: "mergeUninitializedSummaryIndex ?d entries = (c1, r)" and "c"
        using 2(4) nz None by (auto split: prod.splits)
      have "idx_wf ?d" using 2(5) fw by (simp add: update_wf fn_wf_trim)
      from 2(2) [OF nz None rest this ds]
      have ih: "idx_wf r" "\<And>k i. idx_den r k i = den_join (idx_den ?d k i) (idx_den entries k i)" by auto
      obtain i where "fn_den fn i \<noteq> eff_den emptyPublic" using fn_den_not_bottom [OF fw nz] by blast
      then have "idx_den r name i \<noteq> idx_den dst name i"
        using None by (simp add: ih idx_den_update bot) (simp add: idx_den_def)
      then have "r \<noteq> dst" by blast
      moreover have "idx_den r k i = den_join (idx_den dst k i) (idx_den ((name, fn) # entries) k i)" for k i
        using None by (cases "k = name") (simp_all add: ih src idx_den_update bot, simp add: idx_den_def)
      ultimately show ?thesis using \<open>c\<close> ih(1) by blast
    next
      case (Some old)
      obtain c1 new where m: "mergePublicFunctionSummary old fn = (c1, new)" by fastforce
      let ?d = "updateEntry name new dst"
      obtain c2 where rest: "mergeUninitializedSummaryIndex ?d entries = (c2, r)" and c: "c \<longleftrightarrow> c1 \<or> c2"
        using 2(4) nz Some m by (auto split: prod.splits)
      have old: "fn_wf old" "trimmed old" using 2(5) Some by (auto simp: idx_wf_def dest!: map_of_SomeD)
      note sp = mergePublicFunctionSummary_spec [OF m old(1) fw]
      have "idx_wf ?d" using 2(5) sp by (simp add: update_wf)
      from 2(3) [OF nz Some m [symmetric] rest this ds]
      have ih: "idx_wf r" "\<And>k i. idx_den r k i = den_join (idx_den ?d k i) (idx_den entries k i)" "c2 \<longleftrightarrow> r \<noteq> ?d" by auto
      have od: "idx_den dst name i = fn_den old i" for i using Some by (simp add: idx_den_def)
      have "new = old" if "r = dst"
      proof (rule trimmed_ext)
        show "eff_at new i = eff_at old i" for i
          using sp ih(2) [of name i] that od [of i] by (simp add: idx_den_update bot)
      qed (use sp old in simp_all)
      then have "c \<longleftrightarrow> r \<noteq> dst" using c sp ih(3) update_same [OF Some] by auto
      with ih sp od show ?thesis by (auto simp: src idx_den_update bot)
    qed
  qed
qed

section \<open>Round trip and comparison\<close>

lemma addRanges_wf_bytes:
  "wf_ranges dst \<Longrightarrow> wf_ranges (addRanges dst src) \<and> bytes (addRanges dst src) = bytes dst \<union> bytes src"
  unfolding addRanges_def by (rule range.fold_add)

lemma addRanges_Nil: "wf_ranges rs \<Longrightarrow> addRanges [] rs = rs"
  using addRanges_wf_bytes [of "[]" rs] by (auto intro: range.canonical)

lemma addSlots_distinct: "distinct (dst @ src) \<Longrightarrow> addSlots dst src = dst @ src"
  by (induction src arbitrary: dst) (auto simp: addSlots_def addPointerSlotWriteEffect_def)

definition internal_wf :: "param_effect \<Rightarrow> bool" where
  "internal_wf e \<longleftrightarrow> wf_ranges (pe_reads e) \<and> wf_ranges (pe_writes e) \<and> distinct (pe_slots e)"

lemma import_export: "internal_wf e \<Longrightarrow> importEffect (exportEffect e) = e"
  using addSlots_distinct [of "[]" "pe_slots e"]
  by (cases e) (simp add: importEffect_def exportEffect_def internal_wf_def addRanges_Nil)

lemma export_empty: "isEmptyPublicParamEffect (exportEffect e) = isEmptyParamEffect e"
  by (auto simp: isEmptyPublicParamEffect_def exportEffect_def isEmptyParamEffect_def hasAnyEffect_def)

lemma export_trim: "exportPublicFunctionSummary s = map exportEffect (trimTrailingEmptyParamEffects s)"
  by (simp add: exportPublicFunctionSummary_def trimTrailingEmptyParamEffects_def rev_map
      dropWhile_map comp_def export_empty)

lemma trimEffects_idem:
  "trimTrailingEmptyParamEffects (trimTrailingEmptyParamEffects s) = trimTrailingEmptyParamEffects s"
  by (cases "dropWhile isEmptyParamEffect (rev s)")
     (auto simp: trimTrailingEmptyParamEffects_def dest: dropWhile_hd)

lemma trimEffects_subset: "set (trimTrailingEmptyParamEffects s) \<subseteq> set s"
  by (auto simp: trimTrailingEmptyParamEffects_def dest: set_dropWhileD)

lemma import_export_summary:
  assumes "list_all internal_wf s"
  shows "importPublicFunctionSummary (exportPublicFunctionSummary s) = trimTrailingEmptyParamEffects s"
proof -
  have "map (importEffect \<circ> exportEffect) (trimTrailingEmptyParamEffects s) = trimTrailingEmptyParamEffects s"
    using assms trimEffects_subset [of s] by (intro map_idI) (auto simp: list_all_iff import_export)
  then show ?thesis
    by (simp add: importPublicFunctionSummary_def export_trim trimEffects_idem)
qed

lemma publicEquals_iff:
  "publicFunctionSummaryEquals f g \<longleftrightarrow>
     trimTrailingEmptyPublicParamEffects f = trimTrailingEmptyPublicParamEffects g"
proof -
  have "list_all2 (=) xs ys \<longleftrightarrow> xs = ys" for xs ys :: public_function
    by (simp add: list.rel_eq)
  moreover have "effectivePublicParamEffectCount f = effectivePublicParamEffectCount g"
    if "trimTrailingEmptyPublicParamEffects f = trimTrailingEmptyPublicParamEffects g"
    using that by (simp add: effective_length)
  ultimately show ?thesis
    by (auto simp: publicFunctionSummaryEquals_def trimTrailingEmptyPublicParamEffects_def)
qed

lemma changed_names_iff:
  assumes "distinct (map fst nxt)"
  shows "name \<in> computeChangedUninitializedFunctionNames prev nxt \<longleftrightarrow>
         map_option trimTrailingEmptyPublicParamEffects (map_of prev name) \<noteq>
         map_option trimTrailingEmptyPublicParamEffects (map_of nxt name)"
proof -
  have "name \<in> set (map fst (filter (\<lambda>(name, fn). case map_of prev name of
          None \<Rightarrow> True | Some fn' \<Rightarrow> \<not> publicFunctionSummaryEquals fn fn') nxt)) \<longleftrightarrow>
      (\<exists>fn. map_of nxt name = Some fn \<and> (case map_of prev name of
          None \<Rightarrow> True | Some fn' \<Rightarrow> \<not> publicFunctionSummaryEquals fn fn'))"
    using assms by (force simp: image_iff)
  moreover have "name \<in> set (map fst (filter (\<lambda>(name, _). map_of nxt name = None) prev)) \<longleftrightarrow>
      map_of nxt name = None \<and> map_of prev name \<noteq> None"
    by (force simp: map_of_eq_None_iff)
  ultimately show ?thesis
    unfolding computeChangedUninitializedFunctionNames_def
    by (auto simp: publicEquals_iff split: option.splits)
qed

lemma index_equals_iff:
  assumes "distinct (map fst lhs)" and "distinct (map fst rhs)"
  shows "uninitializedSummaryIndexEquals lhs rhs \<longleftrightarrow>
         (\<forall>name. map_option trimTrailingEmptyPublicParamEffects (map_of lhs name) =
                 map_option trimTrailingEmptyPublicParamEffects (map_of rhs name))"
proof -
  let ?t = "map_option trimTrailingEmptyPublicParamEffects"
  have all: "list_all (\<lambda>(name, fn). case map_of rhs name of
        None \<Rightarrow> False | Some fn' \<Rightarrow> publicFunctionSummaryEquals fn fn') lhs \<longleftrightarrow>
      (\<forall>name \<in> dom (map_of lhs). ?t (map_of lhs name) = ?t (map_of rhs name))"
  proof -
    have "(case map_of rhs name of None \<Rightarrow> False | Some fn' \<Rightarrow> publicFunctionSummaryEquals fn fn') \<longleftrightarrow>
        ?t (map_of lhs name) = ?t (map_of rhs name)" if "(name, fn) \<in> set lhs" for name fn
      using map_of_is_SomeI [OF assms(1) that] by (cases "map_of rhs name") (simp_all add: publicEquals_iff)
    then have "list_all (\<lambda>(name, fn). case map_of rhs name of
        None \<Rightarrow> False | Some fn' \<Rightarrow> publicFunctionSummaryEquals fn fn') lhs \<longleftrightarrow>
      (\<forall>(name, fn) \<in> set lhs. ?t (map_of lhs name) = ?t (map_of rhs name))"
      unfolding list_all_iff by (intro ball_cong) auto
    then show ?thesis by (simp add: dom_map_of_conv_image_fst split_beta)
  qed
  have card: "card (dom (map_of lhs)) = length lhs" "card (dom (map_of rhs)) = length rhs"
    using assms by (simp_all add: dom_map_of_conv_image_fst distinct_card flip: set_map)
  have fin: "finite (dom (map_of rhs))" by (rule finite_dom_map_of)
  show ?thesis
  proof
    assume eq: "uninitializedSummaryIndexEquals lhs rhs"
    then have a: "\<forall>name \<in> dom (map_of lhs). ?t (map_of lhs name) = ?t (map_of rhs name)"
      and "card (dom (map_of lhs)) = card (dom (map_of rhs))"
      using all card by (simp_all add: uninitializedSummaryIndexEquals_def)
    moreover from a have "dom (map_of lhs) \<subseteq> dom (map_of rhs)"
      by (metis (no_types, lifting) domIff map_option_is_None subsetI)
    ultimately have "dom (map_of lhs) = dom (map_of rhs)" using fin by (simp add: card_subset_eq)
    with a show "\<forall>name. ?t (map_of lhs name) = ?t (map_of rhs name)"
      by (metis domIff)
  next
    assume a: "\<forall>name. ?t (map_of lhs name) = ?t (map_of rhs name)"
    have "dom (map_of lhs) = dom (map_of rhs)"
      using a by (metis (no_types, lifting) domIff map_option_is_None subsetI subset_antisym)
    with card have "length lhs = length rhs" by simp
    with a all show "uninitializedSummaryIndexEquals lhs rhs"
      by (simp add: uninitializedSummaryIndexEquals_def)
  qed
qed

section \<open>Stability of the dirty-set loop\<close>

definition local_analysis :: "('f \<Rightarrow> ('f \<rightharpoonup> 's) \<Rightarrow> 's) \<Rightarrow> ('f \<Rightarrow> 'f list) \<Rightarrow> 'f set \<Rightarrow> bool" where
  "local_analysis analyze callers F \<longleftrightarrow>
     (\<forall>f \<in> F. \<forall>g \<in> F. \<forall>S v. f \<notin> set (callers g) \<longrightarrow> analyze f (S(g \<mapsto> v)) = analyze f S)"

definition sweep_inv ::
    "('f \<Rightarrow> ('f \<rightharpoonup> 's) \<Rightarrow> 's) \<Rightarrow> 'f set \<Rightarrow> 'f set \<Rightarrow> 'f set \<Rightarrow> ('f, 's) summary_state \<Rightarrow> bool" where
  "sweep_inv analyze F dirty todo st \<longleftrightarrow>
     (\<forall>f \<in> F. f \<in> ss_nextDirty st \<or> f \<in> dirty \<inter> todo \<or> ss_map st f = Some (analyze f (ss_map st))) \<and>
     (\<not> ss_changed st \<longrightarrow> ss_nextDirty st = {})"

lemma analyzeDirty_inv:
  assumes "local_analysis analyze callers F" and "f \<in> F" and "sweep_inv analyze F dirty (insert f todo) st"
  shows "sweep_inv analyze F dirty todo (analyzeDirty analyze callers dirty f st)"
  using assms unfolding sweep_inv_def local_analysis_def analyzeDirty_def
  by (auto simp: Let_def)

lemma summarySweep_inv:
  assumes "local_analysis analyze callers F"
  shows "set fs \<subseteq> F \<Longrightarrow> sweep_inv analyze F dirty (set fs) st \<Longrightarrow>
         sweep_inv analyze F dirty {} (fold (analyzeDirty analyze callers dirty) fs st)"
  by (induction fs arbitrary: st) (auto simp: analyzeDirty_inv [OF assms])

lemma summaryLoop_stable:
  assumes "local_analysis analyze callers (set fs)"
    and "\<forall>f \<in> set fs. f \<in> dirty \<or> S f = Some (analyze f S)"
    and "summaryLoop n analyze callers fs dirty S = (False, S')"
  shows "\<forall>f \<in> set fs. S' f = Some (analyze f S')"
  using assms(2,3)
proof (induction n arbitrary: dirty S)
  case (Suc n)
  let ?st = "summarySweep analyze callers fs dirty S"
  have "sweep_inv analyze (set fs) dirty {} ?st"
    unfolding summarySweep_def using Suc.prems(1)
    by (intro summarySweep_inv [OF assms(1)]) (auto simp: sweep_inv_def)
  then have inv: "\<forall>f \<in> set fs. f \<in> ss_nextDirty ?st \<or> ss_map ?st f = Some (analyze f (ss_map ?st))"
    and none: "\<not> ss_changed ?st \<longrightarrow> ss_nextDirty ?st = {}" by (auto simp: sweep_inv_def)
  show ?case
  proof (cases "ss_changed ?st")
    case True
    with Suc.IH [OF inv] Suc.prems(2) show ?thesis by (simp add: Let_def)
  next
    case False
    with none inv Suc.prems(2) show ?thesis by (simp add: Let_def)
  qed
qed simp

lemma callerOf_iff: "f \<in> set (callerOf M fs g) \<longleftrightarrow> f \<in> set fs \<and> g \<in> set fs \<and> g \<in> set (um_calls M f)"
  by (auto simp: callerOf_def)

lemma callee_local:
  assumes "\<And>f S S'. \<forall>g \<in> set (um_calls M f). S g = S' g \<Longrightarrow> analyze f S = analyze f S'"
  shows "local_analysis analyze (callerOf M fs) (set fs)"
  unfolding local_analysis_def using assms by (auto simp: callerOf_iff)

section \<open>Scope and export of a module\<close>

lemma collectSummaryScope_reaches:
  assumes "distinct (um_functions M)"
    and "\<And>f. f \<in> set (um_functions M) \<Longrightarrow> set (um_calls M f) \<subseteq> set (um_functions M)"
  shows "collectSummaryScope M shouldAnalyze include =
           Some ((edges (scopeCallees M include))\<^sup>* `` set (analysisFunctions M shouldAnalyze))"
proof -
  let ?roots = "rev (analysisFunctions M shouldAnalyze)"
  have "explore (length (um_functions M)) (scopeCallees M include) ?roots (set ?roots) =
      Some ((edges (scopeCallees M include))\<^sup>* `` set ?roots)"
    using assms
    by (intro explore_from [where U = "set (um_functions M)"])
       (auto simp: analysisFunctions_def scopeCallees_def intro: card_length)
  then show ?thesis by (simp add: collectSummaryScope_def Let_def)
qed

lemma export_summary_wf:
  assumes "list_all internal_wf s"
  shows "fn_wf (exportPublicFunctionSummary s) \<and> trimmed (exportPublicFunctionSummary s)"
proof -
  have "exportPublicFunctionSummary s = trimTrailingEmptyPublicParamEffects (map exportEffect s)"
    by (simp add: exportPublicFunctionSummary_def trim_rev)
  moreover have "fn_wf (map exportEffect s)"
    using assms by (auto simp: fn_wf_def list_all_iff internal_wf_def eff_wf_def exportEffect_def)
  ultimately show ?thesis by (simp add: fn_wf_trim)
qed

lemma export_index_wf:
  assumes "\<And>f s. summaries f = Some s \<Longrightarrow> list_all internal_wf s"
  shows "idx_wf (exportSummaryIndexForModule canon M summaries)"
proof -
  have "idx_wf (updateEntry k (exportPublicFunctionSummary (trimTrailingEmptyParamEffects s)) out)"
    if "idx_wf out" "summaries f = Some s" for k out f s
  proof (intro update_wf [OF that(1)])
    have "list_all internal_wf (trimTrailingEmptyParamEffects s)"
      using assms [OF that(2)] trimEffects_subset [of s] by (auto simp: list_all_iff)
    from export_summary_wf [OF this]
    show "fn_wf (exportPublicFunctionSummary (trimTrailingEmptyParamEffects s))"
      and "trimmed (exportPublicFunctionSummary (trimTrailingEmptyParamEffects s))" by auto
  qed
  then have fold: "idx_wf out \<Longrightarrow> idx_wf (fold (\<lambda>f out.
      if \<not> shouldExportFunctionSummary M f then out
      else case summaries f of None \<Rightarrow> out
           | Some s \<Rightarrow> let normalized = trimTrailingEmptyParamEffects s
                      in if normalized = [] then out
                         else updateEntry (canon (um_name M f)) (exportPublicFunctionSummary normalized) out)
      fs out)" for fs out
    by (induction fs arbitrary: out) (auto simp: Let_def split: option.splits)
  have "idx_wf []" by (simp add: idx_wf_def)
  then show ?thesis unfolding exportSummaryIndexForModule_def by (rule fold)
qed

section \<open>Properties\<close>

text \<open>
  C4: Merging a summary index into another joins, for every function and parameter, the
  bytes read and written, the slots and the flags, keeps the index well formed, and
  reports a change exactly when the destination is different afterwards, which is what
  the loop over translation units stops on.
\<close>

theorem index_merge_is_join:
  assumes "mergeUninitializedSummaryIndex dst src = (c, r)" and "idx_wf dst"
    and "distinct (map fst src)" and "\<forall>(k, f) \<in> set src. fn_wf f"
  shows "idx_wf r \<and> (\<forall>name i. idx_den r name i = den_join (idx_den dst name i) (idx_den src name i)) \<and>
         (c \<longleftrightarrow> r \<noteq> dst)"
  using assms by (rule mergeUninitializedSummaryIndex_spec)

theorem index_merge_is_join_witness:
  "snd (mergeUninitializedSummaryIndex
          [(''f'', [emptyPublic\<lparr>pub_reads := [\<lparr>br_begin = 0, br_end = 4\<rparr>]\<rparr>])]
          [(''f'', [emptyPublic\<lparr>pub_reads := [\<lparr>br_begin = 4, br_end = 8\<rparr>]\<rparr>])])
     \<noteq> [(''f'', [emptyPublic\<lparr>pub_reads := [\<lparr>br_begin = 0, br_end = 4\<rparr>]\<rparr>])]"
proof -
  let ?d = "[(''f'', [emptyPublic\<lparr>pub_reads := [\<lparr>br_begin = 0, br_end = 4\<rparr>]\<rparr>])]"
  let ?s = "[(''f'', [emptyPublic\<lparr>pub_reads := [\<lparr>br_begin = 4, br_end = 8\<rparr>]\<rparr>])]"
  have m: "mergeUninitializedSummaryIndex ?d ?s =
      (True, [(''f'', [emptyPublic\<lparr>pub_reads := [\<lparr>br_begin = 0, br_end = 8\<rparr>]\<rparr>])])"
    by code_simp
  have wf: "idx_wf ?d" "\<forall>(k, f) \<in> set ?s. fn_wf f" "distinct (map fst ?s)"
    by (simp_all add: idx_wf_def fn_wf_def trimmed_def eff_wf_def emptyPublic_def wf_ranges_Cons)
  from index_merge_is_join [OF m wf(1,3,2)] show ?thesis unfolding m by simp
qed

text \<open>
  C13: Exporting a function summary and importing it again gives the summary back, less the
  trailing parameters without effect.
\<close>

theorem summary_export_import_roundtrip:
  assumes "list_all internal_wf s"
  shows "importPublicFunctionSummary (exportPublicFunctionSummary s) = trimTrailingEmptyParamEffects s"
  using assms by (rule import_export_summary)

theorem summary_export_import_roundtrip_witness:
  "importPublicFunctionSummary (exportPublicFunctionSummary
      [emptyEffect\<lparr>pe_writes := [\<lparr>br_begin = 0, br_end = 8\<rparr>]\<rparr>, emptyEffect]) =
   [emptyEffect\<lparr>pe_writes := [\<lparr>br_begin = 0, br_end = 8\<rparr>]\<rparr>]"
  using summary_export_import_roundtrip [of "[emptyEffect\<lparr>pe_writes := [\<lparr>br_begin = 0, br_end = 8\<rparr>]\<rparr>, emptyEffect]"]
  by (simp add: internal_wf_def emptyEffect_def wf_ranges_Cons trimTrailingEmptyParamEffects_def
      isEmptyParamEffect_def hasAnyEffect_def)

text \<open>
  The names that have to be analysed again are exactly those whose summary is new, gone
  or different up to trailing empty parameters, and there is none exactly when the index
  comparison says that the two indices are equal.
\<close>

theorem changed_names_exact:
  assumes "distinct (map fst prev)" and "distinct (map fst nxt)"
  shows "(name \<in> computeChangedUninitializedFunctionNames prev nxt \<longleftrightarrow>
            map_option trimTrailingEmptyPublicParamEffects (map_of prev name) \<noteq>
            map_option trimTrailingEmptyPublicParamEffects (map_of nxt name)) \<and>
         (computeChangedUninitializedFunctionNames prev nxt = {} \<longleftrightarrow>
            uninitializedSummaryIndexEquals prev nxt)"
  using changed_names_iff [OF assms(2), of _ prev] index_equals_iff [OF assms] by auto

theorem changed_names_exact_witness:
  "''g'' \<in> computeChangedUninitializedFunctionNames [(''f'', [])] [(''f'', []), (''g'', [])]"
  using changed_names_exact [of "[(''f'', [])]" "[(''f'', []), (''g'', [])]" "''g''"] by simp

text \<open>
  C8: When the dirty-set loop ends before its guard runs out, the summary of every function
  of the scope is the one its analysis computes from the final summaries, provided the
  analysis of a function looks up only the summaries of the functions it calls directly.
\<close>

theorem summaries_are_a_fixpoint:
  assumes "\<And>f S S'. \<forall>g \<in> set (um_calls M f). S g = S' g \<Longrightarrow> analyze f S = analyze f S'"
    and "computeFunctionSummaries analyze M shouldAnalyze = (False, S)"
    and "f \<in> set (um_functions M)" and "\<not> um_isDeclaration M f" and "shouldAnalyze f"
  shows "S f = Some (analyze f S)"
proof -
  let ?fs = "analysisFunctions M shouldAnalyze"
  have "\<forall>f \<in> set ?fs. S f = Some (analyze f S)"
    using assms(2) by (intro summaryLoop_stable [OF callee_local [of M analyze ?fs], of "set ?fs"] assms(1))
      (simp_all add: computeFunctionSummaries_def Let_def)
  with assms(3-5) show ?thesis by (simp add: analysisFunctions_def)
qed

text \<open>\<open>g\<close> (1) passes its parameter on to \<open>f\<close> (0), which writes eight bytes through it.\<close>

definition chain_analyze :: "nat \<Rightarrow> (nat \<rightharpoonup> function_summary) \<Rightarrow> function_summary" where
  "chain_analyze f S =
     (if f = 0 then [emptyEffect\<lparr>pe_writes := [\<lparr>br_begin = 0, br_end = 8\<rparr>]\<rparr>]
      else if f = 1 then (case S 0 of None \<Rightarrow> [] | Some s \<Rightarrow> s) else [])"

definition chain_module :: "nat uninit_module" where
  "chain_module = \<lparr>um_functions = [1, 0], um_isDeclaration = (\<lambda>_. False), um_argCount = (\<lambda>_. 1),
     um_calls = (\<lambda>f. if f = 1 then [0] else []), um_name = (\<lambda>f. if f = 0 then ''f'' else ''g''),
     um_localLinkage = (\<lambda>_. False)\<rparr>"

theorem summaries_are_a_fixpoint_witness:
  "\<exists>S. computeFunctionSummaries chain_analyze chain_module (\<lambda>_. True) = (False, S)
     \<and> S 1 = Some (chain_analyze 1 S)"
proof -
  have loc: "\<forall>g \<in> set (um_calls chain_module f). S g = S' g \<Longrightarrow> chain_analyze f S = chain_analyze f S'"
    for f S S' by (simp add: chain_module_def chain_analyze_def split: if_splits)
  have "\<not> fst (computeFunctionSummaries chain_analyze chain_module (\<lambda>_. True))"
    by code_simp
  then obtain S where S: "computeFunctionSummaries chain_analyze chain_module (\<lambda>_. True) = (False, S)"
    by (cases "computeFunctionSummaries chain_analyze chain_module (\<lambda>_. True)") simp
  have "(1 :: nat) \<in> set (um_functions chain_module)" "\<not> um_isDeclaration chain_module 1"
    by (simp_all add: chain_module_def)
  from summaries_are_a_fixpoint [OF loc S this TrueI] S show ?thesis by blast
qed

text \<open>
  The summary scope is exactly the set of functions reachable from the analysed ones
  through defined callees that belong to the scope, and the work list never runs out.
\<close>

theorem summary_scope_is_reachability:
  assumes "distinct (um_functions M)"
    and "\<And>f. f \<in> set (um_functions M) \<Longrightarrow> set (um_calls M f) \<subseteq> set (um_functions M)"
  shows "collectSummaryScope M shouldAnalyze include =
           Some ((edges (scopeCallees M include))\<^sup>* `` set (analysisFunctions M shouldAnalyze))"
  using assms by (rule collectSummaryScope_reaches)

theorem summary_scope_is_reachability_witness:
  "collectSummaryScope chain_module (\<lambda>f. f = 1) (\<lambda>_. True) =
     Some ((edges (scopeCallees chain_module (\<lambda>_. True)))\<^sup>* `` {1})"
proof -
  have "distinct (um_functions chain_module)"
    and "\<And>f. f \<in> set (um_functions chain_module) \<Longrightarrow>
      set (um_calls chain_module f) \<subseteq> set (um_functions chain_module)"
    by (auto simp: chain_module_def)
  moreover have "set (analysisFunctions chain_module (\<lambda>f. f = 1)) = {1}"
    by (auto simp: chain_module_def analysisFunctions_def)
  ultimately show ?thesis
    using summary_scope_is_reachability [of chain_module "\<lambda>f. f = 1" "\<lambda>_. True"] by simp
qed

end
