(* ===== verification/IntRange.thy ===== *)
theory IntRange
  imports Prelude
begin

text \<open>
  Interval constraints from integer comparisons: \<open>src/analysis/IntRanges.cpp\<close> and the edge
  constraints of \<open>src/analysis/StackComputation.cpp\<close>. An LLVM constant is its width with
  its bits; \<open>getSExtValue\<close> and \<open>getZExtValue\<close> read them. A bound is a \<open>long long\<close>: 64 bits
  compared as signed numbers; \<open>c - 1\<close> and \<open>c + 1\<close> wrap (in C++ the overflow is undefined,
  and the theorems show where it happens). A \<open>std::map\<close> from values to ranges is a map.
\<close>

section \<open>Data\<close>

datatype Predicate =
    ICMP_EQ | ICMP_NE | ICMP_UGT | ICMP_UGE | ICMP_ULT | ICMP_ULE
  | ICMP_SGT | ICMP_SGE | ICMP_SLT | ICMP_SLE

record IntRange =
  ir_lower :: i64
  ir_upper :: i64
  ir_hasLower :: bool
  ir_hasUpper :: bool

definition emptyIntRange :: IntRange where
  "emptyIntRange = \<lparr>ir_lower = 0, ir_upper = 0, ir_hasLower = False, ir_hasUpper = False\<rparr>"

record ConstantInt =
  ci_width :: nat
  ci_bits :: u64

definition sextBits :: "nat \<Rightarrow> u64 \<Rightarrow> i64" where
  "sextBits w bits = signed_take_bit (w - 1) bits"

definition getSExtValue :: "ConstantInt \<Rightarrow> i64" where
  "getSExtValue c = sextBits (ci_width c) (ci_bits c)"

definition getZExtValue :: "ConstantInt \<Rightarrow> u64" where
  "getZExtValue c = ci_bits c"

datatype 'v operand = ConstOp ConstantInt | ValueOp 'v

record 'v ICmpInst =
  ic_pred :: Predicate
  ic_op0 :: "'v operand"
  ic_op1 :: "'v operand"

fun getInversePredicate :: "Predicate \<Rightarrow> Predicate" where
  "getInversePredicate ICMP_EQ = ICMP_NE"
| "getInversePredicate ICMP_NE = ICMP_EQ"
| "getInversePredicate ICMP_UGT = ICMP_ULE"
| "getInversePredicate ICMP_UGE = ICMP_ULT"
| "getInversePredicate ICMP_ULT = ICMP_UGE"
| "getInversePredicate ICMP_ULE = ICMP_UGT"
| "getInversePredicate ICMP_SGT = ICMP_SLE"
| "getInversePredicate ICMP_SGE = ICMP_SLT"
| "getInversePredicate ICMP_SLT = ICMP_SGE"
| "getInversePredicate ICMP_SLE = ICMP_SGT"

section \<open>From a comparison to a range\<close>

definition upperOnly :: "i64 \<Rightarrow> IntRange" where
  "upperOnly ub = \<lparr>ir_lower = 0, ir_upper = ub, ir_hasLower = False, ir_hasUpper = True\<rparr>"

definition lowerOnly :: "i64 \<Rightarrow> IntRange" where
  "lowerOnly lb = \<lparr>ir_lower = lb, ir_upper = 0, ir_hasLower = True, ir_hasUpper = False\<rparr>"

definition exactly :: "i64 \<Rightarrow> IntRange" where
  "exactly c = \<lparr>ir_lower = c, ir_upper = c, ir_hasLower = True, ir_hasUpper = True\<rparr>"

definition updateForSigned :: "Predicate \<Rightarrow> bool \<Rightarrow> i64 \<Rightarrow> IntRange option" where
  "updateForSigned pred valueIsOp0 c =
     (if valueIsOp0
      then (case pred of
              ICMP_SLT \<Rightarrow> Some (upperOnly (c - 1))
            | ICMP_SLE \<Rightarrow> Some (upperOnly c)
            | ICMP_SGT \<Rightarrow> Some (lowerOnly (c + 1))
            | ICMP_SGE \<Rightarrow> Some (lowerOnly c)
            | ICMP_EQ \<Rightarrow> Some (exactly c)
            | _ \<Rightarrow> None)
      else (case pred of
              ICMP_SGT \<Rightarrow> Some (upperOnly (c - 1))
            | ICMP_SGE \<Rightarrow> Some (upperOnly c)
            | ICMP_SLT \<Rightarrow> Some (lowerOnly (c + 1))
            | ICMP_SLE \<Rightarrow> Some (lowerOnly c)
            | ICMP_EQ \<Rightarrow> Some (exactly c)
            | _ \<Rightarrow> None))"

definition updateForUnsigned :: "Predicate \<Rightarrow> bool \<Rightarrow> u64 \<Rightarrow> IntRange option" where
  "updateForUnsigned pred valueIsOp0 c =
     (if valueIsOp0
      then (case pred of
              ICMP_ULT \<Rightarrow> Some (upperOnly (c - 1))
            | ICMP_ULE \<Rightarrow> Some (upperOnly c)
            | ICMP_UGT \<Rightarrow> Some (lowerOnly (c + 1))
            | ICMP_UGE \<Rightarrow> Some (lowerOnly c)
            | ICMP_EQ \<Rightarrow> Some (exactly c)
            | _ \<Rightarrow> None)
      else (case pred of
              ICMP_UGT \<Rightarrow> Some (upperOnly (c - 1))
            | ICMP_UGE \<Rightarrow> Some (upperOnly c)
            | ICMP_ULT \<Rightarrow> Some (lowerOnly (c + 1))
            | ICMP_ULE \<Rightarrow> Some (lowerOnly c)
            | ICMP_EQ \<Rightarrow> Some (exactly c)
            | _ \<Rightarrow> None))"

definition deriveRangeConstraintFromPredicate ::
    "Predicate \<Rightarrow> bool \<Rightarrow> ConstantInt \<Rightarrow> IntRange option" where
  "deriveRangeConstraintFromPredicate pred valueIsOp0 constant =
     (if pred \<in> {ICMP_SLT, ICMP_SLE, ICMP_SGT, ICMP_SGE, ICMP_EQ}
      then updateForSigned pred valueIsOp0 (getSExtValue constant)
      else if pred \<in> {ICMP_ULT, ICMP_ULE, ICMP_UGT, ICMP_UGE}
      then updateForUnsigned pred valueIsOp0 (getZExtValue constant)
      else None)"

text \<open>Which operand is the variable: exactly one of the two must be a constant.\<close>

definition splitOperands :: "'v ICmpInst \<Rightarrow> ('v \<times> ConstantInt \<times> bool) option" where
  "splitOperands icmp =
     (case (ic_op0 icmp, ic_op1 icmp) of
        (ValueOp v, ConstOp c) \<Rightarrow> Some (v, c, True)
      | (ConstOp c, ValueOp v) \<Rightarrow> Some (v, c, False)
      | _ \<Rightarrow> None)"

text \<open>
  Values as \<open>canonicalConstraintValue\<close> takes them apart: a cast instruction, a load, anything
  else; \<open>strip\<close> is LLVM's \<open>stripPointerCasts\<close>.
\<close>

datatype 'a llvalue = CastInst "'a llvalue" | LoadInst "'a llvalue" | OtherValue 'a

fun peelCasts :: "'a llvalue \<Rightarrow> 'a llvalue" where
  "peelCasts (CastInst v) = peelCasts v"
| "peelCasts v = v"

definition canonicalConstraintValue ::
    "('a llvalue \<Rightarrow> 'a llvalue) \<Rightarrow> 'a llvalue \<Rightarrow> 'a llvalue" where
  "canonicalConstraintValue strip v =
     (case strip (peelCasts v) of LoadInst p \<Rightarrow> strip p | current \<Rightarrow> current)"

definition deriveEdgeConstraint ::
    "('a llvalue \<Rightarrow> 'a llvalue) \<Rightarrow> 'a llvalue ICmpInst \<Rightarrow> bool \<Rightarrow> ('a llvalue \<times> IntRange) option" where
  "deriveEdgeConstraint strip icmp takesTrueEdge =
     (case splitOperands icmp of
        None \<Rightarrow> None
      | Some (variable, constant, valueIsOp0) \<Rightarrow>
          let pred = (if takesTrueEdge then ic_pred icmp else getInversePredicate (ic_pred icmp))
          in case deriveRangeConstraintFromPredicate pred valueIsOp0 constant of
               None \<Rightarrow> None
             | Some out \<Rightarrow> Some (canonicalConstraintValue strip variable, out))"

section \<open>Range states\<close>

definition tightenLower :: "IntRange \<Rightarrow> IntRange \<Rightarrow> IntRange" where
  "tightenLower c cur =
     (if ir_hasLower c \<and> (\<not> ir_hasLower cur \<or> sint (ir_lower c) > sint (ir_lower cur))
      then cur\<lparr>ir_hasLower := True, ir_lower := ir_lower c\<rparr> else cur)"

definition tightenUpper :: "IntRange \<Rightarrow> IntRange \<Rightarrow> IntRange" where
  "tightenUpper c cur =
     (if ir_hasUpper c \<and> (\<not> ir_hasUpper cur \<or> sint (ir_upper c) < sint (ir_upper cur))
      then cur\<lparr>ir_hasUpper := True, ir_upper := ir_upper c\<rparr> else cur)"

definition rangeOf :: "('k \<rightharpoonup> IntRange) \<Rightarrow> 'k \<Rightarrow> IntRange" where
  "rangeOf ranges key = (case ranges key of None \<Rightarrow> emptyIntRange | Some r \<Rightarrow> r)"

definition applyConstraint :: "'k \<Rightarrow> IntRange \<Rightarrow> ('k \<rightharpoonup> IntRange) \<Rightarrow> ('k \<rightharpoonup> IntRange)" where
  "applyConstraint key c ranges = ranges(key \<mapsto> tightenUpper c (tightenLower c (rangeOf ranges key)))"

definition emptyInterval :: "IntRange \<Rightarrow> bool" where
  "emptyInterval r = (ir_hasLower r \<and> ir_hasUpper r \<and> sint (ir_lower r) > sint (ir_upper r))"

definition applyConstraintToState ::
    "('k \<rightharpoonup> IntRange) \<Rightarrow> 'k \<Rightarrow> IntRange \<Rightarrow> bool \<times> ('k \<rightharpoonup> IntRange)" where
  "applyConstraintToState ranges key c =
     (let ranges' = applyConstraint key c ranges
      in (\<not> emptyInterval (rangeOf ranges' key), ranges'))"

datatype ConstraintSat = Sat | Unsat | Unknown

text \<open>The map is walked in key order; \<open>keys\<close> lists the keys it holds.\<close>

definition evaluateIntervalSatisfiability :: "'k list \<Rightarrow> ('k \<rightharpoonup> IntRange) \<Rightarrow> ConstraintSat" where
  "evaluateIntervalSatisfiability keys ranges =
     (if list_ex (\<lambda>k. emptyInterval (rangeOf ranges k)) keys then Unsat else Sat)"

text \<open>
  \<open>computeIntRangesFromICmps\<close>: the comparisons of a function in program order; each one
  constrains its variable and, for a load, the pointer it reads.
\<close>

definition icmpConstraint :: "Predicate \<Rightarrow> bool \<Rightarrow> ConstantInt \<Rightarrow> IntRange option" where
  "icmpConstraint pred valueIsOp0 C =
     (if pred = ICMP_SLT \<or> pred = ICMP_SLE \<or> pred = ICMP_SGT \<or> pred = ICMP_SGE \<or> pred = ICMP_EQ
      then updateForSigned pred valueIsOp0 (getSExtValue C)
      else if pred = ICMP_ULT \<or> pred = ICMP_ULE \<or> pred = ICMP_UGT \<or> pred = ICMP_UGE
      then updateForUnsigned pred valueIsOp0 (getZExtValue C)
      else None)"

definition applyICmp ::
    "'a llvalue ICmpInst \<Rightarrow> ('a llvalue \<rightharpoonup> IntRange) \<Rightarrow> ('a llvalue \<rightharpoonup> IntRange)" where
  "applyICmp icmp ranges =
     (case splitOperands icmp of
        None \<Rightarrow> ranges
      | Some (V, C, valueIsOp0) \<Rightarrow>
          (case icmpConstraint (ic_pred icmp) valueIsOp0 C of
             None \<Rightarrow> ranges
           | Some c \<Rightarrow>
               let ranges' = applyConstraint V c ranges
               in case V of LoadInst ptr \<Rightarrow> applyConstraint ptr c ranges' | _ \<Rightarrow> ranges'))"

definition computeIntRangesFromICmps :: "'a llvalue ICmpInst list \<Rightarrow> ('a llvalue \<rightharpoonup> IntRange)" where
  "computeIntRangesFromICmps icmps = fold applyICmp icmps Map.empty"

section \<open>Meaning\<close>

text \<open>What LLVM's comparison of two \<open>w\<close>-bit values computes.\<close>

fun icmp_eval :: "nat \<Rightarrow> Predicate \<Rightarrow> u64 \<Rightarrow> u64 \<Rightarrow> bool" where
  "icmp_eval w ICMP_EQ a b = (a = b)"
| "icmp_eval w ICMP_NE a b = (a \<noteq> b)"
| "icmp_eval w ICMP_UGT a b = (a > b)"
| "icmp_eval w ICMP_UGE a b = (a \<ge> b)"
| "icmp_eval w ICMP_ULT a b = (a < b)"
| "icmp_eval w ICMP_ULE a b = (a \<le> b)"
| "icmp_eval w ICMP_SGT a b = (sint (sextBits w a) > sint (sextBits w b))"
| "icmp_eval w ICMP_SGE a b = (sint (sextBits w a) \<ge> sint (sextBits w b))"
| "icmp_eval w ICMP_SLT a b = (sint (sextBits w a) < sint (sextBits w b))"
| "icmp_eval w ICMP_SLE a b = (sint (sextBits w a) \<le> sint (sextBits w b))"

definition in_range :: "int \<Rightarrow> IntRange \<Rightarrow> bool" where
  "in_range x r \<longleftrightarrow> (ir_hasLower r \<longrightarrow> sint (ir_lower r) \<le> x) \<and> (ir_hasUpper r \<longrightarrow> x \<le> sint (ir_upper r))"

definition signedPredicate :: "Predicate \<Rightarrow> bool" where
  "signedPredicate p \<longleftrightarrow> p \<in> {ICMP_SLT, ICMP_SLE, ICMP_SGT, ICMP_SGE, ICMP_EQ, ICMP_NE}"

lemma inverse_predicate: "icmp_eval w (getInversePredicate p) a b \<longleftrightarrow> \<not> icmp_eval w p a b"
  by (cases p) auto

lemma inverse_signed: "signedPredicate p \<Longrightarrow> signedPredicate (getInversePredicate p)"
  by (cases p) (auto simp: signedPredicate_def)

lemma two_copies_agree: "icmpConstraint = deriveRangeConstraintFromPredicate"
  by (auto simp: fun_eq_iff icmpConstraint_def deriveRangeConstraintFromPredicate_def)

lemma sint_bounds: "i64_min \<le> sint (x :: i64)" "sint (x :: i64) \<le> i64_max"
  using sint_ge [of x] sint_lt [of x] by simp_all

lemma sint_pred: "i64_min < sint x \<Longrightarrow> sint (x - 1 :: i64) = sint x - 1"
  using sint_bounds [of x] by (simp add: sint_word_ariths signed_take_bit_int_eq_self)

lemma sint_succ: "sint x < i64_max \<Longrightarrow> sint (x + 1 :: i64) = sint x + 1"
  using sint_bounds [of x] by (simp add: sint_word_ariths signed_take_bit_int_eq_self)

lemma in_range_single [simp]:
  "in_range x (upperOnly u) \<longleftrightarrow> x \<le> sint u"
  "in_range x (lowerOnly l) \<longleftrightarrow> sint l \<le> x"
  "in_range x (exactly c) \<longleftrightarrow> x = sint c"
  by (auto simp: in_range_def upperOnly_def lowerOnly_def exactly_def)

text \<open>
  A signed comparison that holds puts the signed value of the variable into the derived
  range: the overflow of \<open>c - 1\<close> and \<open>c + 1\<close> happens only for comparisons that never hold.
\<close>

lemma derive_signed_sound:
  assumes "deriveRangeConstraintFromPredicate p op0 c = Some r" and "signedPredicate p"
    and "if op0 then icmp_eval (ci_width c) p v (ci_bits c) else icmp_eval (ci_width c) p (ci_bits c) v"
  shows "in_range (sint (sextBits (ci_width c) v)) r"
proof -
  let ?x = "sextBits (ci_width c) v" and ?c = "sextBits (ci_width c) (ci_bits c)"
  have lt: "sint ?x \<le> sint (?c - 1)" if "sint ?x < sint ?c"
    using that sint_pred [of ?c] sint_bounds(1) [of ?x] by simp
  have gt: "sint (?c + 1) \<le> sint ?x" if "sint ?c < sint ?x"
    using that sint_succ [of ?c] sint_bounds(2) [of ?x] by simp
  show ?thesis
    using assms lt gt
    by (cases p; cases op0)
       (auto simp: deriveRangeConstraintFromPredicate_def updateForSigned_def signedPredicate_def
          getSExtValue_def)
qed

text \<open>
  An unsigned comparison that holds puts the unsigned value of the variable into the
  range, as long as the constant stays clear of the sign bit.
\<close>

lemma sint_nonneg: "uint (x :: i64) < 2 ^ 63 \<Longrightarrow> sint x = uint x"
  using signed_take_bit_int_eq_self [of 63 "uint x"] uint_ge_0 [of x] by (simp add: sint_uint del: uint_ge_0)

lemma derive_unsigned_sound:
  assumes "deriveRangeConstraintFromPredicate p op0 c = Some r" and "\<not> signedPredicate p"
    and "if op0 then icmp_eval (ci_width c) p v (ci_bits c) else icmp_eval (ci_width c) p (ci_bits c) v"
    and "uint (ci_bits c) < i64_max"
  shows "in_range (uint v) r"
proof -
  let ?c = "ci_bits c"
  have c: "sint ?c = uint ?c" using assms(4) by (simp add: sint_nonneg)
  have lt: "uint v \<le> sint (?c - 1)" if "v < ?c"
  proof -
    have "uint v < uint ?c" using that by (simp add: word_less_def)
    with c show ?thesis using sint_pred [of ?c] uint_ge_0 [of v] by (simp del: uint_ge_0)
  qed
  have gt: "sint (?c + 1) \<le> uint v" if "?c < v"
  proof -
    have "uint ?c < uint v" using that by (simp add: word_less_def)
    with c show ?thesis using sint_succ [of ?c] assms(4) by simp
  qed
  show ?thesis
    using assms(1-3) lt gt c
    by (cases p; cases op0)
       (auto simp: deriveRangeConstraintFromPredicate_def updateForUnsigned_def signedPredicate_def
          getZExtValue_def word_le_def)
qed

section \<open>Intersections\<close>

lemma in_range_empty [simp]: "in_range x emptyIntRange"
  by (simp add: in_range_def emptyIntRange_def)

lemma tighten_in_range:
  "in_range x (tightenUpper c (tightenLower c cur)) \<longleftrightarrow> in_range x cur \<and> in_range x c"
  by (auto simp: in_range_def tightenUpper_def tightenLower_def)

lemma emptyInterval_iff: "emptyInterval r \<longleftrightarrow> (\<forall>x. \<not> in_range x r)"
proof (cases "ir_hasLower r"; cases "ir_hasUpper r")
  assume "ir_hasLower r" "ir_hasUpper r"
  then show ?thesis by (force simp: emptyInterval_def in_range_def not_less not_le)
qed (auto simp: emptyInterval_def in_range_def)

lemma applyConstraint_in_range:
  "in_range x (rangeOf (applyConstraint k c ranges) k') \<longleftrightarrow>
     in_range x (rangeOf ranges k') \<and> (k = k' \<longrightarrow> in_range x c)"
  by (auto simp: applyConstraint_def rangeOf_def tighten_in_range)

subsection \<open>Ranges of a function\<close>

definition icmpTargets :: "'a llvalue ICmpInst \<Rightarrow> ('a llvalue \<times> IntRange) list" where
  "icmpTargets icmp =
     (case splitOperands icmp of
        None \<Rightarrow> []
      | Some (V, C, op0) \<Rightarrow>
          (case deriveRangeConstraintFromPredicate (ic_pred icmp) op0 C of
             None \<Rightarrow> []
           | Some c \<Rightarrow> (V, c) # (case V of LoadInst ptr \<Rightarrow> [(ptr, c)] | _ \<Rightarrow> [])))"

lemma applyICmp_targets: "applyICmp icmp ranges = fold (\<lambda>(k, c). applyConstraint k c) (icmpTargets icmp) ranges"
  by (auto simp: applyICmp_def icmpTargets_def two_copies_agree Let_def
      split: option.splits llvalue.splits)

lemma fold_constraints_in_range:
  "in_range x (rangeOf (fold (\<lambda>(k, c). applyConstraint k c) cs ranges) k) \<longleftrightarrow>
     in_range x (rangeOf ranges k) \<and> (\<forall>c. (k, c) \<in> set cs \<longrightarrow> in_range x c)"
  by (induction cs arbitrary: ranges) (auto simp: applyConstraint_in_range)

lemma computeIntRanges_in_range:
  "in_range x (rangeOf (computeIntRangesFromICmps icmps) k) \<longleftrightarrow>
     (\<forall>icmp \<in> set icmps. \<forall>c. (k, c) \<in> set (icmpTargets icmp) \<longrightarrow> in_range x c)"
proof -
  have "in_range x (rangeOf (fold applyICmp icmps ranges) k) \<longleftrightarrow>
      in_range x (rangeOf ranges k) \<and>
      (\<forall>icmp \<in> set icmps. \<forall>c. (k, c) \<in> set (icmpTargets icmp) \<longrightarrow> in_range x c)" for ranges
    by (induction icmps arbitrary: ranges) (auto simp: applyICmp_targets fold_constraints_in_range)
  then show ?thesis by (simp add: computeIntRangesFromICmps_def rangeOf_def)
qed

subsection \<open>Edges of a path\<close>

text \<open>The constraint of one conditional edge, as the path search applies it.\<close>

definition applyEdge ::
    "('a llvalue \<Rightarrow> 'a llvalue) \<Rightarrow> ('a llvalue \<rightharpoonup> IntRange) \<Rightarrow> 'a llvalue ICmpInst option \<Rightarrow> bool \<Rightarrow>
     bool \<times> ('a llvalue \<rightharpoonup> IntRange)" where
  "applyEdge strip ranges icmp takesTrueEdge =
     (case icmp of
        None \<Rightarrow> (True, ranges)
      | Some i \<Rightarrow>
          (case deriveEdgeConstraint strip i takesTrueEdge of
             None \<Rightarrow> (True, ranges)
           | Some (key, c) \<Rightarrow> applyConstraintToState ranges key c))"

definition ranges_hold :: "('k \<Rightarrow> int) \<Rightarrow> ('k \<rightharpoonup> IntRange) \<Rightarrow> bool" where
  "ranges_hold env ranges \<longleftrightarrow> (\<forall>k. in_range (env k) (rangeOf ranges k))"

definition edge_holds ::
    "('a llvalue \<Rightarrow> 'a llvalue) \<Rightarrow> ('a llvalue \<Rightarrow> int) \<Rightarrow> 'a llvalue ICmpInst \<Rightarrow> bool \<Rightarrow> bool" where
  "edge_holds strip env icmp takesTrueEdge \<longleftrightarrow>
     signedPredicate (ic_pred icmp) \<and>
     (\<forall>v c op0. splitOperands icmp = Some (v, c, op0) \<longrightarrow>
        (\<exists>bits. env (canonicalConstraintValue strip v) = sint (sextBits (ci_width c) bits) \<and>
           (if op0 then icmp_eval (ci_width c) (ic_pred icmp) bits (ci_bits c)
            else icmp_eval (ci_width c) (ic_pred icmp) (ci_bits c) bits) = takesTrueEdge))"

lemma applyConstraintToState_sound:
  assumes "ranges_hold env ranges" and "in_range (env k) c"
  shows "fst (applyConstraintToState ranges k c) \<and> ranges_hold env (snd (applyConstraintToState ranges k c))"
proof -
  have h: "ranges_hold env (applyConstraint k c ranges)"
    using assms by (simp add: ranges_hold_def applyConstraint_in_range)
  then have "\<not> emptyInterval (rangeOf (applyConstraint k c ranges) k)"
    unfolding emptyInterval_iff ranges_hold_def by blast
  with h show ?thesis by (simp add: applyConstraintToState_def Let_def)
qed

lemma applyEdge_sound:
  assumes "ranges_hold env ranges" and "\<And>i. icmp = Some i \<Longrightarrow> edge_holds strip env i taken"
  shows "fst (applyEdge strip ranges icmp taken) \<and> ranges_hold env (snd (applyEdge strip ranges icmp taken))"
proof (cases icmp)
  case None
  with assms(1) show ?thesis by (simp add: applyEdge_def)
next
  case (Some i)
  show ?thesis
  proof (cases "deriveEdgeConstraint strip i taken")
    case None
    with Some assms(1) show ?thesis by (simp add: applyEdge_def)
  next
    case d: (Some kc)
    then obtain v c op0 r where s: "splitOperands i = Some (v, c, op0)"
      and r: "deriveRangeConstraintFromPredicate
          (if taken then ic_pred i else getInversePredicate (ic_pred i)) op0 c = Some r"
      and kc: "kc = (canonicalConstraintValue strip v, r)"
      by (auto simp: deriveEdgeConstraint_def Let_def split: option.splits)
    obtain bits where e: "env (canonicalConstraintValue strip v) = sint (sextBits (ci_width c) bits)"
      and t: "(if op0 then icmp_eval (ci_width c) (ic_pred i) bits (ci_bits c)
            else icmp_eval (ci_width c) (ic_pred i) (ci_bits c) bits) = taken"
      and sp: "signedPredicate (ic_pred i)"
      using assms(2) [OF Some] s unfolding edge_holds_def by blast
    have "in_range (sint (sextBits (ci_width c) bits)) r"
      using t sp by (intro derive_signed_sound [OF r]) (auto simp: inverse_predicate inverse_signed split: if_splits)
    with applyConstraintToState_sound [OF assms(1)] e kc d Some show ?thesis
      by (simp add: applyEdge_def)
  qed
qed

fun applyEdges ::
    "('a llvalue \<Rightarrow> 'a llvalue) \<Rightarrow> ('a llvalue \<rightharpoonup> IntRange) \<Rightarrow> ('a llvalue ICmpInst option \<times> bool) list \<Rightarrow>
     bool \<times> ('a llvalue \<rightharpoonup> IntRange)" where
  "applyEdges strip ranges [] = (True, ranges)"
| "applyEdges strip ranges ((icmp, taken) # es) =
     (case applyEdge strip ranges icmp taken of
        (False, ranges') \<Rightarrow> (False, ranges')
      | (True, ranges') \<Rightarrow> applyEdges strip ranges' es)"

lemma applyEdges_sound:
  "ranges_hold env ranges \<Longrightarrow> (\<And>i taken. (Some i, taken) \<in> set es \<Longrightarrow> edge_holds strip env i taken) \<Longrightarrow>
     fst (applyEdges strip ranges es) \<and> ranges_hold env (snd (applyEdges strip ranges es))"
proof (induction es arbitrary: ranges)
  case (Cons e es)
  obtain icmp taken where e: "e = (icmp, taken)" by fastforce
  have step: "fst (applyEdge strip ranges icmp taken)"
    "ranges_hold env (snd (applyEdge strip ranges icmp taken))"
    using applyEdge_sound [OF Cons.prems(1), of icmp strip taken] Cons.prems(2) e by auto
  obtain ranges' where r: "applyEdge strip ranges icmp taken = (True, ranges')"
    using step(1) by (cases "applyEdge strip ranges icmp taken") auto
  with Cons.IH [of ranges'] step(2) Cons.prems(2) e show ?case by auto
qed simp

section \<open>Properties\<close>

text \<open>
  C11: A path whose comparisons are all signed and all hold for one assignment of integers to
  the constrained values is never given up as infeasible, and the assignment stays within
  the ranges collected along it. No side condition on the constants is needed: the
  overflow of the bound computation happens only for comparisons that cannot hold.
\<close>

theorem signed_paths_never_pruned:
  assumes "\<And>i taken. (Some i, taken) \<in> set es \<Longrightarrow> edge_holds strip env i taken"
  shows "fst (applyEdges strip Map.empty es) \<and> ranges_hold env (snd (applyEdges strip Map.empty es))"
  using assms by (intro applyEdges_sound) (simp add: ranges_hold_def rangeOf_def)

definition cmp32 :: "Predicate \<Rightarrow> u64 \<Rightarrow> nat llvalue ICmpInst" where
  "cmp32 p c = \<lparr>ic_pred = p, ic_op0 = ValueOp (OtherValue 0),
                ic_op1 = ConstOp \<lparr>ci_width = 32, ci_bits = c\<rparr>\<rparr>"

theorem signed_paths_never_pruned_witness:
  "fst (applyEdges (\<lambda>v. v) Map.empty [(Some (cmp32 ICMP_SGT 3), True), (Some (cmp32 ICMP_SLT 8), True)])"
proof -
  have "edge_holds (\<lambda>v. v) (\<lambda>_. 5) i taken"
    if "(Some i, taken) \<in> set [(Some (cmp32 ICMP_SGT 3), True), (Some (cmp32 ICMP_SLT 8), True)]" for i taken
    using that
    by (auto simp: edge_holds_def cmp32_def splitOperands_def signedPredicate_def sextBits_def
        intro!: exI [of _ 5])
  from signed_paths_never_pruned [OF this] show ?thesis by blast
qed

text \<open>
  An unsigned and a signed comparison of the same 32-bit variable that both hold for the
  value with all bits set are given up as infeasible: the derived bounds of \<open>x > 5\<close>
  (unsigned) and \<open>x < 0\<close> (signed) do not meet.
\<close>

theorem mixed_signedness_prunes_a_feasible_path:
  "icmp_eval 32 ICMP_UGT 0xFFFFFFFF 5 \<and> icmp_eval 32 ICMP_SLT 0xFFFFFFFF 0 \<and>
   \<not> fst (applyEdges (\<lambda>v. v) Map.empty
            [(Some (cmp32 ICMP_UGT 5), True), (Some (cmp32 ICMP_SLT 0), True)])"
  by code_simp

text \<open>
  The ranges collected from the comparisons of a function are the intersection of the
  intervals of all comparisons of a value (and of the loads from a pointer): an integer is
  in the range exactly when it satisfies every one of them.
\<close>

theorem function_ranges_are_intersections:
  "in_range x (rangeOf (computeIntRangesFromICmps icmps) k) \<longleftrightarrow>
     (\<forall>icmp \<in> set icmps. \<forall>c. (k, c) \<in> set (icmpTargets icmp) \<longrightarrow> in_range x c)"
  by (rule computeIntRanges_in_range)

theorem function_ranges_are_intersections_witness:
  "in_range 4 (rangeOf (computeIntRangesFromICmps [cmp32 ICMP_SLT 8, cmp32 ICMP_SGE 4]) (OtherValue 0)) \<and>
   \<not> in_range 8 (rangeOf (computeIntRangesFromICmps [cmp32 ICMP_SLT 8, cmp32 ICMP_SGE 4]) (OtherValue 0))"
proof -
  have "icmpTargets (cmp32 ICMP_SLT 8) = [(OtherValue 0, upperOnly 7)]"
    and "icmpTargets (cmp32 ICMP_SGE 4) = [(OtherValue 0, lowerOnly 4)]" by code_simp+
  then show ?thesis by (simp add: function_ranges_are_intersections)
qed

end
