(* ===== verification/StackUsage.thy ===== *)
theory StackUsage
  imports Worklist
begin

text \<open>
  Stack use per function and over the call graph: \<open>src/analysis/StackComputation.cpp\<close> and the
  call path of \<open>src/analysis/AnalyzerUtils.cpp\<close>. A function is what the code reads of it: its
  instructions (allocas, calls, the rest), whether it is a declaration and whether it
  carries \<open>norecurse\<close>. The alignment helper of LLVM is an argument (\<open>alignTo\<close>). The depth
  first search takes fuel; the number of functions plus one is always enough.
\<close>

section \<open>Data\<close>

type_synonym StackSize = u64

datatype 'f instruction =
    AllocaInst string u64 "u64 option"
      \<comment> \<open>name, \<open>getTypeAllocSize\<close> of the type, constant element count if known\<close>
  | CallInst "'f option"  \<comment> \<open>call or invoke, with \<open>getCalledFunction\<close>\<close>
  | OtherInst

record 'f llvm_function =
  lf_id :: 'f
  lf_isDeclaration :: bool
  lf_instructions :: "'f instruction list"

record LocalStackInfo =
  ls_bytes :: StackSize
  ls_localAllocas :: "(string \<times> StackSize) list"
  ls_unknown :: bool
  ls_hasDynamicAlloca :: bool

record StackEstimate =
  se_bytes :: StackSize
  se_unknown :: bool

type_synonym 'f CallGraph = "'f \<rightharpoonup> 'f list"

datatype VisitState = NotVisited | Visiting | Visited

datatype AnalysisMode = IR | ABI

definition emptyEstimate :: StackEstimate where
  "emptyEstimate = \<lparr>se_bytes = 0, se_unknown = False\<rparr>"

section \<open>One function\<close>

definition hasNonSelfCall :: "('f \<Rightarrow> bool) \<Rightarrow> 'f llvm_function \<Rightarrow> bool" where
  "hasNonSelfCall isDeclaration F =
     list_ex (\<lambda>I. case I of
                CallInst (Some callee) \<Rightarrow> \<not> isDeclaration callee \<and> callee \<noteq> lf_id F
              | _ \<Rightarrow> False) (lf_instructions F)"

fun addInstruction :: "'f instruction \<Rightarrow> LocalStackInfo \<Rightarrow> LocalStackInfo" where
  "addInstruction (AllocaInst name elemSize (Some count)) info =
     info\<lparr>ls_bytes := ls_bytes info + elemSize * count,
          ls_localAllocas := ls_localAllocas info @ [(name, elemSize * count)]\<rparr>"
| "addInstruction (AllocaInst name elemSize None) info =
     info\<lparr>ls_hasDynamicAlloca := True, ls_unknown := True\<rparr>"
| "addInstruction _ info = info"

definition computeLocalStackBase :: "'f llvm_function \<Rightarrow> LocalStackInfo" where
  "computeLocalStackBase F =
     fold addInstruction (lf_instructions F)
       \<lparr>ls_bytes = 0, ls_localAllocas = [], ls_unknown = False, ls_hasDynamicAlloca = False\<rparr>"

text \<open>\<open>MA\<close> is the stack alignment of the data layout, if it has one.\<close>

definition stackAlignOf :: "u64 option \<Rightarrow> u64" where
  "stackAlignOf MA = (case MA of None \<Rightarrow> 1 | Some a \<Rightarrow> a)"

definition computeLocalStackIR ::
    "(u64 \<Rightarrow> u64 \<Rightarrow> u64) \<Rightarrow> u64 option \<Rightarrow> 'f llvm_function \<Rightarrow> LocalStackInfo" where
  "computeLocalStackIR alignTo MA F =
     (let info = computeLocalStackBase F
      in if ls_bytes info = 0 then info
         else if stackAlignOf MA > 1
              then info\<lparr>ls_bytes := alignTo (ls_bytes info) (stackAlignOf MA)\<rparr>
         else info)"

definition computeLocalStackABI ::
    "(u64 \<Rightarrow> u64 \<Rightarrow> u64) \<Rightarrow> u64 option \<Rightarrow> ('f \<Rightarrow> bool) \<Rightarrow> 'f llvm_function \<Rightarrow> LocalStackInfo" where
  "computeLocalStackABI alignTo MA isDeclaration F =
     (let info = computeLocalStackBase F;
          stackAlign = stackAlignOf MA;
          f1 = (if stackAlign > 1 then alignTo (ls_bytes info) stackAlign else ls_bytes info);
          f2 = (if \<not> lf_isDeclaration F \<and> stackAlign > 1 \<and> f1 < stackAlign then stackAlign else f1);
          f3 = (if stackAlign > 1 \<and> hasNonSelfCall isDeclaration F
                then alignTo (f2 + stackAlign) stackAlign else f2)
      in info\<lparr>ls_bytes := f3\<rparr>)"

definition computeLocalStack ::
    "(u64 \<Rightarrow> u64 \<Rightarrow> u64) \<Rightarrow> u64 option \<Rightarrow> ('f \<Rightarrow> bool) \<Rightarrow> 'f llvm_function \<Rightarrow> AnalysisMode \<Rightarrow>
     LocalStackInfo" where
  "computeLocalStack alignTo MA isDeclaration F mode =
     (case mode of IR \<Rightarrow> computeLocalStackIR alignTo MA F
      | ABI \<Rightarrow> computeLocalStackABI alignTo MA isDeclaration F)"

definition computeAllocaLargeThreshold :: "StackSize \<Rightarrow> StackSize" where
  "computeAllocaLargeThreshold stackLimit =
     (let base = (if stackLimit \<noteq> 0 then stackLimit else 8 * 1024 * 1024);
          derived = base div 8
      in if derived < 64 * 1024 then 64 * 1024 else derived)"

section \<open>The call graph\<close>

text \<open>A module is its functions in order; the call graph has an entry per definition.\<close>

definition calledDefinitions :: "('f \<Rightarrow> bool) \<Rightarrow> 'f llvm_function \<Rightarrow> 'f list" where
  "calledDefinitions isDeclaration F =
     concat (map (\<lambda>I. case I of
                    CallInst (Some callee) \<Rightarrow> if isDeclaration callee then [] else [callee]
                  | _ \<Rightarrow> []) (lf_instructions F))"

definition buildCallGraph :: "('f \<Rightarrow> bool) \<Rightarrow> 'f llvm_function list \<Rightarrow> 'f CallGraph" where
  "buildCallGraph isDeclaration M =
     fold (\<lambda>F CG. if lf_isDeclaration F then CG
                  else CG(lf_id F \<mapsto> (case CG (lf_id F) of None \<Rightarrow> [] | Some v \<Rightarrow> v) @
                                      calledDefinitions isDeclaration F)) M Map.empty"

definition callees :: "'f CallGraph \<Rightarrow> 'f \<Rightarrow> 'f list" where
  "callees CG f = (case CG f of None \<Rightarrow> [] | Some cs \<Rightarrow> cs)"

definition hasSelfCall :: "('f \<Rightarrow> bool) \<Rightarrow> 'f CallGraph \<Rightarrow> 'f \<Rightarrow> bool" where
  "hasSelfCall noRecurse CG F =
     (if noRecurse F then False
      else case CG F of None \<Rightarrow> False | Some cs \<Rightarrow> list_ex (\<lambda>callee. callee = F) cs)"

section \<open>Maximum stack over the call graph\<close>

record 'f dfs_state =
  ds_state :: "'f \<rightharpoonup> VisitState"
  ds_total :: "'f \<rightharpoonup> StackEstimate"

definition localEstimate :: "('f \<rightharpoonup> LocalStackInfo) \<Rightarrow> 'f \<Rightarrow> StackEstimate" where
  "localEstimate LocalStack F =
     (case LocalStack F of None \<Rightarrow> emptyEstimate
      | Some l \<Rightarrow> \<lparr>se_bytes = ls_bytes l, se_unknown = ls_unknown l\<rparr>)"

definition maxEstimate :: "StackEstimate \<Rightarrow> StackEstimate \<Rightarrow> StackEstimate" where
  "maxEstimate maxCallee calleeStack =
     \<lparr>se_bytes = (if se_bytes calleeStack > se_bytes maxCallee then se_bytes calleeStack
                  else se_bytes maxCallee),
      se_unknown = (if se_unknown calleeStack then True else se_unknown maxCallee)\<rparr>"

function (sequential) dfsComputeStack ::
    "nat \<Rightarrow> 'f CallGraph \<Rightarrow> ('f \<rightharpoonup> LocalStackInfo) \<Rightarrow> 'f \<Rightarrow> 'f dfs_state \<Rightarrow>
     (StackEstimate \<times> 'f dfs_state) option"
  and dfsCallees ::
    "nat \<Rightarrow> 'f CallGraph \<Rightarrow> ('f \<rightharpoonup> LocalStackInfo) \<Rightarrow> 'f list \<Rightarrow> StackEstimate \<Rightarrow> 'f dfs_state \<Rightarrow>
     (StackEstimate \<times> 'f dfs_state) option"
where
  "dfsComputeStack 0 CG LocalStack F st = None"
| "dfsComputeStack (Suc n) CG LocalStack F st =
     (if ds_state st F = Some Visiting then Some (localEstimate LocalStack F, st)
      else if ds_state st F = Some Visited
      then Some (case ds_total st F of None \<Rightarrow> emptyEstimate | Some t \<Rightarrow> t, st)
      else
        (case dfsCallees n CG LocalStack (callees CG F) emptyEstimate
                (st\<lparr>ds_state := (ds_state st)(F \<mapsto> Visiting)\<rparr>) of
           None \<Rightarrow> None
         | Some (maxCallee, st') \<Rightarrow>
             let loc = localEstimate LocalStack F;
                 total = \<lparr>se_bytes = se_bytes loc + se_bytes maxCallee,
                          se_unknown = (se_unknown loc \<or> se_unknown maxCallee)\<rparr>
             in Some (total, \<lparr>ds_state = (ds_state st')(F \<mapsto> Visited),
                              ds_total = (ds_total st')(F \<mapsto> total)\<rparr>)))"
| "dfsCallees n CG LocalStack [] maxCallee st = Some (maxCallee, st)"
| "dfsCallees n CG LocalStack (c # cs) maxCallee st =
     (case dfsComputeStack n CG LocalStack c st of
        None \<Rightarrow> None
      | Some (calleeStack, st') \<Rightarrow>
          dfsCallees n CG LocalStack cs (maxEstimate maxCallee calleeStack) st')"
  by pat_completeness auto
termination
  by (relation "measures
        [\<lambda>c. (case c of Inl (n, _) \<Rightarrow> n | Inr (n, _) \<Rightarrow> n),
         \<lambda>c. (case c of Inl _ \<Rightarrow> 0 | Inr (_, _, _, cs, _) \<Rightarrow> Suc (length cs))]") auto

text \<open>The loop over the functions, in the order of the map \<open>LocalStack\<close> (\<open>nodes\<close>).\<close>

fun visitNodes ::
    "nat \<Rightarrow> 'f CallGraph \<Rightarrow> ('f \<rightharpoonup> LocalStackInfo) \<Rightarrow> 'f list \<Rightarrow> 'f dfs_state \<Rightarrow> 'f dfs_state option" where
  "visitNodes n CG LocalStack [] st = Some st"
| "visitNodes n CG LocalStack (F # Fs) st =
     (if ds_state st F = Some NotVisited
      then (case dfsComputeStack n CG LocalStack F st of
              None \<Rightarrow> None | Some (_, st') \<Rightarrow> visitNodes n CG LocalStack Fs st')
      else visitNodes n CG LocalStack Fs st)"

definition globalTotals ::
    "nat \<Rightarrow> 'f CallGraph \<Rightarrow> ('f \<rightharpoonup> LocalStackInfo) \<Rightarrow> 'f list \<Rightarrow> ('f \<rightharpoonup> StackEstimate) option" where
  "globalTotals n CG LocalStack nodes =
     map_option ds_total
       (visitNodes n CG LocalStack nodes
          \<lparr>ds_state = (\<lambda>f. if f \<in> set nodes then Some NotVisited else None), ds_total = Map.empty\<rparr>)"

section \<open>The reported call path\<close>

text \<open>The callee with the largest total, the first one on a tie.\<close>

fun bestCallee ::
    "('f \<rightharpoonup> StackEstimate) \<Rightarrow> 'f list \<Rightarrow> ('f \<times> StackEstimate) option \<Rightarrow> ('f \<times> StackEstimate) option" where
  "bestCallee totals [] best = best"
| "bestCallee totals (c # cs) best =
     (let est = (case totals c of None \<Rightarrow> emptyEstimate | Some t \<Rightarrow> t)
      in case best of
           None \<Rightarrow> bestCallee totals cs (Some (c, est))
         | Some (_, b) \<Rightarrow>
             if se_bytes est > se_bytes b then bestCallee totals cs (Some (c, est))
             else bestCallee totals cs best)"

fun maxStackCallPath ::
    "nat \<Rightarrow> 'f CallGraph \<Rightarrow> ('f \<rightharpoonup> StackEstimate) \<Rightarrow> 'f set \<Rightarrow> 'f \<Rightarrow> 'f list option" where
  "maxStackCallPath 0 CG totals visited current = None"
| "maxStackCallPath (Suc n) CG totals visited current =
     (if current \<in> visited then Some []
      else case CG current of
             None \<Rightarrow> Some [current]
           | Some cs \<Rightarrow>
               (case bestCallee totals cs None of
                  None \<Rightarrow> Some [current]
                | Some (c, est) \<Rightarrow>
                    if se_bytes est = 0 then Some [current]
                    else map_option (\<lambda>rest. current # rest)
                           (maxStackCallPath n CG totals (insert current visited) c)))"

definition joinArrow :: "string list \<Rightarrow> string" where
  "joinArrow names = fold (\<lambda>x path. (if path \<noteq> [] then path @ '' -> '' else path) @ x) names []"

definition buildMaxStackCallPath ::
    "nat \<Rightarrow> ('f \<Rightarrow> string) \<Rightarrow> 'f CallGraph \<Rightarrow> ('f \<rightharpoonup> StackEstimate) \<Rightarrow> 'f \<Rightarrow> string option" where
  "buildMaxStackCallPath n name CG totals F =
     map_option (\<lambda>path. joinArrow (map name path)) (maxStackCallPath n CG totals {} F)"

section \<open>The search returns\<close>

definition visiting :: "'f dfs_state \<Rightarrow> 'f set" where
  "visiting st = {g. ds_state st g = Some Visiting}"

lemma visiting_enter: "visiting (st\<lparr>ds_state := (ds_state st)(F \<mapsto> Visiting)\<rparr>) = insert F (visiting st)"
  by (auto simp: visiting_def)

lemma visiting_leave:
  "visiting \<lparr>ds_state = (ds_state st)(F \<mapsto> Visited), ds_total = t\<rparr> = visiting st - {F}"
  by (auto simp: visiting_def)

lemma dfs_total:
  assumes "finite U" and closed: "\<And>f. f \<in> U \<Longrightarrow> set (callees CG f) \<subseteq> U"
  shows "F \<in> U \<Longrightarrow> visiting st \<subseteq> U \<Longrightarrow> card (U - visiting st) < n \<Longrightarrow>
      \<exists>e st'. dfsComputeStack n CG L F st = Some (e, st') \<and> visiting st' = visiting st"
    and "set cs \<subseteq> U \<Longrightarrow> visiting st \<subseteq> U \<Longrightarrow> card (U - visiting st) < n \<Longrightarrow>
      \<exists>e st'. dfsCallees n CG L cs m st = Some (e, st') \<and> visiting st' = visiting st"
  using closed
proof (induction n CG L F st and n CG L cs m st rule: dfsComputeStack_dfsCallees.induct)
  case (1 CG L F st)
  then show ?case by simp
next
  case (2 n CG L F st)
  show ?case
  proof (cases "ds_state st F = Some Visiting \<or> ds_state st F = Some Visited")
    case True
    then show ?thesis by auto
  next
    case False
    let ?st = "st\<lparr>ds_state := (ds_state st)(F \<mapsto> Visiting)\<rparr>"
    have nv: "F \<notin> visiting st" using False by (simp add: visiting_def)
    have "U - visiting ?st = (U - visiting st) - {F}" by (auto simp: visiting_enter)
    then have "card (U - visiting ?st) < n"
      using 2(2,4) nv assms(1) card_Diff1_less [of "U - visiting st" F] by auto
    then obtain m st' where c: "dfsCallees n CG L (callees CG F) emptyEstimate ?st = Some (m, st')"
      and v: "visiting st' = visiting ?st"
      using 2(1) [OF _ _ _ _ _ 2(5)] 2(2,3,5) False by (auto simp: visiting_enter)
    with False nv show ?thesis by (auto simp: Let_def visiting_leave visiting_enter)
  qed
next
  case (3 n CG L m st)
  then show ?case by simp
next
  case (4 n CG L c cs m st)
  obtain e st1 where d: "dfsComputeStack n CG L c st = Some (e, st1)" "visiting st1 = visiting st"
    using 4(1) [OF _ 4(4,5,6)] 4(3) by auto
  with 4(2) [OF d(1) refl _ _ _ 4(6)] 4(3-5) show ?case by auto
qed

section \<open>Meaning of the totals\<close>

inductive call_chain :: "'f CallGraph \<Rightarrow> 'f \<Rightarrow> 'f list \<Rightarrow> bool" for CG where
  chain_single: "call_chain CG F [F]"
| chain_call: "c \<in> set (callees CG F) \<Longrightarrow> call_chain CG c p \<Longrightarrow> call_chain CG F (F # p)"

inductive_simps call_chain_Cons: "call_chain CG F (G # p)"
inductive_cases call_chainE: "call_chain CG F p"

definition localBytes :: "('f \<rightharpoonup> LocalStackInfo) \<Rightarrow> 'f \<Rightarrow> nat" where
  "localBytes L f = unat (se_bytes (localEstimate L f))"

definition chainBytes :: "('f \<rightharpoonup> LocalStackInfo) \<Rightarrow> 'f list \<Rightarrow> nat" where
  "chainBytes L p = sum_list (map (localBytes L) p)"

definition reaches_unknown :: "'f CallGraph \<Rightarrow> ('f \<rightharpoonup> LocalStackInfo) \<Rightarrow> 'f \<Rightarrow> bool" where
  "reaches_unknown CG L F \<longleftrightarrow>
     (\<exists>g. (F, g) \<in> (edges (callees CG))\<^sup>* \<and> se_unknown (localEstimate L g))"

definition longest :: "'f CallGraph \<Rightarrow> ('f \<rightharpoonup> LocalStackInfo) \<Rightarrow> 'f \<Rightarrow> StackEstimate \<Rightarrow> bool" where
  "longest CG L F e \<longleftrightarrow>
     (\<forall>p. call_chain CG F p \<longrightarrow> chainBytes L p \<le> unat (se_bytes e)) \<and>
     (\<exists>p. call_chain CG F p \<and> chainBytes L p = unat (se_bytes e)) \<and>
     (se_unknown e \<longleftrightarrow> reaches_unknown CG L F)"

definition longest_of :: "'f CallGraph \<Rightarrow> ('f \<rightharpoonup> LocalStackInfo) \<Rightarrow> 'f set \<Rightarrow> StackEstimate \<Rightarrow> bool" where
  "longest_of CG L A m \<longleftrightarrow>
     (\<forall>c \<in> A. \<forall>p. call_chain CG c p \<longrightarrow> chainBytes L p \<le> unat (se_bytes m)) \<and>
     (se_bytes m = 0 \<or> (\<exists>c \<in> A. \<exists>p. call_chain CG c p \<and> chainBytes L p = unat (se_bytes m))) \<and>
     (se_unknown m \<longleftrightarrow> (\<exists>c \<in> A. reaches_unknown CG L c))"

lemma longest_of_empty: "longest_of CG L {} emptyEstimate"
  by (simp add: longest_of_def emptyEstimate_def)

lemma longest_of_insert:
  assumes "longest_of CG L A m" and "longest CG L c e"
  shows "longest_of CG L (insert c A) (maxEstimate m e)"
proof (cases "se_bytes e > se_bytes m")
  case True
  then have lt: "unat (se_bytes m) \<le> unat (se_bytes e)" by (simp add: word_less_nat_alt)
  have b: "se_bytes (maxEstimate m e) = se_bytes e" and u: "se_unknown (maxEstimate m e) \<longleftrightarrow> se_unknown e \<or> se_unknown m"
    using True by (simp_all add: maxEstimate_def)
  have "\<forall>d \<in> insert c A. \<forall>p. call_chain CG d p \<longrightarrow> chainBytes L p \<le> unat (se_bytes e)"
    using assms lt unfolding longest_of_def longest_def by (auto intro: order.trans)
  moreover have "\<exists>d \<in> insert c A. \<exists>p. call_chain CG d p \<and> chainBytes L p = unat (se_bytes e)"
    using assms(2) unfolding longest_def by blast
  ultimately show ?thesis using assms unfolding longest_of_def [of _ _ "insert c A"] b u
    by (auto simp: longest_of_def longest_def)
next
  case False
  then have lt: "unat (se_bytes e) \<le> unat (se_bytes m)" by (simp add: word_less_nat_alt)
  have b: "se_bytes (maxEstimate m e) = se_bytes m" and u: "se_unknown (maxEstimate m e) \<longleftrightarrow> se_unknown e \<or> se_unknown m"
    using False by (simp_all add: maxEstimate_def)
  have "\<forall>d \<in> insert c A. \<forall>p. call_chain CG d p \<longrightarrow> chainBytes L p \<le> unat (se_bytes m)"
    using assms lt unfolding longest_of_def longest_def by (auto intro: order.trans)
  then show ?thesis using assms unfolding longest_of_def [of _ _ "insert c A"] b u
    by (auto simp: longest_of_def longest_def)
qed

lemma reaches_unknown_step:
  "reaches_unknown CG L F \<longleftrightarrow>
     se_unknown (localEstimate L F) \<or> (\<exists>c \<in> set (callees CG F). reaches_unknown CG L c)"
proof
  assume "reaches_unknown CG L F"
  then obtain g where "(F, g) \<in> (edges (callees CG))\<^sup>*" "se_unknown (localEstimate L g)"
    by (auto simp: reaches_unknown_def)
  then show "se_unknown (localEstimate L F) \<or> (\<exists>c \<in> set (callees CG F). reaches_unknown CG L c)"
    by (cases rule: converse_rtranclE) (auto simp: reaches_unknown_def)
next
  have "(F, g) \<in> (edges (callees CG))\<^sup>*" if "c \<in> set (callees CG F)" "(c, g) \<in> (edges (callees CG))\<^sup>*" for c g
    using that by (intro converse_rtrancl_into_rtrancl [of F c]) simp_all
  then show "se_unknown (localEstimate L F) \<or> (\<exists>c \<in> set (callees CG F). reaches_unknown CG L c) \<Longrightarrow>
      reaches_unknown CG L F"
    unfolding reaches_unknown_def by blast
qed

lemma chain_reach: "call_chain CG F p \<Longrightarrow> g \<in> set p \<Longrightarrow> (F, g) \<in> (edges (callees CG))\<^sup>*"
  by (induction rule: call_chain.induct) (auto intro: converse_rtrancl_into_rtrancl)

lemma chain_distinct:
  "call_chain CG F p \<Longrightarrow> acyclic (edges (callees CG)) \<Longrightarrow> distinct p"
proof (induction rule: call_chain.induct)
  case (chain_call c F p)
  have "F \<notin> set p"
  proof
    assume "F \<in> set p"
    then have "(c, F) \<in> (edges (callees CG))\<^sup>*" using chain_reach chain_call(2) by fast
    with chain_call(1) have "(F, F) \<in> (edges (callees CG))\<^sup>+" by (auto intro: rtrancl_into_trancl2)
    with chain_call(4) show False by (simp add: acyclic_def)
  qed
  with chain_call show ?case by simp
qed simp

lemma chain_sum_le:
  assumes "call_chain CG F p" and "acyclic (edges (callees CG))" and "finite U" and "F \<in> U"
    and closed: "\<And>f. f \<in> U \<Longrightarrow> set (callees CG f) \<subseteq> U"
  shows "chainBytes L p \<le> (\<Sum>f \<in> U. localBytes L f)"
proof -
  have "set p \<subseteq> U"
    using assms(1,4) closed by (induction rule: call_chain.induct) auto
  moreover have "chainBytes L p = (\<Sum>f \<in> set p. localBytes L f)"
    using chain_distinct [OF assms(1,2)] by (simp add: chainBytes_def sum_list_distinct_conv_sum_set)
  ultimately show ?thesis using assms(3) by (simp add: sum_mono2)
qed

lemma longest_step:
  assumes "longest_of CG L (set (callees CG F)) m"
    and nov: "\<And>p. call_chain CG F p \<Longrightarrow> chainBytes L p < 2 ^ 64"
  shows "longest CG L F \<lparr>se_bytes = se_bytes (localEstimate L F) + se_bytes m,
           se_unknown = (se_unknown (localEstimate L F) \<or> se_unknown m)\<rparr>"
proof -
  let ?l = "se_bytes (localEstimate L F)"
  have ex: "\<exists>p. call_chain CG F p \<and> chainBytes L p = unat ?l + unat (se_bytes m)"
  proof (cases "se_bytes m = 0")
    case True
    then show ?thesis by (intro exI [of _ "[F]"]) (simp add: chain_single chainBytes_def localBytes_def)
  next
    case False
    then obtain c p where "c \<in> set (callees CG F)" "call_chain CG c p" "chainBytes L p = unat (se_bytes m)"
      using assms(1) unfolding longest_of_def by blast
    then show ?thesis
      by (intro exI [of _ "F # p"]) (simp add: chain_call chainBytes_def localBytes_def)
  qed
  with nov have "unat ?l + unat (se_bytes m) < 2 ^ 64" by force
  then have b: "unat (?l + se_bytes m) = unat ?l + unat (se_bytes m)" by (rule u64_add_exact)
  have up: "chainBytes L p \<le> unat ?l + unat (se_bytes m)" if "call_chain CG F p" for p
    using that
  proof (cases rule: call_chain.cases)
    case chain_single
    then show ?thesis by (simp add: chainBytes_def localBytes_def)
  next
    case (chain_call c q)
    then have "chainBytes L q \<le> unat (se_bytes m)" using assms(1) unfolding longest_of_def by blast
    with chain_call show ?thesis by (simp add: chainBytes_def localBytes_def)
  qed
  have unk: "se_unknown (localEstimate L F) \<or> se_unknown m \<longleftrightarrow> reaches_unknown CG L F"
    using assms(1) reaches_unknown_step [of CG L F] unfolding longest_of_def by blast
  from up ex unk b show ?thesis by (simp add: longest_def)
qed

definition totals_ok :: "'f CallGraph \<Rightarrow> ('f \<rightharpoonup> LocalStackInfo) \<Rightarrow> 'f dfs_state \<Rightarrow> bool" where
  "totals_ok CG L st \<longleftrightarrow>
     (\<forall>g. ds_state st g = Some Visited \<longrightarrow> (\<exists>e. ds_total st g = Some e \<and> longest CG L g e))"

lemma dfs_longest:
  assumes acyc: "acyclic (edges (callees CG0))"
    and nov: "\<And>F p. F \<in> U \<Longrightarrow> call_chain CG0 F p \<Longrightarrow> chainBytes L0 p < 2 ^ 64"
    and closed: "\<And>f. f \<in> U \<Longrightarrow> set (callees CG0 f) \<subseteq> U"
  shows "dfsComputeStack n CG L F st = Some (e, st') \<Longrightarrow> CG = CG0 \<Longrightarrow> L = L0 \<Longrightarrow> totals_ok CG L st \<Longrightarrow>
      F \<in> U \<Longrightarrow> \<forall>g \<in> visiting st. (g, F) \<in> (edges (callees CG))\<^sup>+ \<Longrightarrow>
      totals_ok CG L st' \<and> longest CG L F e \<and> ds_state st' F = Some Visited \<and>
      (\<forall>g. ds_state st g = Some Visited \<longrightarrow> ds_state st' g = Some Visited) \<and> visiting st' = visiting st"
    and "dfsCallees n CG L cs m st = Some (e, st') \<Longrightarrow> CG = CG0 \<Longrightarrow> L = L0 \<Longrightarrow> totals_ok CG L st \<Longrightarrow>
      set cs \<subseteq> U \<Longrightarrow> \<forall>c \<in> set cs. \<forall>g \<in> visiting st. (g, c) \<in> (edges (callees CG))\<^sup>+ \<Longrightarrow>
      longest_of CG L A m \<Longrightarrow>
      totals_ok CG L st' \<and> longest_of CG L (A \<union> set cs) e \<and>
      (\<forall>g. ds_state st g = Some Visited \<longrightarrow> ds_state st' g = Some Visited) \<and> visiting st' = visiting st"
proof (induction n CG L F st and n CG L cs m st arbitrary: e st' and A e st'
    rule: dfsComputeStack_dfsCallees.induct)
  case (1 CG L F st)
  then show ?case by simp
next
  case (2 n CG L F st)
  have nv: "F \<notin> visiting st"
  proof
    assume "F \<in> visiting st"
    with 2(7) have "(F, F) \<in> (edges (callees CG))\<^sup>+" by blast
    with acyc 2(3) show False by (simp add: acyclic_def)
  qed
  show ?case
  proof (cases "ds_state st F = Some Visited")
    case True
    with 2(5) obtain t where "ds_total st F = Some t" "longest CG L F t" by (auto simp: totals_ok_def)
    with True 2(2,5) show ?thesis by auto
  next
    case False
    have ns: "ds_state st F \<noteq> Some Visiting" using nv by (simp add: visiting_def)
    let ?st = "st\<lparr>ds_state := (ds_state st)(F \<mapsto> Visiting)\<rparr>"
    obtain m st1 where c: "dfsCallees n CG L (callees CG F) emptyEstimate ?st = Some (m, st1)"
      and e: "e = \<lparr>se_bytes = se_bytes (localEstimate L F) + se_bytes m,
                   se_unknown = (se_unknown (localEstimate L F) \<or> se_unknown m)\<rparr>"
      and st': "st' = \<lparr>ds_state = (ds_state st1)(F \<mapsto> Visited), ds_total = (ds_total st1)(F \<mapsto> e)\<rparr>"
      using 2(2) False ns by (auto simp: Let_def split: option.splits)
    have "totals_ok CG L ?st" using 2(5) by (simp add: totals_ok_def)
    moreover have "\<forall>c \<in> set (callees CG F). \<forall>g \<in> visiting ?st. (g, c) \<in> (edges (callees CG))\<^sup>+"
      using 2(7) by (auto simp: visiting_enter intro: trancl_into_trancl)
    moreover have "set (callees CG F) \<subseteq> U" using closed 2(3,6) by simp
    ultimately have ih: "totals_ok CG L st1" "longest_of CG L (set (callees CG F)) m"
      "\<forall>g. ds_state ?st g = Some Visited \<longrightarrow> ds_state st1 g = Some Visited" "visiting st1 = visiting ?st"
      using 2(1) [OF ns False c 2(3,4) _ _ _ longest_of_empty] by auto
    have l: "longest CG L F e" unfolding e
      using nov [OF 2(6)] 2(3,4) by (intro longest_step [OF ih(2)]) auto
    have "totals_ok CG L st'" using ih(1) l unfolding totals_ok_def st' by auto
    moreover have "\<forall>g. ds_state st g = Some Visited \<longrightarrow> ds_state st' g = Some Visited"
      using ih(3) False unfolding st' by auto
    moreover have "visiting st' = visiting st"
      unfolding st' visiting_leave ih(4) visiting_enter using nv by auto
    ultimately show ?thesis using l by (simp add: st')
  qed
next
  case (3 n CG L m st)
  then show ?case by simp
next
  case (4 n CG L c cs m st)
  obtain e1 st1 where d: "dfsComputeStack n CG L c st = Some (e1, st1)"
    and r: "dfsCallees n CG L cs (maxEstimate m e1) st1 = Some (e, st')"
    using 4(3) by (auto split: option.splits)
  have a: "totals_ok CG L st1" "longest CG L c e1"
    "\<forall>g. ds_state st g = Some Visited \<longrightarrow> ds_state st1 g = Some Visited" "visiting st1 = visiting st"
    using 4(1) [OF d 4(4,5,6)] 4(7,8) by auto
  have "totals_ok CG L st' \<and> longest_of CG L (insert c A \<union> set cs) e \<and>
      (\<forall>g. ds_state st1 g = Some Visited \<longrightarrow> ds_state st' g = Some Visited) \<and> visiting st' = visiting st1"
    using 4(7,8) a by (intro 4(2) [OF d refl r 4(4,5) a(1)] longest_of_insert [OF 4(9)]) auto
  with a show ?case by simp
qed

lemma dfs_frame:
  "dfsComputeStack n CG L F st = Some (e, st') \<Longrightarrow>
     ds_state st' g = ds_state st g \<or> ds_state st' g = Some Visited"
  "dfsCallees n CG L cs m st = Some (e, st') \<Longrightarrow>
     ds_state st' g = ds_state st g \<or> ds_state st' g = Some Visited"
proof (induction n CG L F st and n CG L cs m st arbitrary: e st' and e st'
    rule: dfsComputeStack_dfsCallees.induct)
  case (2 n CG L F st)
  show ?case
  proof (cases "ds_state st F = Some Visiting \<or> ds_state st F = Some Visited")
    case False
    with 2(2) obtain m st1 where
      c: "dfsCallees n CG L (callees CG F) emptyEstimate (st\<lparr>ds_state := (ds_state st)(F \<mapsto> Visiting)\<rparr>) = Some (m, st1)"
      and st': "ds_state st' = (ds_state st1)(F \<mapsto> Visited)"
      by (auto simp: Let_def split: option.splits)
    from 2(1) [OF _ _ c] False st' show ?thesis by (cases "g = F") auto
  qed (use 2(2) in auto)
next
  case (4 n CG L c cs m st)
  then obtain e1 st1 where d: "dfsComputeStack n CG L c st = Some (e1, st1)"
    and r: "dfsCallees n CG L cs (maxEstimate m e1) st1 = Some (e, st')"
    by (auto split: option.splits)
  from 4(1) [OF d] 4(2) [OF d refl r] show ?case by auto
qed simp_all

lemma visitNodes_longest:
  assumes acyc: "acyclic (edges (callees CG))"
    and nov: "\<And>F p. F \<in> U \<Longrightarrow> call_chain CG F p \<Longrightarrow> chainBytes L p < 2 ^ 64"
    and closed: "\<And>f. f \<in> U \<Longrightarrow> set (callees CG f) \<subseteq> U"
    and fuel: "finite U" "card U < n"
  shows "set Fs \<subseteq> U \<Longrightarrow> totals_ok CG L st \<Longrightarrow> visiting st = {} \<Longrightarrow>
     \<forall>F \<in> set Fs. ds_state st F \<in> {Some NotVisited, Some Visited} \<Longrightarrow>
     \<exists>st'. visitNodes n CG L Fs st = Some st' \<and> totals_ok CG L st' \<and>
       (\<forall>F. ds_state st F = Some Visited \<or> F \<in> set Fs \<longrightarrow> ds_state st' F = Some Visited)"
proof (induction Fs arbitrary: st)
  case (Cons F Fs)
  show ?case
  proof (cases "ds_state st F = Some NotVisited")
    case False
    with Cons.prems have "ds_state st F = Some Visited" by auto
    moreover obtain st' where "visitNodes n CG L Fs st = Some st'" "totals_ok CG L st'"
      "\<forall>F. ds_state st F = Some Visited \<or> F \<in> set Fs \<longrightarrow> ds_state st' F = Some Visited"
      using Cons.IH [OF _ Cons.prems(2,3)] Cons.prems(1,4) by auto
    ultimately show ?thesis using False by (intro exI [of _ st']) auto
  next
    case True
    obtain e st1 where d: "dfsComputeStack n CG L F st = Some (e, st1)"
      using dfs_total(1) [OF fuel(1) closed, of F st n L] Cons.prems(1,3) fuel(2) by auto
    have a: "totals_ok CG L st1" "ds_state st1 F = Some Visited"
      "\<forall>g. ds_state st g = Some Visited \<longrightarrow> ds_state st1 g = Some Visited" "visiting st1 = {}"
      using dfs_longest(1) [where U = U, OF acyc nov closed d refl refl Cons.prems(2)] Cons.prems(1,3) by auto
    have "\<forall>G \<in> set Fs. ds_state st1 G \<in> {Some NotVisited, Some Visited}"
    proof
      fix G assume "G \<in> set Fs"
      with Cons.prems(4) dfs_frame(1) [OF d, of G]
      show "ds_state st1 G \<in> {Some NotVisited, Some Visited}" by auto
    qed
    then obtain st' where "visitNodes n CG L Fs st1 = Some st'" "totals_ok CG L st'"
      "\<forall>F. ds_state st1 F = Some Visited \<or> F \<in> set Fs \<longrightarrow> ds_state st' F = Some Visited"
      using Cons.IH [OF _ a(1,4)] Cons.prems(1) by auto
    with a d True show ?thesis by (intro exI [of _ st']) auto
  qed
qed simp

lemma globalTotals_longest:
  assumes "acyclic (edges (callees CG))" and "finite U" and "card U < n" and "set nodes \<subseteq> U"
    and "\<And>f. f \<in> U \<Longrightarrow> set (callees CG f) \<subseteq> U" and "(\<Sum>f \<in> U. localBytes L f) < 2 ^ 64"
  shows "\<exists>totals. globalTotals n CG L nodes = Some totals \<and>
           (\<forall>F \<in> set nodes. \<exists>e. totals F = Some e \<and> longest CG L F e)"
proof -
  let ?st = "\<lparr>ds_state = (\<lambda>f. if f \<in> set nodes then Some NotVisited else None), ds_total = Map.empty\<rparr>"
  have nov: "chainBytes L p < 2 ^ 64" if "F \<in> U" "call_chain CG F p" for F p
    using chain_sum_le [OF that(2) assms(1,2) that(1) assms(5), of L] assms(6) by simp
  have "totals_ok CG L ?st" "visiting ?st = {}" by (auto simp: totals_ok_def visiting_def)
  then have "\<exists>st'. visitNodes n CG L nodes ?st = Some st' \<and> totals_ok CG L st' \<and>
      (\<forall>F. ds_state ?st F = Some Visited \<or> F \<in> set nodes \<longrightarrow> ds_state st' F = Some Visited)"
    by (intro visitNodes_longest [where U = U] assms(1-5) nov) simp_all
  then obtain st' where "visitNodes n CG L nodes ?st = Some st'" "totals_ok CG L st'"
    "\<forall>F \<in> set nodes. ds_state st' F = Some Visited" by blast
  then show ?thesis by (auto simp: globalTotals_def totals_ok_def)
qed

lemma bestCallee_spec:
  "bestCallee totals cs best = Some (c, e) \<Longrightarrow>
     (c \<in> set cs \<and> e = (case totals c of None \<Rightarrow> emptyEstimate | Some t \<Rightarrow> t) \<or> best = Some (c, e)) \<and>
     (\<forall>d \<in> set cs. unat (se_bytes (case totals d of None \<Rightarrow> emptyEstimate | Some t \<Rightarrow> t)) \<le> unat (se_bytes e)) \<and>
     (\<forall>d b. best = Some (d, b) \<longrightarrow> unat (se_bytes b) \<le> unat (se_bytes e))"
proof (induction totals cs best rule: bestCallee.induct)
  case (2 totals d cs best)
  let ?est = "case totals d of None \<Rightarrow> emptyEstimate | Some t \<Rightarrow> t"
  show ?case
  proof (cases best)
    case None
    with 2(1) [OF refl None] 2(4) show ?thesis by (auto simp: Let_def)
  next
    case (Some db)
    obtain b0 b where db: "db = (b0, b)" by fastforce
    show ?thesis
    proof (cases "se_bytes ?est > se_bytes b")
      case True
      then have "unat (se_bytes b) \<le> unat (se_bytes ?est)" by (simp add: word_less_nat_alt)
      with 2(2) [OF refl Some db [symmetric] True] 2(4) Some db True show ?thesis by (auto simp: Let_def)
    next
      case False
      then have "unat (se_bytes ?est) \<le> unat (se_bytes b)" by (simp add: word_less_nat_alt)
      with 2(3) [OF refl Some db [symmetric] False] 2(4) Some db False show ?thesis
        by (auto simp: Let_def)
    qed
  qed
qed auto

lemma bestCallee_None: "bestCallee totals cs best = None \<longleftrightarrow> cs = [] \<and> best = None"
  by (induction totals cs best rule: bestCallee.induct) (auto simp: Let_def split: option.splits)

lemma longest_no_callee_bytes:
  assumes "longest CG L F e"
    and "\<And>c. c \<in> set (callees CG F) \<Longrightarrow> \<exists>b. longest CG L c b \<and> unat (se_bytes b) \<le> k"
  shows "unat (se_bytes e) \<le> localBytes L F + k"
proof -
  obtain p where p: "call_chain CG F p" "chainBytes L p = unat (se_bytes e)"
    using assms(1) unfolding longest_def by blast
  from p(1) show ?thesis
  proof (cases rule: call_chain.cases)
    case chain_single
    with p(2) show ?thesis by (simp add: chainBytes_def)
  next
    case (chain_call c q)
    then obtain b where "longest CG L c b" "unat (se_bytes b) \<le> k" using assms(2) by blast
    with chain_call(3) have "chainBytes L q \<le> k" unfolding longest_def by (meson order.trans)
    with chain_call(1) p(2) show ?thesis by (simp add: chainBytes_def)
  qed
qed

lemma maxStackCallPath_longest:
  assumes acyc: "acyclic (edges (callees CG))" and fin: "finite U"
    and closed: "\<And>f. f \<in> U \<Longrightarrow> set (callees CG f) \<subseteq> U"
    and totals: "\<And>f. f \<in> U \<Longrightarrow> \<exists>e. totals f = Some e \<and> longest CG L f e"
  shows "F \<in> U \<Longrightarrow> visited \<subseteq> U \<Longrightarrow> \<forall>v \<in> visited. (v, F) \<in> (edges (callees CG))\<^sup>+ \<Longrightarrow>
    card (U - visited) < n \<Longrightarrow>
    \<exists>p. maxStackCallPath n CG totals visited F = Some p \<and> call_chain CG F p \<and>
        chainBytes L p = unat (se_bytes (the (totals F)))"
proof (induction n arbitrary: visited F)
  case (Suc n)
  obtain e where e: "totals F = Some e" "longest CG L F e" using totals [OF Suc.prems(1)] by blast
  have nv: "F \<notin> visited" using Suc.prems(3) acyc by (auto simp: acyclic_def)
  have single: "chainBytes L [F] \<le> unat (se_bytes e)" "call_chain CG F [F]"
    using e(2) chain_single [of CG F] unfolding longest_def by blast+
  have stop: ?case if "maxStackCallPath (Suc n) CG totals visited F = Some [F]"
      "unat (se_bytes e) \<le> localBytes L F"
    using single that e(1) by (simp add: chainBytes_def)
  show ?case
  proof (cases "CG F")
    case None
    then have "callees CG F = []" by (simp add: callees_def)
    then have "unat (se_bytes e) \<le> localBytes L F" using longest_no_callee_bytes [OF e(2), of 0] by simp
    with None nv show ?thesis by (intro stop) simp_all
  next
    case (Some cs)
    then have cs: "callees CG F = cs" by (simp add: callees_def)
    show ?thesis
    proof (cases "bestCallee totals cs None")
      case None
      then have "cs = []" by (simp add: bestCallee_None)
      then have "unat (se_bytes e) \<le> localBytes L F"
        using longest_no_callee_bytes [OF e(2), of 0] cs by simp
      with Some None nv show ?thesis by (intro stop) simp_all
    next
      case best: (Some ce)
      obtain c est where ce: "ce = (c, est)" by fastforce
      note b = bestCallee_spec [OF best [unfolded ce]]
      have c: "c \<in> set cs" "est = (case totals c of None \<Rightarrow> emptyEstimate | Some t \<Rightarrow> t)" using b by auto
      have sub: "set cs \<subseteq> U" using closed [OF Suc.prems(1)] cs by simp
      obtain ec where ec: "totals c = Some ec" "longest CG L c ec" using totals c(1) sub by blast
      have "est = ec" using c(2) ec(1) by simp
      have up: "unat (se_bytes e) \<le> localBytes L F + unat (se_bytes est)"
      proof (rule longest_no_callee_bytes [OF e(2)])
        fix d assume "d \<in> set (callees CG F)"
        then have "d \<in> set cs" by (simp add: cs)
        with totals sub obtain ed where "totals d = Some ed" "longest CG L d ed" by blast
        with b \<open>d \<in> set cs\<close> show "\<exists>b. longest CG L d b \<and> unat (se_bytes b) \<le> unat (se_bytes est)"
          by fastforce
      qed
      show ?thesis
      proof (cases "se_bytes est = 0")
        case True
        with up Some best ce nv show ?thesis by (intro stop) simp_all
      next
        case False
        have "U - insert F visited = (U - visited) - {F}" by auto
        then have card: "card (U - insert F visited) < n"
          using Suc.prems(1,4) nv fin card_Diff1_less [of "U - visited" F] by auto
        have "\<forall>v \<in> insert F visited. (v, c) \<in> (edges (callees CG))\<^sup>+"
          using Suc.prems(3) c(1) cs by (auto intro: trancl_into_trancl)
        then obtain p where p: "maxStackCallPath n CG totals (insert F visited) c = Some p"
          "call_chain CG c p" "chainBytes L p = unat (se_bytes ec)"
          using Suc.IH [OF _ _ _ card, of c] Suc.prems(1,2) c(1) sub ec(1) by auto
        have "call_chain CG F (F # p)" using p(2) c(1) cs by (intro chain_call) simp_all
        moreover from this have "chainBytes L (F # p) \<le> unat (se_bytes e)"
          using e(2) unfolding longest_def by blast
        moreover have "chainBytes L (F # p) = localBytes L F + unat (se_bytes est)"
          using p(3) \<open>est = ec\<close> by (simp add: chainBytes_def)
        moreover have "maxStackCallPath (Suc n) CG totals visited F = Some (F # p)"
          using Some best ce False nv p(1) by simp
        ultimately show ?thesis using up e(1) by auto
      qed
    qed
  qed
qed simp

section \<open>Frames\<close>

lemma addInstruction_sum:
  "ls_bytes (fold addInstruction is info) = ls_bytes info + sum_list (map snd (drop (length (ls_localAllocas info))
      (ls_localAllocas (fold addInstruction is info)))) \<and>
   (\<exists>new. ls_localAllocas (fold addInstruction is info) = ls_localAllocas info @ new)"
proof (induction "is" arbitrary: info)
  case (Cons i "is")
  let ?i = "addInstruction i info"
  obtain new where new: "ls_localAllocas (fold addInstruction is ?i) = ls_localAllocas ?i @ new"
    using Cons.IH [of ?i] by blast
  have first: "\<exists>own. ls_localAllocas ?i = ls_localAllocas info @ own \<and>
      ls_bytes ?i = ls_bytes info + sum_list (map snd own)"
    by (cases "(i, info)" rule: addInstruction.cases) auto
  then obtain own where own: "ls_localAllocas ?i = ls_localAllocas info @ own"
    "ls_bytes ?i = ls_bytes info + sum_list (map snd own)" by blast
  have "ls_bytes (fold addInstruction is ?i) = ls_bytes ?i + sum_list (map snd new)"
    using Cons.IH [of ?i] new by simp
  with own new show ?case by (simp add: add.assoc)
qed simp

lemma base_bytes_sum:
  "ls_bytes (computeLocalStackBase F) = sum_list (map snd (ls_localAllocas (computeLocalStackBase F)))"
  using addInstruction_sum [of "lf_instructions F"
      "\<lparr>ls_bytes = 0, ls_localAllocas = [], ls_unknown = False, ls_hasDynamicAlloca = False\<rparr>"]
  by (simp add: computeLocalStackBase_def)

text \<open>What LLVM documents of \<open>alignTo\<close>: the least multiple that is not below the value.\<close>

definition aligns :: "(u64 \<Rightarrow> u64 \<Rightarrow> u64) \<Rightarrow> bool" where
  "aligns alignTo \<longleftrightarrow>
     (\<forall>v a. 0 < a \<and> unat v + unat a < 2 ^ 64 \<longrightarrow>
        unat a dvd unat (alignTo v a) \<and> v \<le> alignTo v a \<and> unat (alignTo v a) < unat v + unat a)"

lemma computeLocalStackABI_frame:
  assumes "aligns alignTo" and "MA = Some a" and "1 < a"
    and "unat (ls_bytes (computeLocalStackBase F)) + 3 * unat a < 2 ^ 64"
  shows "unat a dvd unat (ls_bytes (computeLocalStackABI alignTo MA isDecl F)) \<and>
    unat (ls_bytes (computeLocalStackBase F)) +
      (if hasNonSelfCall isDecl F then unat a else 0) \<le> unat (ls_bytes (computeLocalStackABI alignTo MA isDecl F)) \<and>
    (\<not> lf_isDeclaration F \<longrightarrow> a \<le> ls_bytes (computeLocalStackABI alignTo MA isDecl F))"
proof -
  let ?b = "ls_bytes (computeLocalStackBase F)"
  have a: "0 < a" "stackAlignOf MA = a" "0 < unat a" using assms(2,3) by (auto simp: stackAlignOf_def word_less_nat_alt)
  let ?f1 = "alignTo ?b a"
  have f1: "unat a dvd unat ?f1" "unat ?b \<le> unat ?f1" "unat ?f1 < unat ?b + unat a"
    using assms(1,4) a(1) by (simp_all add: aligns_def word_le_nat_alt)
  define f2 where "f2 = (if \<not> lf_isDeclaration F \<and> ?f1 < a then a else ?f1)"
  have f2: "unat a dvd unat f2" "unat ?b \<le> unat f2" "unat f2 \<le> unat ?b + unat a"
      "\<not> lf_isDeclaration F \<longrightarrow> unat a \<le> unat f2"
    using f1 by (auto simp: f2_def word_less_nat_alt)
  show ?thesis
  proof (cases "hasNonSelfCall isDecl F")
    case False
    then have "ls_bytes (computeLocalStackABI alignTo MA isDecl F) = f2"
      using a assms(3) by (simp add: computeLocalStackABI_def Let_def f2_def)
    with f2 False show ?thesis by (simp add: word_le_nat_alt)
  next
    case True
    have sum: "unat (f2 + a) = unat f2 + unat a" using f2(3) assms(4) by (intro u64_add_exact) simp
    have "unat a dvd unat (alignTo (f2 + a) a)" "unat (f2 + a) \<le> unat (alignTo (f2 + a) a)"
      using assms(1) [unfolded aligns_def, rule_format, of a "f2 + a"] assms(4) a(1) f2(3) sum
      by (simp_all add: word_le_nat_alt)
    moreover have "ls_bytes (computeLocalStackABI alignTo MA isDecl F) = alignTo (f2 + a) a"
      using a assms(3) True by (simp add: computeLocalStackABI_def Let_def f2_def)
    ultimately show ?thesis using f2 sum True by (simp add: word_le_nat_alt)
  qed
qed

section \<open>Properties\<close>

text \<open>
  C6: On a call graph without cycles whose local frames fit into 64 bits together, the search
  returns for every function its local bytes plus those of the most expensive chain of
  calls below it: no chain of calls needs more, and one needs exactly that much. The
  estimate is marked unknown exactly when a function of unknown size can be reached.
\<close>

theorem total_is_longest_call_chain:
  assumes "acyclic (edges (callees CG))" and "finite U" and "card U < n" and "set nodes \<subseteq> U"
    and "\<And>f. f \<in> U \<Longrightarrow> set (callees CG f) \<subseteq> U" and "(\<Sum>f \<in> U. localBytes L f) < 2 ^ 64"
  shows "\<exists>totals. globalTotals n CG L nodes = Some totals \<and>
           (\<forall>F \<in> set nodes. \<exists>e. totals F = Some e \<and> longest CG L F e)"
  using assms by (rule globalTotals_longest)

text \<open>\<open>main\<close> (0) calls 1 and 2, and 1 calls 2.\<close>

definition small_graph :: "nat CallGraph" where
  "small_graph = [0 \<mapsto> [1, 2], 1 \<mapsto> [2], 2 \<mapsto> []]"

definition small_locals :: "nat \<rightharpoonup> LocalStackInfo" where
  "small_locals = (\<lambda>f. if f < 3 then Some \<lparr>ls_bytes = 16 * of_nat (f + 1), ls_localAllocas = [],
     ls_unknown = False, ls_hasDynamicAlloca = False\<rparr> else None)"

lemma small_graph_ok: "acyclic (edges (callees small_graph))" "\<And>f. set (callees small_graph f) \<subseteq> {0, 1, 2}"
  "(\<Sum>f \<in> {0, 1, 2 :: nat}. localBytes small_locals f) < 2 ^ 64"
proof -
  have "edges (callees small_graph) \<subseteq> less_than"
    by (auto simp: small_graph_def callees_def split: if_splits)
  then show "acyclic (edges (callees small_graph))"
    by (rule acyclic_subset [OF wf_acyclic [OF wf_less_than]])
  show "set (callees small_graph f) \<subseteq> {0, 1, 2}" for f
    by (auto simp: small_graph_def callees_def)
  show "(\<Sum>f \<in> {0, 1, 2 :: nat}. localBytes small_locals f) < 2 ^ 64"
    by (simp add: localBytes_def small_locals_def localEstimate_def)
qed

theorem total_is_longest_call_chain_witness:
  "\<exists>totals e. globalTotals 4 small_graph small_locals [0, 1, 2] = Some totals \<and> totals 0 = Some e \<and>
     chainBytes small_locals [0, 1, 2] \<le> unat (se_bytes e)"
proof -
  obtain totals where t: "globalTotals 4 small_graph small_locals [0, 1, 2] = Some totals"
    "\<forall>F \<in> set [0, 1, 2]. \<exists>e. totals F = Some e \<and> longest small_graph small_locals F e"
    using total_is_longest_call_chain [of small_graph "{0, 1, 2}" 4 "[0, 1, 2]" small_locals] small_graph_ok
    by auto
  then obtain e where e: "totals 0 = Some e" "longest small_graph small_locals 0 e" by auto
  have "call_chain small_graph 0 [0, 1, 2]"
    by (auto simp: call_chain_Cons callees_def small_graph_def intro!: call_chain.intros)
  with t(1) e show ?thesis unfolding longest_def by blast
qed

text \<open>
  C14: When the call graph has no cycle and the local bytes of all functions add up to less than
  \<open>2 ^ 64\<close>, the call path the analyzer prints for a function is a chain of calls from that
  function whose local bytes add up to exactly the reported maximum. Graphs with a cycle are not
  covered; there the printed chain need not add up to the total.
\<close>

theorem printed_path_attains_the_maximum:
  assumes "acyclic (edges (callees CG))" and "card (set nodes) < n"
    and "\<And>f. f \<in> set nodes \<Longrightarrow> set (callees CG f) \<subseteq> set nodes"
    and "(\<Sum>f \<in> set nodes. localBytes L f) < 2 ^ 64"
    and "globalTotals n CG L nodes = Some totals" and "F \<in> set nodes"
  shows "\<exists>p. maxStackCallPath n CG totals {} F = Some p \<and> call_chain CG F p \<and>
           chainBytes L p = unat (se_bytes (the (totals F)))"
proof -
  have t: "\<And>f. f \<in> set nodes \<Longrightarrow> \<exists>e. totals f = Some e \<and> longest CG L f e"
    using globalTotals_longest [OF assms(1) _ assms(2) subset_refl assms(3,4)] assms(5) by auto
  show ?thesis
    using maxStackCallPath_longest [OF assms(1) _ assms(3) t assms(6), of "{}" n] assms(2) by simp
qed

theorem printed_path_attains_the_maximum_witness:
  "\<exists>totals p. globalTotals 4 small_graph small_locals [0, 1, 2] = Some totals \<and>
     maxStackCallPath 4 small_graph totals {} 0 = Some p \<and> chainBytes small_locals p = unat (se_bytes (the (totals 0)))"
proof -
  obtain totals where t: "globalTotals 4 small_graph small_locals [0, 1, 2] = Some totals"
    using globalTotals_longest [of small_graph "{0, 1, 2}" 4 "[0, 1, 2]" small_locals] small_graph_ok by auto
  with printed_path_attains_the_maximum [of small_graph "[0, 1, 2]" 4 small_locals totals 0] small_graph_ok
  show ?thesis by auto
qed

text \<open>
  C16: In ABI mode, for a module with a stack alignment above 1 and locals that leave 64 bits
  room for three units of it, the frame of a function is a multiple of the alignment and covers
  its local variables; it has one alignment unit more when the function directly calls another
  function with a body in the module (a call of a declared function such as \<open>printf\<close>, of an
  indirect target or of itself adds nothing), and is at least one unit for every definition.
\<close>

theorem abi_frame_covers_locals:
  assumes "aligns alignTo" and "MA = Some a" and "1 < a"
    and "unat (ls_bytes (computeLocalStackBase F)) + 3 * unat a < 2 ^ 64"
  shows "unat a dvd unat (ls_bytes (computeLocalStackABI alignTo MA isDecl F)) \<and>
    unat (ls_bytes (computeLocalStackBase F)) +
      (if hasNonSelfCall isDecl F then unat a else 0) \<le> unat (ls_bytes (computeLocalStackABI alignTo MA isDecl F)) \<and>
    (\<not> lf_isDeclaration F \<longrightarrow> a \<le> ls_bytes (computeLocalStackABI alignTo MA isDecl F))"
  using assms by (rule computeLocalStackABI_frame)

text \<open>Rounding up by division, as an instance of the alignment helper.\<close>

definition roundUp :: "u64 \<Rightarrow> u64 \<Rightarrow> u64" where
  "roundUp v a = of_nat ((unat v + unat a - 1) div unat a * unat a)"

lemma roundUp_aligns: "aligns roundUp"
  unfolding aligns_def
proof (intro allI impI)
  fix v a :: u64
  assume h: "0 < a \<and> unat v + unat a < 2 ^ 64"
  then have a: "0 < unat a" by (simp add: word_less_nat_alt)
  let ?n = "(unat v + unat a - 1) div unat a * unat a"
  have up: "?n \<le> unat v + unat a - 1" by simp
  have "(unat v + unat a - 1) mod unat a < unat a" using a by simp
  then have low: "unat v \<le> ?n" using div_mult_mod_eq [of "unat v + unat a - 1" "unat a"] by linarith
  have "unat (roundUp v a) = ?n"
  proof -
    have "?n < 2 ^ 64" using up h by linarith
    then show ?thesis unfolding roundUp_def unsigned_of_nat by (simp add: take_bit_nat_eq_self)
  qed
  moreover have "?n < unat v + unat a" using up a by linarith
  ultimately show "unat a dvd unat (roundUp v a) \<and> v \<le> roundUp v a \<and> unat (roundUp v a) < unat v + unat a"
    using low by (simp add: word_le_nat_alt)
qed

theorem abi_frame_covers_locals_witness:
  "16 dvd unat (ls_bytes (computeLocalStackABI roundUp (Some 16) (\<lambda>_. False)
     \<lparr>lf_id = (0 :: nat), lf_isDeclaration = False,
      lf_instructions = [AllocaInst ''x'' 4 (Some 5), CallInst (Some 1)]\<rparr>))"
  using abi_frame_covers_locals [OF roundUp_aligns refl, of 16
      "\<lparr>lf_id = (0 :: nat), lf_isDeclaration = False,
        lf_instructions = [AllocaInst ''x'' 4 (Some 5), CallInst (Some 1)]\<rparr>" "\<lambda>_. False"]
  by (simp add: computeLocalStackBase_def)

text \<open>
  Inside a cycle of calls the stored total depends on where the search entered the cycle
  and can miss a chain: when 0 and 1 call each other, 0 also calls 2, and the search starts
  at 0, then the total of 1 leaves out the chain from 1 through 0 to 2.
\<close>

theorem cycle_total_misses_a_chain:
  "\<exists>totals e. globalTotals 4 [0 \<mapsto> [1, 2], 1 \<mapsto> [0], 2 \<mapsto> []] small_locals [0, 1, 2 :: nat] = Some totals \<and>
     totals 1 = Some e \<and> call_chain [0 \<mapsto> [1, 2], 1 \<mapsto> [0], 2 \<mapsto> []] 1 [1, 0, 2 :: nat] \<and>
     unat (se_bytes e) < chainBytes small_locals [1, 0, 2]"
proof -
  let ?CG = "[0 \<mapsto> [1, 2], 1 \<mapsto> [0], 2 \<mapsto> []] :: nat CallGraph"
  have "map_option (\<lambda>t. map_option se_bytes (t 1)) (globalTotals 4 ?CG small_locals [0, 1, 2]) = Some (Some 48)"
    by code_simp
  then obtain totals e where "globalTotals 4 ?CG small_locals [0, 1, 2] = Some totals" "totals 1 = Some e"
    "se_bytes e = 48" by auto
  moreover have "call_chain ?CG 1 [1, 0, 2]"
    by (auto simp: call_chain_Cons callees_def intro!: call_chain.intros)
  moreover have "chainBytes small_locals [1, 0, 2] = 96"
    by (simp add: chainBytes_def localBytes_def small_locals_def localEstimate_def)
  ultimately show ?thesis by auto
qed

end
