(* ===== verification/CallCycles.thy ===== *)
theory CallCycles
  imports StackUsage
begin

text \<open>
  Recursive functions: Tarjan's algorithm as \<open>src/analysis/StackComputation.cpp\<close> runs it
  (\<open>strongConnect\<close>, \<open>computeRecursiveFunctions\<close>, \<open>computeRecursiveComponents\<close>). The stack is
  a list whose head is the back of the vector; functions under a \<open>norecurse\<close> contract are
  left out. The recursion takes fuel; one more than the number of functions is enough.
  The main result: the reported set is exactly the set of functions on a cycle of calls
  between functions without the contract.
\<close>

section \<open>The algorithm\<close>

record 'f TarjanState =
  ts_index :: "'f \<rightharpoonup> int"
  ts_lowlink :: "'f \<rightharpoonup> int"
  ts_stack :: "'f list"
  ts_onStack :: "'f set"
  ts_recursive :: "'f set"
  ts_components :: "'f list list"
  ts_nextIndex :: int

definition emptyTarjan :: "'f TarjanState" where
  "emptyTarjan = \<lparr>ts_index = Map.empty, ts_lowlink = Map.empty, ts_stack = [], ts_onStack = {},
     ts_recursive = {}, ts_components = [], ts_nextIndex = 0\<rparr>"

text \<open>\<open>operator[]\<close> of the maps: a missing entry reads as 0.\<close>

definition indexOf :: "'f TarjanState \<Rightarrow> 'f \<Rightarrow> int" where
  "indexOf st v = (case ts_index st v of None \<Rightarrow> 0 | Some i \<Rightarrow> i)"

definition lowOf :: "'f TarjanState \<Rightarrow> 'f \<Rightarrow> int" where
  "lowOf st v = (case ts_lowlink st v of None \<Rightarrow> 0 | Some i \<Rightarrow> i)"

definition enterNode :: "'f \<Rightarrow> 'f TarjanState \<Rightarrow> 'f TarjanState" where
  "enterNode V st =
     st\<lparr>ts_index := (ts_index st)(V \<mapsto> ts_nextIndex st), ts_lowlink := (ts_lowlink st)(V \<mapsto> ts_nextIndex st),
        ts_nextIndex := ts_nextIndex st + 1, ts_stack := V # ts_stack st,
        ts_onStack := insert V (ts_onStack st)\<rparr>"

definition lowerLink :: "'f \<Rightarrow> int \<Rightarrow> 'f TarjanState \<Rightarrow> 'f TarjanState" where
  "lowerLink V i st = st\<lparr>ts_lowlink := (ts_lowlink st)(V \<mapsto> min (lowOf st V) i)\<rparr>"

definition closeComponent :: "('f \<Rightarrow> bool) \<Rightarrow> 'f CallGraph \<Rightarrow> 'f \<Rightarrow> 'f TarjanState \<Rightarrow> 'f TarjanState" where
  "closeComponent noRecurse CG V st =
     (if lowOf st V = indexOf st V
      then
        let component = takeWhile (\<lambda>W. W \<noteq> V) (ts_stack st) @ [V];
            st' = st\<lparr>ts_stack := drop (length component) (ts_stack st),
                     ts_onStack := ts_onStack st - set component\<rparr>
        in if length component > 1
           then st'\<lparr>ts_recursive := ts_recursive st \<union> set component,
                    ts_components := ts_components st @ [component]\<rparr>
           else if hasSelfCall noRecurse CG V
           then st'\<lparr>ts_recursive := insert V (ts_recursive st),
                    ts_components := ts_components st @ [component]\<rparr>
           else st'
      else st)"

function (sequential) strongConnect ::
    "nat \<Rightarrow> ('f \<Rightarrow> bool) \<Rightarrow> 'f CallGraph \<Rightarrow> 'f \<Rightarrow> 'f TarjanState \<Rightarrow> 'f TarjanState option"
  and connectCallees ::
    "nat \<Rightarrow> ('f \<Rightarrow> bool) \<Rightarrow> 'f CallGraph \<Rightarrow> 'f \<Rightarrow> 'f list \<Rightarrow> 'f TarjanState \<Rightarrow> 'f TarjanState option"
where
  "strongConnect 0 noRecurse CG V st = None"
| "strongConnect (Suc n) noRecurse CG V st =
     map_option (closeComponent noRecurse CG V)
       (if noRecurse V then Some (enterNode V st)
        else connectCallees n noRecurse CG V (callees CG V) (enterNode V st))"
| "connectCallees n noRecurse CG V [] st = Some st"
| "connectCallees n noRecurse CG V (W # Ws) st =
     (if noRecurse W then connectCallees n noRecurse CG V Ws st
      else if ts_index st W = None
      then (case strongConnect n noRecurse CG W st of
              None \<Rightarrow> None
            | Some st' \<Rightarrow> connectCallees n noRecurse CG V Ws (lowerLink V (lowOf st' W) st'))
      else if W \<in> ts_onStack st
      then connectCallees n noRecurse CG V Ws (lowerLink V (indexOf st W) st)
      else connectCallees n noRecurse CG V Ws st)"
  by pat_completeness auto
termination
  by (relation "measures
        [\<lambda>c. (case c of Inl (n, _) \<Rightarrow> n | Inr (n, _) \<Rightarrow> n),
         \<lambda>c. (case c of Inl _ \<Rightarrow> 0 | Inr (_, _, _, _, Ws, _) \<Rightarrow> Suc (length Ws))]") auto

fun connectNodes ::
    "nat \<Rightarrow> ('f \<Rightarrow> bool) \<Rightarrow> 'f CallGraph \<Rightarrow> 'f list \<Rightarrow> 'f TarjanState \<Rightarrow> 'f TarjanState option" where
  "connectNodes n noRecurse CG [] st = Some st"
| "connectNodes n noRecurse CG (V # Vs) st =
     (if noRecurse V then connectNodes n noRecurse CG Vs st
      else if ts_index st V = None
      then (case strongConnect n noRecurse CG V st of
              None \<Rightarrow> None | Some st' \<Rightarrow> connectNodes n noRecurse CG Vs st')
      else connectNodes n noRecurse CG Vs st)"

definition computeRecursiveFunctions ::
    "nat \<Rightarrow> ('f \<Rightarrow> bool) \<Rightarrow> 'f CallGraph \<Rightarrow> 'f list \<Rightarrow> 'f set option" where
  "computeRecursiveFunctions n noRecurse CG nodes =
     map_option ts_recursive (connectNodes n noRecurse CG nodes emptyTarjan)"

definition computeRecursiveComponents ::
    "nat \<Rightarrow> ('f \<Rightarrow> bool) \<Rightarrow> 'f CallGraph \<Rightarrow> 'f list \<Rightarrow> 'f list list option" where
  "computeRecursiveComponents n noRecurse CG nodes =
     map_option ts_components (connectNodes n noRecurse CG nodes emptyTarjan)"

text \<open>\<open>computeGlobalStackUsage\<close>: the recursive functions and the totals.\<close>

record 'f InternalAnalysisState =
  ias_TotalStack :: "'f \<rightharpoonup> StackEstimate"
  ias_RecursiveFuncs :: "'f set"

definition computeGlobalStackUsage ::
    "nat \<Rightarrow> ('f \<Rightarrow> bool) \<Rightarrow> 'f CallGraph \<Rightarrow> ('f \<rightharpoonup> LocalStackInfo) \<Rightarrow> 'f list \<Rightarrow>
     'f InternalAnalysisState option" where
  "computeGlobalStackUsage n noRecurse CG LocalStack nodes =
     (case computeRecursiveFunctions n noRecurse CG nodes of
        None \<Rightarrow> None
      | Some r \<Rightarrow> map_option (\<lambda>t. \<lparr>ias_TotalStack = t, ias_RecursiveFuncs = r\<rparr>)
                    (globalTotals n CG LocalStack nodes))"

section \<open>Invariant\<close>

definition call_edges :: "('f \<Rightarrow> bool) \<Rightarrow> 'f CallGraph \<Rightarrow> ('f \<times> 'f) set" where
  "call_edges noRecurse CG = {(v, w). w \<in> set (callees CG v) \<and> \<not> noRecurse v \<and> \<not> noRecurse w}"

text \<open>The functions whose component is finished.\<close>

definition closedNodes :: "'f TarjanState \<Rightarrow> 'f set" where
  "closedNodes st = dom (ts_index st) - set (ts_stack st)"

definition tarjan_inv :: "('f \<times> 'f) set \<Rightarrow> 'f TarjanState \<Rightarrow> bool" where
  "tarjan_inv E st \<longleftrightarrow>
     ts_onStack st = set (ts_stack st) \<and> set (ts_stack st) \<subseteq> dom (ts_index st) \<and>
     sorted_wrt (\<lambda>x y. indexOf st y < indexOf st x) (ts_stack st) \<and>
     (\<forall>x \<in> dom (ts_index st). indexOf st x < ts_nextIndex st) \<and>
     sorted_wrt (\<lambda>x y. (y, x) \<in> E\<^sup>*) (ts_stack st) \<and>
     (\<forall>x \<in> closedNodes st. \<forall>y. (x, y) \<in> E \<longrightarrow> y \<in> closedNodes st) \<and>
     ts_recursive st \<subseteq> closedNodes st \<and>
     (\<forall>x \<in> closedNodes st. x \<in> ts_recursive st \<longleftrightarrow> (x, x) \<in> E\<^sup>+)"

text \<open>What a call on a fresh node establishes.\<close>

definition connected :: "('f \<times> 'f) set \<Rightarrow> 'f \<Rightarrow> 'f TarjanState \<Rightarrow> 'f TarjanState \<Rightarrow> bool" where
  "connected E V st st' \<longleftrightarrow>
     tarjan_inv E st' \<and>
     (\<forall>x \<in> dom (ts_index st). ts_index st' x = ts_index st x \<and> ts_lowlink st' x = ts_lowlink st x) \<and>
     ts_index st' V = Some (ts_nextIndex st) \<and>
     (\<exists>new. ts_stack st' = new @ ts_stack st \<and>
        (\<forall>y \<in> set new. (\<exists>z \<in> set (ts_stack st). (y, z) \<in> E\<^sup>*) \<and>
           (\<forall>w. (y, w) \<in> E \<longrightarrow> w \<in> dom (ts_index st')) \<and>
           (\<forall>w \<in> set (ts_stack st). (y, w) \<in> E \<longrightarrow> lowOf st' V \<le> indexOf st' w))) \<and>
     (lowOf st' V = ts_nextIndex st \<or>
      (\<exists>z \<in> set (ts_stack st). lowOf st' V = indexOf st' z \<and> (V, z) \<in> E\<^sup>*))"

text \<open>The state of the loop over the callees of \<open>V\<close>; \<open>done\<close> are the callees seen so far.\<close>

definition connecting :: "('f \<times> 'f) set \<Rightarrow> 'f \<Rightarrow> 'f list \<Rightarrow> 'f set \<Rightarrow> 'f TarjanState \<Rightarrow> bool" where
  "connecting E V old seen st \<longleftrightarrow>
     tarjan_inv E st \<and>
     (\<exists>new. ts_stack st = new @ V # old \<and>
        (\<forall>y \<in> set new. (y, V) \<in> E\<^sup>* \<and> (\<forall>w. (y, w) \<in> E \<longrightarrow> w \<in> dom (ts_index st)) \<and>
           (\<forall>w \<in> set old. (y, w) \<in> E \<longrightarrow> lowOf st V \<le> indexOf st w))) \<and>
     (\<forall>w \<in> seen. w \<in> dom (ts_index st) \<and> (w \<in> set old \<longrightarrow> lowOf st V \<le> indexOf st w)) \<and>
     (lowOf st V = indexOf st V \<or> (\<exists>z \<in> set old. lowOf st V = indexOf st z \<and> (V, z) \<in> E\<^sup>*))"

section \<open>Correctness\<close>

lemma lowerLink_simps [simp]:
  "ts_index (lowerLink V i st) = ts_index st" "ts_stack (lowerLink V i st) = ts_stack st"
  "ts_onStack (lowerLink V i st) = ts_onStack st" "ts_recursive (lowerLink V i st) = ts_recursive st"
  "ts_nextIndex (lowerLink V i st) = ts_nextIndex st" "indexOf (lowerLink V i st) = indexOf st"
  "closedNodes (lowerLink V i st) = closedNodes st" "tarjan_inv E (lowerLink V i st) = tarjan_inv E st"
  "lowOf (lowerLink V i st) V = min (lowOf st V) i"
  "x \<noteq> V \<Longrightarrow> ts_lowlink (lowerLink V i st) x = ts_lowlink st x"
  by (auto simp: lowerLink_def indexOf_def lowOf_def closedNodes_def tarjan_inv_def fun_eq_iff)

lemma enter_connecting:
  assumes inv: "tarjan_inv E st" and fresh: "V \<notin> dom (ts_index st)"
    and reach: "\<forall>x \<in> set (ts_stack st). (x, V) \<in> E\<^sup>*"
  shows "connecting E V (ts_stack st) {} (enterNode V st)"
proof -
  let ?st = "enterNode V st"
  have idx: "indexOf ?st x = (if x = V then ts_nextIndex st else indexOf st x)" for x
    by (simp add: enterNode_def indexOf_def)
  have vs: "V \<notin> set (ts_stack st)" using inv fresh by (auto simp: tarjan_inv_def)
  have closed: "closedNodes ?st = closedNodes st" using fresh by (auto simp: enterNode_def closedNodes_def)
  have st: "ts_stack ?st = V # ts_stack st" "ts_onStack ?st = insert V (ts_onStack st)"
    "dom (ts_index ?st) = insert V (dom (ts_index st))" "ts_nextIndex ?st = ts_nextIndex st + 1"
    "ts_recursive ?st = ts_recursive st"
    by (simp_all add: enterNode_def)
  have same: "indexOf ?st x = indexOf st x" if "x \<in> set (ts_stack st)" for x
    using that vs by (auto simp: idx)
  have "sorted_wrt (\<lambda>x y. indexOf st y < indexOf st x) (ts_stack st)"
    using inv by (simp add: tarjan_inv_def)
  then have srt: "sorted_wrt (\<lambda>x y. indexOf ?st y < indexOf ?st x) (ts_stack st)"
    by (rule sorted_wrt_mono_rel [rotated]) (simp add: same)
  have "tarjan_inv E ?st"
    unfolding tarjan_inv_def closed st
  proof (intro conjI)
    show "sorted_wrt (\<lambda>x y. indexOf ?st y < indexOf ?st x) (V # ts_stack st)"
      using srt inv vs by (auto simp: idx tarjan_inv_def)
    show "sorted_wrt (\<lambda>x y. (y, x) \<in> E\<^sup>*) (V # ts_stack st)"
      using inv reach by (simp add: tarjan_inv_def)
    show "\<forall>x \<in> insert V (dom (ts_index st)). indexOf ?st x < ts_nextIndex st + 1"
    proof -
      have "\<forall>x \<in> dom (ts_index st). indexOf st x < ts_nextIndex st + 1"
        using inv unfolding tarjan_inv_def by (meson add_strict_increasing order_less_imp_le zero_less_one less_add_one order_less_trans)
      then show ?thesis by (auto simp: idx)
    qed
    show "insert V (ts_onStack st) = set (V # ts_stack st)" "set (V # ts_stack st) \<subseteq> insert V (dom (ts_index st))"
      using inv by (auto simp: tarjan_inv_def)
  qed (use inv in \<open>simp_all add: tarjan_inv_def\<close>)
  moreover have "lowOf ?st V = indexOf ?st V" by (simp add: enterNode_def lowOf_def indexOf_def)
  ultimately show ?thesis by (simp add: connecting_def st)
qed

lemma connecting_order:
  assumes "connecting E V old seen st"
  shows "z \<in> set old \<Longrightarrow> indexOf st z < indexOf st V"
    and "x \<in> set (ts_stack st) \<Longrightarrow> x \<in> set old \<or> indexOf st V \<le> indexOf st x"
    and "x \<in> set (ts_stack st) \<Longrightarrow> (x, V) \<in> E\<^sup>*"
    and "lowOf st V \<le> indexOf st V"
    and "V \<in> set (ts_stack st)"
proof -
  obtain new where new: "ts_stack st = new @ V # old" "\<forall>y \<in> set new. (y, V) \<in> E\<^sup>*"
    using assms by (auto simp: connecting_def)
  have s: "sorted_wrt (\<lambda>x y. indexOf st y < indexOf st x) (new @ V # old)"
    "sorted_wrt (\<lambda>x y. (y, x) \<in> E\<^sup>*) (new @ V # old)"
    using assms new(1) by (auto simp: connecting_def tarjan_inv_def)
  show lt: "indexOf st z < indexOf st V" if "z \<in> set old" for z
    using s(1) that by (auto simp: sorted_wrt_append)
  show "x \<in> set (ts_stack st) \<Longrightarrow> x \<in> set old \<or> indexOf st V \<le> indexOf st x"
    using s(1) new(1) by (auto simp: sorted_wrt_append)
  show "x \<in> set (ts_stack st) \<Longrightarrow> (x, V) \<in> E\<^sup>*"
    using s(2) new by (auto simp: sorted_wrt_append)
  show "lowOf st V \<le> indexOf st V"
    using assms lt by (auto simp: connecting_def intro: less_imp_le)
  show "V \<in> set (ts_stack st)" using new(1) by simp
qed

lemma connecting_lower:
  assumes c: "connecting E V old seen st" and dom: "W \<in> dom (ts_index st)"
    and seen: "W \<in> set old \<Longrightarrow> i \<le> indexOf st W"
    and i: "lowOf st V \<le> i \<or> (\<exists>z \<in> set old. i = indexOf st z \<and> (V, z) \<in> E\<^sup>*)"
  shows "connecting E V old (insert W seen) (lowerLink V i st)"
proof -
  have low: "min (lowOf st V) i = indexOf st V \<or>
      (\<exists>z \<in> set old. min (lowOf st V) i = indexOf st z \<and> (V, z) \<in> E\<^sup>*)"
    using i c unfolding connecting_def by (cases "lowOf st V \<le> i") (auto simp: min_def)
  obtain new where "ts_stack st = new @ V # old"
    "\<forall>y \<in> set new. (y, V) \<in> E\<^sup>* \<and> (\<forall>w. (y, w) \<in> E \<longrightarrow> w \<in> dom (ts_index st)) \<and>
       (\<forall>w \<in> set old. (y, w) \<in> E \<longrightarrow> lowOf st V \<le> indexOf st w)"
    using c unfolding connecting_def by blast
  then have "\<exists>new. ts_stack (lowerLink V i st) = new @ V # old \<and>
      (\<forall>y \<in> set new. (y, V) \<in> E\<^sup>* \<and> (\<forall>w. (y, w) \<in> E \<longrightarrow> w \<in> dom (ts_index (lowerLink V i st))) \<and>
         (\<forall>w \<in> set old. (y, w) \<in> E \<longrightarrow> lowOf (lowerLink V i st) V \<le> indexOf (lowerLink V i st) w))"
    by (intro exI [of _ new]) (auto simp: min_le_iff_disj)
  moreover have "\<forall>w \<in> insert W seen. w \<in> dom (ts_index st) \<and> (w \<in> set old \<longrightarrow> min (lowOf st V) i \<le> indexOf st w)"
    using c dom seen unfolding connecting_def by (auto simp: min_le_iff_disj)
  moreover have "tarjan_inv E st" using c by (simp add: connecting_def)
  ultimately show ?thesis using low unfolding connecting_def by simp
qed

lemma connecting_back_edge:
  assumes c: "connecting E V old seen st" and e: "(V, W) \<in> E" and W: "W \<in> ts_onStack st"
  shows "connecting E V old (insert W seen) (lowerLink V (indexOf st W) st)"
proof (rule connecting_lower [OF c])
  have W': "W \<in> set (ts_stack st)" using W c by (simp add: connecting_def tarjan_inv_def)
  then show "W \<in> dom (ts_index st)" using c by (auto simp: connecting_def tarjan_inv_def)
  show "lowOf st V \<le> indexOf st W \<or> (\<exists>z \<in> set old. indexOf st W = indexOf st z \<and> (V, z) \<in> E\<^sup>*)"
    using connecting_order(2) [OF c W'] connecting_order(4) [OF c] e by auto
qed simp

lemma connecting_skip:
  assumes c: "connecting E V old seen st" and "W \<in> dom (ts_index st)" and "W \<notin> ts_onStack st"
  shows "connecting E V old (insert W seen) st"
proof -
  have "W \<notin> set old" using assms unfolding connecting_def tarjan_inv_def by auto
  with assms(2) c show ?thesis unfolding connecting_def by auto
qed

lemma connecting_tree_edge:
  assumes c: "connecting E V old seen st" and e: "(V, W) \<in> E" and fresh: "W \<notin> dom (ts_index st)"
    and d: "connected E W st st'"
  shows "connecting E V old (insert W seen) (lowerLink V (lowOf st' W) st')"
proof -
  have same: "ts_index st' x = ts_index st x" "indexOf st' x = indexOf st x" "lowOf st' x = lowOf st x"
    if "x \<in> dom (ts_index st)" for x
    using d that by (auto simp: connected_def indexOf_def lowOf_def)
  have inv: "tarjan_inv E st" using c by (simp add: connecting_def)
  have onst: "set (ts_stack st) \<subseteq> dom (ts_index st)" using inv by (simp add: tarjan_inv_def)
  have mono: "dom (ts_index st) \<subseteq> dom (ts_index st')" using same(1) by (auto simp: domIff)
  have V: "V \<in> dom (ts_index st)" using connecting_order(5) [OF c] onst by auto
  obtain new where new: "ts_stack st = new @ V # old"
    "\<forall>y \<in> set new. (y, V) \<in> E\<^sup>* \<and> (\<forall>w. (y, w) \<in> E \<longrightarrow> w \<in> dom (ts_index st)) \<and>
       (\<forall>w \<in> set old. (y, w) \<in> E \<longrightarrow> lowOf st V \<le> indexOf st w)"
    using c unfolding connecting_def by blast
  have old: "set old \<subseteq> dom (ts_index st)" using new(1) onst by auto
  obtain newW where newW: "ts_stack st' = newW @ ts_stack st"
    "\<forall>y \<in> set newW. (\<exists>z \<in> set (ts_stack st). (y, z) \<in> E\<^sup>*) \<and>
       (\<forall>w. (y, w) \<in> E \<longrightarrow> w \<in> dom (ts_index st')) \<and>
       (\<forall>w \<in> set (ts_stack st). (y, w) \<in> E \<longrightarrow> lowOf st' W \<le> indexOf st' w)"
    using d unfolding connected_def by blast
  let ?i = "lowOf st' W"
  have reachV: "(y, V) \<in> E\<^sup>*" if "y \<in> set newW" for y
    using newW(2) that connecting_order(3) [OF c] by (meson rtrancl_trans)
  have i: "lowOf st' V \<le> ?i \<or> (\<exists>z \<in> set old. ?i = indexOf st' z \<and> (V, z) \<in> E\<^sup>*)"
  proof -
    consider (closed) "?i = ts_nextIndex st" | (up) z where "z \<in> set (ts_stack st)" "?i = indexOf st' z" "(W, z) \<in> E\<^sup>*"
      using d unfolding connected_def by blast
    then show ?thesis
    proof cases
      case closed
      have "indexOf st V < ts_nextIndex st" using inv V by (simp add: tarjan_inv_def)
      with closed connecting_order(4) [OF c] same(3) [OF V] show ?thesis by simp
    next
      case up
      have Vz: "(V, z) \<in> E\<^sup>*" using e up(3) by (rule converse_rtrancl_into_rtrancl)
      show ?thesis
      proof (cases "z \<in> set old")
        case False
        with connecting_order(2) [OF c up(1)] have "indexOf st V \<le> indexOf st z" by simp
        moreover have "z \<in> dom (ts_index st)" using up(1) onst by blast
        ultimately have "lowOf st' V \<le> ?i" using connecting_order(4) [OF c] up(2) same(3) [OF V] same(2) [of z] by simp
        then show ?thesis ..
      qed (use up Vz in blast)
    qed
  qed
  let ?m = "min (lowOf st' V) ?i"
  have inv': "tarjan_inv E st'" and W: "W \<in> dom (ts_index st')"
    using d by (auto simp: connected_def)
  have stack: "ts_stack st' = (newW @ new) @ V # old" using new(1) newW(1) by simp
  have blackW: "(y, V) \<in> E\<^sup>* \<and> (\<forall>w. (y, w) \<in> E \<longrightarrow> w \<in> dom (ts_index st')) \<and>
      (\<forall>w \<in> set old. (y, w) \<in> E \<longrightarrow> ?m \<le> indexOf st' w)" if "y \<in> set newW" for y
    using reachV [OF that] newW(2) that new(1) by (auto simp: min_le_iff_disj)
  have black: "(y, V) \<in> E\<^sup>* \<and> (\<forall>w. (y, w) \<in> E \<longrightarrow> w \<in> dom (ts_index st')) \<and>
      (\<forall>w \<in> set old. (y, w) \<in> E \<longrightarrow> ?m \<le> indexOf st' w)" if "y \<in> set new" for y
  proof -
    have "lowOf st' V \<le> indexOf st' w" if "w \<in> set old" "(y, w) \<in> E" for w
      using new(2) \<open>y \<in> set new\<close> that same(2) [of w] same(3) [OF V] old by auto
    moreover have "\<And>w. (y, w) \<in> E \<Longrightarrow> w \<in> dom (ts_index st')" and "(y, V) \<in> E\<^sup>*"
      using new(2) that mono by blast+
    ultimately show ?thesis by (simp add: min_le_iff_disj)
  qed
  have seen: "w \<in> dom (ts_index st') \<and> (w \<in> set old \<longrightarrow> ?m \<le> indexOf st' w)" if "w \<in> insert W seen" for w
  proof (cases "w = W")
    case True
    with W fresh old show ?thesis by auto
  next
    case False
    with that c have "w \<in> dom (ts_index st)" "w \<in> set old \<longrightarrow> lowOf st V \<le> indexOf st w"
      by (auto simp: connecting_def)
    with mono same(2) [of w] same(3) [OF V] show ?thesis by (auto simp: min_le_iff_disj)
  qed
  have low: "?m = indexOf st' V \<or> (\<exists>z \<in> set old. ?m = indexOf st' z \<and> (V, z) \<in> E\<^sup>*)"
  proof (cases "lowOf st' V \<le> ?i")
    case True
    have "lowOf st V = indexOf st V \<or> (\<exists>z \<in> set old. lowOf st V = indexOf st z \<and> (V, z) \<in> E\<^sup>*)"
      using c by (simp add: connecting_def)
    moreover have "indexOf st' z = indexOf st z" if "z \<in> set old" for z
      using old that by (intro same(2)) auto
    ultimately have "lowOf st' V = indexOf st' V \<or> (\<exists>z \<in> set old. lowOf st' V = indexOf st' z \<and> (V, z) \<in> E\<^sup>*)"
      using same [OF V] by auto
    with True show ?thesis by (simp add: min_def)
  next
    case False
    with i show ?thesis by (auto simp: min_def)
  qed
  show ?thesis
    unfolding connecting_def lowerLink_simps
    using inv' stack blackW black seen low by (intro conjI exI [of _ "newW @ new"]) auto
qed

lemma takeWhile_new: "V \<notin> set new \<Longrightarrow> takeWhile (\<lambda>W. W \<noteq> V) (new @ V # old) = new"
  by (induction new) auto

lemma sorted_wrt_less_distinct: "sorted_wrt (\<lambda>x y. (f y :: int) < f x) xs \<Longrightarrow> distinct xs"
  by (induction xs) auto

text \<open>When the link of \<open>V\<close> is its own index, the functions above it are the component of \<open>V\<close>.\<close>

lemma component_facts:
  assumes c: "connecting E V old seen st" and succs: "\<And>w. (V, w) \<in> E \<Longrightarrow> w \<in> seen"
    and low: "lowOf st V = indexOf st V"
  obtains new where "ts_stack st = new @ V # old" and "distinct (new @ V # old)"
    and "\<And>y. y \<in> set new \<Longrightarrow> (y, V) \<in> E\<^sup>* \<and> (V, y) \<in> E\<^sup>*"
    and "\<And>y w. y \<in> set (new @ [V]) \<Longrightarrow> (y, w) \<in> E \<Longrightarrow> w \<in> closedNodes st \<union> set (new @ [V])"
proof -
  have inv: "tarjan_inv E st" using c by (simp add: connecting_def)
  obtain new where new: "ts_stack st = new @ V # old"
    "\<forall>y \<in> set new. (y, V) \<in> E\<^sup>* \<and> (\<forall>w. (y, w) \<in> E \<longrightarrow> w \<in> dom (ts_index st)) \<and>
       (\<forall>w \<in> set old. (y, w) \<in> E \<longrightarrow> lowOf st V \<le> indexOf st w)"
    using c unfolding connecting_def by blast
  have seen: "w \<in> dom (ts_index st) \<and> (w \<in> set old \<longrightarrow> lowOf st V \<le> indexOf st w)" if "(V, w) \<in> E" for w
    using c succs [OF that] by (auto simp: connecting_def)
  have fringe: "w \<in> dom (ts_index st) \<and> (w \<in> set old \<longrightarrow> indexOf st V \<le> indexOf st w)"
    if "y \<in> set (new @ [V])" "(y, w) \<in> E" for y w
    using that new(2) seen low by auto
  have sorted: "sorted_wrt (\<lambda>x y. indexOf st y < indexOf st x) (new @ V # old)"
    "sorted_wrt (\<lambda>x y. (y, x) \<in> E\<^sup>*) (new @ V # old)"
    using inv new(1) by (simp_all add: tarjan_inv_def)
  have dist: "distinct (new @ V # old)" using sorted(1) by (rule sorted_wrt_less_distinct)
  have no_old: "w \<notin> set old" if "(y, w) \<in> E" "y \<in> set (new @ [V])" for y w
  proof
    assume "w \<in> set old"
    with fringe [OF that(2,1)] have "indexOf st V \<le> indexOf st w" by auto
    moreover have "indexOf st w < indexOf st V" using sorted(1) \<open>w \<in> set old\<close> by (auto simp: sorted_wrt_append)
    ultimately show False by simp
  qed
  have out: "w \<in> closedNodes st \<union> set (new @ [V])" if "y \<in> set (new @ [V])" "(y, w) \<in> E" for y w
    using no_old [OF that(2,1)] fringe [OF that] unfolding closedNodes_def new(1) by auto
  have both: "(y, V) \<in> E\<^sup>* \<and> (V, y) \<in> E\<^sup>*" if "y \<in> set new" for y
    using new(2) sorted(2) that by (auto simp: sorted_wrt_append)
  from that [OF new(1) dist both out] show thesis .
qed

lemma close_connected:
  assumes c: "connecting E V old seen st" and succs: "\<And>w. (V, w) \<in> E \<Longrightarrow> w \<in> seen"
    and self: "hasSelfCall noRecurse CG V \<longleftrightarrow> (V, V) \<in> E"
    and keep: "\<forall>x \<in> dom (ts_index st0). ts_index st x = ts_index st0 x \<and> ts_lowlink st x = ts_lowlink st0 x"
    and st0: "ts_stack st0 = old" "ts_index st V = Some (ts_nextIndex st0)"
  shows "connected E V st0 (closeComponent noRecurse CG V st)"
proof -
  have inv: "tarjan_inv E st" using c by (simp add: connecting_def)
  have idxV: "indexOf st V = ts_nextIndex st0" using st0(2) by (simp add: indexOf_def)
  obtain new where new: "ts_stack st = new @ V # old"
    "\<forall>y \<in> set new. (y, V) \<in> E\<^sup>* \<and> (\<forall>w. (y, w) \<in> E \<longrightarrow> w \<in> dom (ts_index st)) \<and>
       (\<forall>w \<in> set old. (y, w) \<in> E \<longrightarrow> lowOf st V \<le> indexOf st w)"
    using c unfolding connecting_def by blast
  have seen: "w \<in> dom (ts_index st) \<and> (w \<in> set old \<longrightarrow> lowOf st V \<le> indexOf st w)" if "(V, w) \<in> E" for w
    using c succs [OF that] by (auto simp: connecting_def)
  have fringe: "(\<forall>w. (y, w) \<in> E \<longrightarrow> w \<in> dom (ts_index st)) \<and>
      (\<forall>w \<in> set old. (y, w) \<in> E \<longrightarrow> lowOf st V \<le> indexOf st w)" if "y \<in> set (new @ [V])" for y
    using that new(2) seen by auto
  show ?thesis
  proof (cases "lowOf st V = indexOf st V")
    case False
    then obtain z where z: "z \<in> set old" "lowOf st V = indexOf st z" "(V, z) \<in> E\<^sup>*"
      using c by (auto simp: connecting_def)
    have "(y, V) \<in> E\<^sup>*" if "y \<in> set (new @ [V])" for y using that new(2) by auto
    then have "\<forall>y \<in> set (new @ [V]). \<exists>z \<in> set old. (y, z) \<in> E\<^sup>*" using z by (meson rtrancl_trans)
    with fringe have "\<exists>new. ts_stack st = new @ ts_stack st0 \<and>
        (\<forall>y \<in> set new. (\<exists>z \<in> set (ts_stack st0). (y, z) \<in> E\<^sup>*) \<and>
           (\<forall>w. (y, w) \<in> E \<longrightarrow> w \<in> dom (ts_index st)) \<and>
           (\<forall>w \<in> set (ts_stack st0). (y, w) \<in> E \<longrightarrow> lowOf st V \<le> indexOf st w))"
      using new(1) st0(1) by (intro exI [of _ "new @ [V]"]) auto
    with False z inv keep st0 show ?thesis by (auto simp: connected_def closeComponent_def)
  next
    case True
    obtain new where new: "ts_stack st = new @ V # old" and dist: "distinct (new @ V # old)"
      and both: "\<And>y. y \<in> set new \<Longrightarrow> (y, V) \<in> E\<^sup>* \<and> (V, y) \<in> E\<^sup>*"
      and out0: "\<And>y w. y \<in> set (new @ [V]) \<Longrightarrow> (y, w) \<in> E \<Longrightarrow> w \<in> closedNodes st \<union> set (new @ [V])"
      using component_facts [OF c succs True] by metis
    let ?comp = "new @ [V]"
    have sorted: "sorted_wrt (\<lambda>x y. indexOf st y < indexOf st x) (new @ V # old)"
      "sorted_wrt (\<lambda>x y. (y, x) \<in> E\<^sup>*) (new @ V # old)"
      using inv new by (simp_all add: tarjan_inv_def)
    define st' where "st' = closeComponent noRecurse CG V st"
    have st': "ts_index st' = ts_index st" "ts_lowlink st' = ts_lowlink st" "ts_stack st' = old"
      "ts_onStack st' = ts_onStack st - set ?comp" "ts_nextIndex st' = ts_nextIndex st"
      "ts_recursive st' = ts_recursive st \<union> (if new \<noteq> [] \<or> (V, V) \<in> E then set ?comp else {})"
      using True self dist unfolding st'_def closeComponent_def new
      by (auto simp: takeWhile_new Let_def)
    have idx: "indexOf st' = indexOf st" "lowOf st' = lowOf st"
      using st'(1,2) by (auto simp: indexOf_def lowOf_def)
    have onst: "set (new @ V # old) \<subseteq> dom (ts_index st)" using inv new by (simp add: tarjan_inv_def)
    have closed: "closedNodes st' = closedNodes st \<union> set ?comp"
      using dist onst unfolding closedNodes_def st' new by auto
    have out: "w \<in> closedNodes st'" if "(y, w) \<in> E" "y \<in> set ?comp" for y w
      using out0 [OF that(2,1)] unfolding closed .
    have closedE: "\<forall>x \<in> closedNodes st'. \<forall>y. (x, y) \<in> E \<longrightarrow> y \<in> closedNodes st'"
      using inv out unfolding closed tarjan_inv_def by blast
    have cyc: "(x, x) \<in> E\<^sup>+" if x: "x \<in> set ?comp" and ne: "new \<noteq> []" for x
    proof -
      obtain y where y: "y \<in> set new" "y \<noteq> V" using ne dist by (cases new) auto
      from both [OF y(1)] y(2) have "(V, y) \<in> E\<^sup>+" "(y, V) \<in> E\<^sup>*" by (auto simp: rtrancl_eq_or_trancl)
      then have V: "(V, V) \<in> E\<^sup>+" by (rule trancl_rtrancl_trancl)
      show ?thesis
      proof (cases "x = V")
        case False
        with x both have "(x, V) \<in> E\<^sup>*" "(V, x) \<in> E\<^sup>*" by auto
        with V show ?thesis by (meson rtrancl_trancl_trancl trancl_rtrancl_trancl)
      qed (use V in simp)
    qed
    have acyc: "(V, V) \<notin> E\<^sup>+" if "new = []" "(V, V) \<notin> E"
    proof
      assume "(V, V) \<in> E\<^sup>+"
      then obtain u where u: "(V, u) \<in> E" "(u, V) \<in> E\<^sup>*" by (meson tranclD)
      with that out [OF u(1)] have "u \<in> closedNodes st" by (auto simp: closed)
      with u(2) have "V \<in> closedNodes st"
      proof (induction rule: rtrancl_induct)
        case (step y z)
        with inv show ?case unfolding tarjan_inv_def by blast
      qed
      then show False unfolding closedNodes_def new by simp
    qed
    have recs: "x \<in> ts_recursive st' \<longleftrightarrow> (x, x) \<in> E\<^sup>+" if "x \<in> closedNodes st'" for x
    proof (cases "x \<in> set ?comp")
      case False
      with that have "x \<in> closedNodes st" by (simp add: closed)
      with inv False show ?thesis unfolding st' tarjan_inv_def by auto
    next
      case True
      have "x \<notin> closedNodes st" using True unfolding closedNodes_def new by auto
      then have "x \<notin> ts_recursive st" using inv unfolding tarjan_inv_def by auto
      with True cyc acyc show ?thesis unfolding st' by (cases "new = []") auto
    qed
    have "tarjan_inv E st'"
      unfolding tarjan_inv_def
    proof (intro conjI)
      show "ts_onStack st' = set (ts_stack st')"
        using inv dist unfolding tarjan_inv_def st' new by auto
      show "ts_recursive st' \<subseteq> closedNodes st'"
        using inv unfolding tarjan_inv_def closed st' by auto
    qed (use inv sorted onst closedE recs idx st' in \<open>auto simp: tarjan_inv_def sorted_wrt_append\<close>)
    moreover have "lowOf st' V = ts_nextIndex st0" using True idxV idx by simp
    ultimately show ?thesis
      using keep st0 st' unfolding connected_def st'_def [symmetric] by auto
  qed
qed

lemma strongConnect_correct:
  shows "strongConnect n noRecurse CG V st = Some st' \<Longrightarrow> tarjan_inv (call_edges noRecurse CG) st \<Longrightarrow>
      V \<notin> dom (ts_index st) \<Longrightarrow> \<not> noRecurse V \<Longrightarrow>
      \<forall>x \<in> set (ts_stack st). (x, V) \<in> (call_edges noRecurse CG)\<^sup>* \<Longrightarrow>
      connected (call_edges noRecurse CG) V st st'"
    and "connectCallees n noRecurse CG V Ws st = Some st' \<Longrightarrow>
      connecting (call_edges noRecurse CG) V old seen st \<Longrightarrow> \<not> noRecurse V \<Longrightarrow>
      set Ws \<subseteq> set (callees CG V) \<Longrightarrow>
      connecting (call_edges noRecurse CG) V old (seen \<union> {W \<in> set Ws. \<not> noRecurse W}) st' \<and>
      (\<forall>x \<in> dom (ts_index st). ts_index st' x = ts_index st x \<and>
         (x \<noteq> V \<longrightarrow> ts_lowlink st' x = ts_lowlink st x))"
proof (induction n noRecurse CG V st and n noRecurse CG V Ws st arbitrary: st' and st' seen old
    rule: strongConnect_connectCallees.induct)
  case (1 noRecurse CG V st)
  then show ?case by simp
next
  case (2 n noRecurse CG V st)
  let ?E = "call_edges noRecurse CG"
  obtain st1 where r: "connectCallees n noRecurse CG V (callees CG V) (enterNode V st) = Some st1"
    and st': "st' = closeComponent noRecurse CG V st1"
    using 2(2,5) by auto
  have loop: "connecting ?E V (ts_stack st) ({} \<union> {W \<in> set (callees CG V). \<not> noRecurse W}) st1"
    and keep: "\<forall>x \<in> dom (ts_index (enterNode V st)). ts_index st1 x = ts_index (enterNode V st) x \<and>
      (x \<noteq> V \<longrightarrow> ts_lowlink st1 x = ts_lowlink (enterNode V st) x)"
    using 2(1) [OF 2(5) r enter_connecting [OF 2(3,4,6)] 2(5) subset_refl] by blast+
  show ?case
    unfolding st'
  proof (rule close_connected [OF loop])
    show "\<And>w. (V, w) \<in> ?E \<Longrightarrow> w \<in> {} \<union> {W \<in> set (callees CG V). \<not> noRecurse W}"
      by (simp add: call_edges_def)
    show "hasSelfCall noRecurse CG V \<longleftrightarrow> (V, V) \<in> ?E"
      using 2(5) by (auto simp: hasSelfCall_def call_edges_def callees_def list_ex_iff split: option.splits)
    show "\<forall>x \<in> dom (ts_index st). ts_index st1 x = ts_index st x \<and> ts_lowlink st1 x = ts_lowlink st x"
      using keep 2(4) by (auto simp: enterNode_def)
    show "ts_index st1 V = Some (ts_nextIndex st)" using keep by (simp add: enterNode_def)
  qed simp
next
  case (3 n noRecurse CG V st)
  then show ?case by simp
next
  case (4 n noRecurse CG V W Ws st)
  let ?E = "call_edges noRecurse CG"
  have Ws: "set Ws \<subseteq> set (callees CG V)" using 4(9) by simp
  show ?case
  proof (cases "noRecurse W")
    case True
    then have "{X \<in> set (W # Ws). \<not> noRecurse X} = {X \<in> set Ws. \<not> noRecurse X}" by auto
    with 4(1) [OF True _ 4(7,8) Ws] 4(6) True show ?thesis by simp
  next
    case rec: False
    have e: "(V, W) \<in> ?E" using rec 4(8,9) by (simp add: call_edges_def)
    have un: "insert W seen \<union> {X \<in> set Ws. \<not> noRecurse X} = seen \<union> {X \<in> set (W # Ws). \<not> noRecurse X}"
      using rec by auto
    show ?thesis
    proof (cases "ts_index st W = None")
      case fresh: True
      then obtain st1 where d: "strongConnect n noRecurse CG W st = Some st1"
        and r: "connectCallees n noRecurse CG V Ws (lowerLink V (lowOf st1 W) st1) = Some st'"
        using 4(6) rec by (auto split: option.splits)
      have reach: "\<forall>x \<in> set (ts_stack st). (x, W) \<in> ?E\<^sup>*"
        using connecting_order(3) [OF 4(7)] e by (meson rtrancl_into_rtrancl)
      have inv: "tarjan_inv ?E st" using 4(7) by (simp add: connecting_def)
      have conn: "connected ?E W st st1" using fresh by (intro 4(2) [OF rec fresh d inv _ rec reach]) auto
      have step: "connecting ?E V old (insert W seen) (lowerLink V (lowOf st1 W) st1)"
        using fresh by (intro connecting_tree_edge [OF 4(7) e _ conn]) auto
      have ih: "connecting ?E V old (insert W seen \<union> {X \<in> set Ws. \<not> noRecurse X}) st'"
        "\<forall>x \<in> dom (ts_index st1). ts_index st' x = ts_index st1 x \<and> (x \<noteq> V \<longrightarrow> ts_lowlink st' x = ts_lowlink st1 x)"
        using 4(3) [OF rec fresh d r step 4(8) Ws] by auto
      have keep: "ts_index st1 x = ts_index st x \<and> ts_lowlink st1 x = ts_lowlink st x" if "x \<in> dom (ts_index st)" for x
        using conn that unfolding connected_def by blast
      have "ts_index st' x = ts_index st x \<and> (x \<noteq> V \<longrightarrow> ts_lowlink st' x = ts_lowlink st x)"
        if "x \<in> dom (ts_index st)" for x
      proof -
        have "x \<in> dom (ts_index st1)" using keep [OF that] that by (simp add: domIff)
        with ih(2) keep [OF that] show ?thesis by auto
      qed
      with ih(1) un show ?thesis by auto
    next
      case seen: False
      show ?thesis
      proof (cases "W \<in> ts_onStack st")
        case True
        then have r: "connectCallees n noRecurse CG V Ws (lowerLink V (indexOf st W) st) = Some st'"
          using 4(6) rec seen by simp
        from 4(4) [OF rec seen True r connecting_back_edge [OF 4(7) e True] 4(8) Ws] un
        show ?thesis by auto
      next
        case False
        then have r: "connectCallees n noRecurse CG V Ws st = Some st'" using 4(6) rec seen by simp
        have "W \<in> dom (ts_index st)" using seen by auto
        from 4(5) [OF rec seen False r connecting_skip [OF 4(7) this False] 4(8) Ws] un
        show ?thesis by auto
      qed
    qed
  qed
qed

subsection \<open>The recursion ends\<close>

lemma closeComponent_index [simp]: "ts_index (closeComponent noRecurse CG V st) = ts_index st"
  by (simp add: closeComponent_def Let_def)

lemma strongConnect_total:
  assumes "finite U" and closed: "\<And>f. f \<in> U \<Longrightarrow> set (callees CG0 f) \<subseteq> U"
  shows "CG = CG0 \<Longrightarrow> V \<in> U \<Longrightarrow> ts_index st V = None \<Longrightarrow> card (U - dom (ts_index st)) < n \<Longrightarrow>
      \<exists>st'. strongConnect n noRecurse CG V st = Some st' \<and> dom (ts_index st) \<subseteq> dom (ts_index st')"
    and "CG = CG0 \<Longrightarrow> set Ws \<subseteq> U \<Longrightarrow> card (U - dom (ts_index st)) < n \<Longrightarrow>
      \<exists>st'. connectCallees n noRecurse CG V Ws st = Some st' \<and> dom (ts_index st) \<subseteq> dom (ts_index st')"
proof (induction n noRecurse CG V st and n noRecurse CG V Ws st
    rule: strongConnect_connectCallees.induct)
  case (1 noRecurse CG V st)
  then show ?case by simp
next
  case (2 n noRecurse CG V st)
  have d: "dom (ts_index (enterNode V st)) = insert V (dom (ts_index st))" by (simp add: enterNode_def)
  have "U - insert V (dom (ts_index st)) = (U - dom (ts_index st)) - {V}" by auto
  then have card: "card (U - dom (ts_index (enterNode V st))) < n"
    unfolding d using 2(3,4,5) assms(1) card_Diff1_less [of "U - dom (ts_index st)" V] by (auto simp: domIff)
  show ?case
  proof (cases "noRecurse V")
    case True
    then show ?thesis by (auto simp: enterNode_def)
  next
    case False
    have "set (callees CG V) \<subseteq> U" using closed 2(2,3) by simp
    from 2(1) [OF False 2(2) this card] False show ?thesis unfolding d by auto
  qed
next
  case (3 n noRecurse CG V st)
  then show ?case by simp
next
  case (4 n noRecurse CG V W Ws st)
  have W: "W \<in> U" and Ws: "set Ws \<subseteq> U" using 4(7) by auto
  show ?case
  proof (cases "noRecurse W")
    case True
    with 4(1) [OF True 4(6) Ws 4(8)] show ?thesis by simp
  next
    case rec: False
    show ?thesis
    proof (cases "ts_index st W = None")
      case True
      obtain st1 where d: "strongConnect n noRecurse CG W st = Some st1" "dom (ts_index st) \<subseteq> dom (ts_index st1)"
        using 4(2) [OF rec True 4(6) W True 4(8)] by blast
      have "card (U - dom (ts_index st1)) \<le> card (U - dom (ts_index st))"
        using d(2) assms(1) by (intro card_mono) auto
      with 4(8) have "card (U - dom (ts_index (lowerLink V (lowOf st1 W) st1))) < n" by simp
      from 4(3) [OF rec True d(1) 4(6) Ws this] d True rec show ?thesis by auto
    next
      case False
      with 4(4) [OF rec False _ 4(6) Ws] 4(5) [OF rec False _ 4(6) Ws 4(8)] 4(8) rec
      show ?thesis by (cases "W \<in> ts_onStack st") auto
    qed
  qed
qed

lemma connectNodes_correct:
  assumes fin: "finite U" "card U < n" and closed: "\<And>f. f \<in> U \<Longrightarrow> set (callees CG f) \<subseteq> U"
  shows "set Vs \<subseteq> U \<Longrightarrow> tarjan_inv (call_edges noRecurse CG) st \<Longrightarrow> ts_stack st = [] \<Longrightarrow>
    \<exists>st'. connectNodes n noRecurse CG Vs st = Some st' \<and> tarjan_inv (call_edges noRecurse CG) st' \<and>
      ts_stack st' = [] \<and> dom (ts_index st) \<union> {V \<in> set Vs. \<not> noRecurse V} \<subseteq> dom (ts_index st')"
proof (induction Vs arbitrary: st)
  case (Cons V Vs)
  let ?E = "call_edges noRecurse CG"
  have Vs: "set Vs \<subseteq> U" and V: "V \<in> U" using Cons.prems(1) by auto
  show ?case
  proof (cases "noRecurse V \<or> ts_index st V \<noteq> None")
    case True
    with Cons.IH [OF Vs Cons.prems(2,3)] show ?thesis by (auto simp: domIff)
  next
    case False
    have "card (U - dom (ts_index st)) \<le> card U" using fin(1) by (intro card_mono) auto
    with fin(2) have "card (U - dom (ts_index st)) < n" by simp
    then obtain st1 where d: "strongConnect n noRecurse CG V st = Some st1"
      "dom (ts_index st) \<subseteq> dom (ts_index st1)"
      using strongConnect_total(1) [OF fin(1) closed refl V, of st n noRecurse] False by blast
    have c: "connected ?E V st st1"
      using False Cons.prems(2,3) by (intro strongConnect_correct(1) [OF d(1)]) auto
    then have "ts_stack st1 = []" using Cons.prems(3) unfolding connected_def by fastforce
    moreover have "tarjan_inv ?E st1" "V \<in> dom (ts_index st1)" using c by (auto simp: connected_def)
    ultimately obtain st' where "connectNodes n noRecurse CG Vs st1 = Some st'" "tarjan_inv ?E st'"
      "ts_stack st' = []" "dom (ts_index st1) \<union> {V \<in> set Vs. \<not> noRecurse V} \<subseteq> dom (ts_index st')"
      using Cons.IH [OF Vs] by blast
    with False d \<open>V \<in> dom (ts_index st1)\<close> show ?thesis by (intro exI [of _ st']) auto
  qed
qed simp

lemma computeRecursiveFunctions_exact:
  assumes "finite U" and "card U < n" and "\<And>f. f \<in> U \<Longrightarrow> set (callees CG f) \<subseteq> U" and "set nodes \<subseteq> U"
  shows "\<exists>r. computeRecursiveFunctions n noRecurse CG nodes = Some r \<and>
           (\<forall>x \<in> r. (x, x) \<in> (call_edges noRecurse CG)\<^sup>+) \<and>
           (\<forall>x \<in> set nodes. (x, x) \<in> (call_edges noRecurse CG)\<^sup>+ \<longrightarrow> x \<in> r)"
proof -
  let ?E = "call_edges noRecurse CG"
  have "tarjan_inv ?E emptyTarjan" "ts_stack emptyTarjan = []"
    by (simp_all add: tarjan_inv_def emptyTarjan_def closedNodes_def)
  then obtain st where st: "connectNodes n noRecurse CG nodes emptyTarjan = Some st" "tarjan_inv ?E st"
    "ts_stack st = []" "{V \<in> set nodes. \<not> noRecurse V} \<subseteq> dom (ts_index st)"
    using connectNodes_correct [where st = emptyTarjan, OF assms(1,2,3,4)] by blast
  have inv: "\<forall>x \<in> dom (ts_index st). x \<in> ts_recursive st \<longleftrightarrow> (x, x) \<in> ?E\<^sup>+"
    "ts_recursive st \<subseteq> dom (ts_index st)"
    using st(2,3) by (auto simp: tarjan_inv_def closedNodes_def)
  have rec: "\<not> noRecurse x" if "(x, x) \<in> ?E\<^sup>+" for x
    using tranclD [OF that] by (auto simp: call_edges_def)
  show ?thesis
    unfolding computeRecursiveFunctions_def st(1)
  proof (intro exI [of _ "ts_recursive st"] conjI ballI impI)
    show "(x, x) \<in> ?E\<^sup>+" if "x \<in> ts_recursive st" for x using that inv by blast
    show "x \<in> ts_recursive st" if "x \<in> set nodes" "(x, x) \<in> ?E\<^sup>+" for x
      using that rec st(4) inv(1) by blast
  qed simp
qed

section \<open>Components\<close>

text \<open>The components list the same functions.\<close>

lemma closeComponent_components:
  assumes "set (concat (ts_components st)) = ts_recursive st"
  shows "set (concat (ts_components (closeComponent noRecurse CG V st))) =
           ts_recursive (closeComponent noRecurse CG V st)"
  using assms by (auto simp: closeComponent_def Let_def)

lemma components_recursive:
  "strongConnect n noRecurse CG V st = Some st' \<Longrightarrow>
     set (concat (ts_components st)) = ts_recursive st \<Longrightarrow>
     set (concat (ts_components st')) = ts_recursive st'"
  "connectCallees n noRecurse CG V Ws st = Some st' \<Longrightarrow>
     set (concat (ts_components st)) = ts_recursive st \<Longrightarrow>
     set (concat (ts_components st')) = ts_recursive st'"
proof (induction n noRecurse CG V st and n noRecurse CG V Ws st arbitrary: st' and st'
    rule: strongConnect_connectCallees.induct)
  case (2 n noRecurse CG V st)
  obtain st1 where st1: "(if noRecurse V then Some (enterNode V st)
        else connectCallees n noRecurse CG V (callees CG V) (enterNode V st)) = Some st1"
    and st': "st' = closeComponent noRecurse CG V st1"
    using 2(2) by auto
  have "set (concat (ts_components (enterNode V st))) = ts_recursive (enterNode V st)"
    using 2(3) by (simp add: enterNode_def)
  then have "set (concat (ts_components st1)) = ts_recursive st1"
    using 2(1) st1 by (auto split: if_splits)
  then show ?case unfolding st' by (rule closeComponent_components)
next
  case (4 n noRecurse CG V W Ws st)
  have l: "ts_components (lowerLink V i s) = ts_components s" for i and s :: "'a TarjanState"
    by (simp add: lowerLink_def)
  from 4 show ?case by (auto simp: l split: if_splits option.splits)
qed simp_all

lemma connectNodes_components:
  "connectNodes n noRecurse CG Vs st = Some st' \<Longrightarrow> set (concat (ts_components st)) = ts_recursive st \<Longrightarrow>
     set (concat (ts_components st')) = ts_recursive st'"
proof (induction Vs arbitrary: st)
  case (Cons V Vs)
  show ?case
  proof (cases "noRecurse V \<or> ts_index st V \<noteq> None")
    case True
    with Cons.prems(1) have "connectNodes n noRecurse CG Vs st = Some st'" by (auto split: if_splits)
    from Cons.IH [OF this Cons.prems(2)] show ?thesis .
  next
    case False
    then obtain st1 where d: "strongConnect n noRecurse CG V st = Some st1"
      "connectNodes n noRecurse CG Vs st1 = Some st'"
      using Cons.prems(1) by (auto split: option.splits)
    from Cons.IH [OF d(2) components_recursive(1) [OF d(1) Cons.prems(2)]] show ?thesis .
  qed
qed simp

lemma computeRecursiveComponents_exact:
  "computeRecursiveComponents n noRecurse CG nodes = Some cs \<Longrightarrow>
     computeRecursiveFunctions n noRecurse CG nodes = Some (set (concat cs))"
  using connectNodes_components [of n noRecurse CG nodes emptyTarjan]
  by (auto simp: computeRecursiveComponents_def computeRecursiveFunctions_def emptyTarjan_def)

section \<open>Properties\<close>

text \<open>
  C5: The functions reported as recursive are exactly those on a cycle of direct calls
  between functions without a \<open>norecurse\<close> contract, the algorithm ends, and the recursive
  components list the same functions.
\<close>

theorem recursive_functions_are_the_cycles:
  assumes "card (set nodes) < n" and "\<And>f. f \<in> set nodes \<Longrightarrow> set (callees CG f) \<subseteq> set nodes"
  shows "\<exists>cs. computeRecursiveComponents n noRecurse CG nodes = Some cs \<and>
           computeRecursiveFunctions n noRecurse CG nodes = Some (set (concat cs)) \<and>
           (\<forall>x \<in> set nodes. x \<in> set (concat cs) \<longleftrightarrow> (x, x) \<in> (call_edges noRecurse CG)\<^sup>+)"
proof -
  obtain r where r: "computeRecursiveFunctions n noRecurse CG nodes = Some r"
    "\<forall>x \<in> r. (x, x) \<in> (call_edges noRecurse CG)\<^sup>+"
    "\<forall>x \<in> set nodes. (x, x) \<in> (call_edges noRecurse CG)\<^sup>+ \<longrightarrow> x \<in> r"
    using computeRecursiveFunctions_exact [OF finite_set assms(1,2) subset_refl] by blast
  then obtain cs where cs: "computeRecursiveComponents n noRecurse CG nodes = Some cs"
    by (auto simp: computeRecursiveComponents_def computeRecursiveFunctions_def)
  from computeRecursiveComponents_exact [OF this] r cs show ?thesis by auto
qed

text \<open>0 and 1 call each other, 2 calls itself under a contract, 3 is not recursive.\<close>

definition recursive_graph :: "nat CallGraph" where
  "recursive_graph = [0 \<mapsto> [1, 2], 1 \<mapsto> [0, 3], 2 \<mapsto> [2], 3 \<mapsto> []]"

theorem recursive_functions_are_the_cycles_witness:
  "\<exists>r. computeRecursiveFunctions 5 (\<lambda>f. f = 2) recursive_graph [0, 1, 2, 3] = Some r \<and>
     (0 \<in> r \<longleftrightarrow> (0, 0) \<in> (call_edges (\<lambda>f. f = 2) recursive_graph)\<^sup>+)"
proof -
  have "card (set [0, 1, 2, 3 :: nat]) < 5" by simp
  moreover have "set (callees recursive_graph f) \<subseteq> set [0, 1, 2, 3]" for f
    by (auto simp: callees_def recursive_graph_def)
  ultimately obtain cs where "computeRecursiveFunctions 5 (\<lambda>f. f = 2) recursive_graph [0, 1, 2, 3] =
      Some (set (concat cs))"
    "\<forall>x \<in> set [0, 1, 2, 3]. x \<in> set (concat cs) \<longleftrightarrow> (x, x) \<in> (call_edges (\<lambda>f. f = 2) recursive_graph)\<^sup>+"
    using recursive_functions_are_the_cycles [of "[0, 1, 2, 3]" 5 recursive_graph "\<lambda>f. f = 2"] by blast
  then show ?thesis by (intro exI [of _ "set (concat cs)"]) simp
qed

end
