(* ===== verification/SmtSolver.thy ===== *)
theory SmtSolver
  imports Prelude
begin

text \<open>
  The solver layer of the SMT refinement: the constraint representation of
  \<open>include/analysis/smt/ConstraintIR.hpp\<close>, the query and answer types of
  \<open>SolverTypes.hpp\<close>, the backends, strategies and the orchestrator of
  \<open>src/analysis/smt/SolverOrchestrator.cpp\<close> and the evaluator of \<open>SmtRefinement.hpp\<close>.
  A backend is a name with an answer function; \<open>smt_backend\<close> is its contract. The Z3
  backend, compiled in or not, is the argument \<open>z3\<close>. Expression and symbol identifiers are
  positions and counters far below \<open>2 ^ 32\<close>; they are natural numbers.
\<close>

section \<open>Data\<close>

datatype ExprKind =
    Symbol | Constant | Ite | Add | Sub | Mul | Shl | LShr | AShr
  | Eq | Ne | Ult | Ule | Ugt | Uge | Slt | Sle | Sgt | Sge
  | And | Or | Not | ZExt | SExt | Trunc

record ExprNode =
  en_kind :: ExprKind
  en_symbol :: nat
  en_constant :: i64
  en_bitWidth :: nat
  en_lhs :: nat
  en_rhs :: nat
  en_extra :: nat

record 'v SymbolInfo =
  si_id :: nat
  si_debugName :: string
  si_sourceToken :: 'v  \<comment> \<open>the address of the LLVM value\<close>

record IntervalConstraint =
  iv_symbol :: nat
  iv_lower :: i64
  iv_upper :: i64
  iv_hasLower :: bool
  iv_hasUpper :: bool

record 'v ConstraintIR =
  ir_symbols :: "'v SymbolInfo list"
  ir_nodes :: "ExprNode list"
  ir_assertions :: "nat list"
  ir_entryCondition :: "nat option"
  ir_intervals :: "IntervalConstraint list"

datatype SolverMode = Single | Portfolio | CrossCheck | DualConsensus

datatype SmtStatus = SmtSat | SmtUnsat | SmtUnknown | SmtTimeout | SmtError

record 'v SmtQuery =
  q_ir :: "'v ConstraintIR"
  q_ruleId :: string
  q_budgetNodes :: u64
  q_timeoutMs :: u32

record SmtAnswer =
  ans_backendName :: string
  ans_reason :: "string option"
  ans_status :: SmtStatus

record SmtDecision =
  dec_answers :: "SmtAnswer list"
  dec_status :: SmtStatus

record 'v ISmtBackend =
  be_name :: string
  be_solve :: "'v SmtQuery \<Rightarrow> SmtAnswer"

record SolverOrchestratorConfig =
  oc_primaryBackend :: string
  oc_secondaryBackend :: string
  oc_mode :: SolverMode
  oc_budgetNodes :: u64
  oc_timeoutMs :: u32

section \<open>Backends\<close>

definition toLowerAscii :: "string \<Rightarrow> string" where
  "toLowerAscii input = map tolower input"

definition contradictory :: "IntervalConstraint \<Rightarrow> bool" where
  "contradictory c = (iv_hasLower c \<and> iv_hasUpper c \<and> sint (iv_lower c) > sint (iv_upper c))"

definition intervalSolve :: "'v SmtQuery \<Rightarrow> SmtAnswer" where
  "intervalSolve query =
     \<lparr>ans_backendName = ''interval'', ans_reason = None,
      ans_status = (if list_ex contradictory (ir_intervals (q_ir query)) then SmtUnsat else SmtSat)\<rparr>"

definition IntervalBackend :: "'v ISmtBackend" where
  "IntervalBackend = \<lparr>be_name = ''interval'', be_solve = intervalSolve\<rparr>"

definition UnavailableExternalBackend :: "string \<Rightarrow> 'v ISmtBackend" where
  "UnavailableExternalBackend backendName =
     \<lparr>be_name = backendName,
      be_solve = (\<lambda>_. \<lparr>ans_backendName = backendName,
        ans_reason = Some ''backend unavailable in this build (optional dependency not linked)'',
        ans_status = SmtUnknown\<rparr>)\<rparr>"

text \<open>\<open>z3\<close> is the answer function of the Z3 backend when the build has it.\<close>

definition createBackend :: "('v SmtQuery \<Rightarrow> SmtAnswer) option \<Rightarrow> string \<Rightarrow> 'v ISmtBackend" where
  "createBackend z3 name =
     (let lowered = toLowerAscii name in
      if lowered = [] \<or> lowered = ''interval'' then IntervalBackend
      else if lowered = ''z3''
      then (case z3 of Some solve \<Rightarrow> \<lparr>be_name = ''z3'', be_solve = solve\<rparr>
                     | None \<Rightarrow> UnavailableExternalBackend ''z3'')
      else if lowered = ''cvc5'' then UnavailableExternalBackend ''cvc5''
      else UnavailableExternalBackend name)"

definition appendBackendIfMissing ::
    "('v SmtQuery \<Rightarrow> SmtAnswer) option \<Rightarrow> 'v ISmtBackend list \<Rightarrow> string \<Rightarrow> 'v ISmtBackend list" where
  "appendBackendIfMissing z3 out name =
     (let backend = createBackend z3 name in
      if list_ex (\<lambda>b. be_name b = be_name backend) out then out else out @ [backend])"

definition resolveBackends ::
    "('v SmtQuery \<Rightarrow> SmtAnswer) option \<Rightarrow> SolverOrchestratorConfig \<Rightarrow> 'v ISmtBackend list" where
  "resolveBackends z3 config =
     (let out = appendBackendIfMissing z3 [] (oc_primaryBackend config);
          primaryIsInterval = (toLowerAscii (oc_primaryBackend config) = ''interval'')
      in case oc_mode config of
           Single \<Rightarrow> out
         | CrossCheck \<Rightarrow>
             if oc_secondaryBackend config \<noteq> []
             then appendBackendIfMissing z3 out (oc_secondaryBackend config)
             else if \<not> primaryIsInterval then appendBackendIfMissing z3 out ''interval'' else out
         | _ \<Rightarrow>
             let out2 = (if oc_secondaryBackend config \<noteq> []
                         then appendBackendIfMissing z3 out (oc_secondaryBackend config) else out)
             in if \<not> primaryIsInterval then appendBackendIfMissing z3 out2 ''interval'' else out2)"

section \<open>Strategies\<close>

definition runSingle :: "'v SmtQuery \<Rightarrow> 'v ISmtBackend list \<Rightarrow> SmtAnswer list" where
  "runSingle query backends = (case backends of [] \<Rightarrow> [] | b # _ \<Rightarrow> [be_solve b query])"

definition runPortfolio :: "'v SmtQuery \<Rightarrow> 'v ISmtBackend list \<Rightarrow> SmtAnswer list" where
  "runPortfolio query backends = map (\<lambda>b. be_solve b query) backends"

definition inconclusive :: "SmtStatus \<Rightarrow> bool" where
  "inconclusive s = (s = SmtUnknown \<or> s = SmtTimeout \<or> s = SmtError)"

definition runCrossCheck :: "'v SmtQuery \<Rightarrow> 'v ISmtBackend list \<Rightarrow> SmtAnswer list" where
  "runCrossCheck query backends =
     (case backends of [] \<Rightarrow> []
      | b # rest \<Rightarrow>
          let primary = be_solve b query in
          (case rest of
             c # _ \<Rightarrow> if inconclusive (ans_status primary) then [primary, be_solve c query] else [primary]
           | [] \<Rightarrow> [primary]))"

definition aggregateStatuses :: "SmtAnswer list \<Rightarrow> SolverMode \<Rightarrow> SmtStatus" where
  "aggregateStatuses answers mode =
     (let saw = (\<lambda>s. list_ex (\<lambda>a. ans_status a = s) answers) in
      if answers = [] then SmtError
      else if mode = DualConsensus
      then (if saw SmtSat then SmtSat
            else if list_all (\<lambda>a. ans_status a = SmtUnsat) answers then SmtUnsat
            else SmtUnknown)
      else if saw SmtSat \<and> saw SmtUnsat then SmtUnknown
      else if saw SmtSat then SmtSat
      else if saw SmtUnsat then SmtUnsat
      else if saw SmtTimeout then SmtTimeout
      else if saw SmtError then SmtError
      else SmtUnknown)"

fun strategyRun :: "SolverMode \<Rightarrow> 'v SmtQuery \<Rightarrow> 'v ISmtBackend list \<Rightarrow> SmtAnswer list" where
  "strategyRun Single = runSingle"
| "strategyRun Portfolio = runPortfolio"
| "strategyRun CrossCheck = runCrossCheck"
| "strategyRun DualConsensus = runPortfolio"

definition runtimeQuery :: "SolverOrchestratorConfig \<Rightarrow> 'v SmtQuery \<Rightarrow> 'v SmtQuery" where
  "runtimeQuery config query =
     query \<lparr>q_timeoutMs := (if q_timeoutMs query = 0 then oc_timeoutMs config else q_timeoutMs query),
            q_budgetNodes := (if q_budgetNodes query = 0 then oc_budgetNodes config
                              else q_budgetNodes query)\<rparr>"

definition orchestratorSolve ::
    "('v SmtQuery \<Rightarrow> SmtAnswer) option \<Rightarrow> SolverOrchestratorConfig \<Rightarrow> 'v SmtQuery \<Rightarrow> SmtDecision" where
  "orchestratorSolve z3 config query =
     (let backends = resolveBackends z3 config in
      if backends = []
      then \<lparr>dec_answers = [\<lparr>ans_backendName = ''orchestrator'',
                            ans_reason = Some ''no backend available'', ans_status = SmtError\<rparr>],
            dec_status = SmtError\<rparr>
      else
        let answers = strategyRun (oc_mode config) (runtimeQuery config query) backends
        in \<lparr>dec_answers = answers, dec_status = aggregateStatuses answers (oc_mode config)\<rparr>)"

section \<open>The evaluator\<close>

datatype SmtFeasibility = Feasible | Infeasible | Inconclusive

record AnalysisConfig =
  ac_smtEnabled :: bool
  ac_smtRules :: "string list"
  ac_smtBackend :: string
  ac_smtSecondaryBackend :: string
  ac_smtMode :: SolverMode
  ac_smtBudgetNodes :: u64
  ac_smtTimeoutMs :: u32

definition smtRuleEnabled :: "AnalysisConfig \<Rightarrow> string \<Rightarrow> bool" where
  "smtRuleEnabled config ruleId =
     (if \<not> ac_smtEnabled config then False
      else if ac_smtRules config = [] then True
      else list_ex (\<lambda>rawRule. toLowerAscii rawRule = toLowerAscii ruleId) (ac_smtRules config))"

definition evaluatorConfig :: "AnalysisConfig \<Rightarrow> string \<Rightarrow> SolverOrchestratorConfig option" where
  "evaluatorConfig config ruleId =
     (if smtRuleEnabled config ruleId
      then Some \<lparr>oc_primaryBackend = ac_smtBackend config,
                 oc_secondaryBackend = ac_smtSecondaryBackend config,
                 oc_mode = ac_smtMode config, oc_budgetNodes = ac_smtBudgetNodes config,
                 oc_timeoutMs = ac_smtTimeoutMs config\<rparr>
      else None)"

definition evaluateQuery ::
    "('v SmtQuery \<Rightarrow> SmtAnswer) option \<Rightarrow> AnalysisConfig \<Rightarrow> string \<Rightarrow> 'v ConstraintIR \<Rightarrow> SmtFeasibility" where
  "evaluateQuery z3 config ruleId ir =
     (case evaluatorConfig config ruleId of
        None \<Rightarrow> Inconclusive
      | Some orchestrator \<Rightarrow>
          (case dec_status (orchestratorSolve z3 orchestrator
                  \<lparr>q_ir = ir, q_ruleId = ruleId, q_budgetNodes = ac_smtBudgetNodes config,
                   q_timeoutMs = ac_smtTimeoutMs config\<rparr>) of
             SmtSat \<Rightarrow> Feasible
           | SmtUnsat \<Rightarrow> Infeasible
           | _ \<Rightarrow> Inconclusive))"

section \<open>Which backends answer\<close>

lemma append_ne: "appendBackendIfMissing z3 out n \<noteq> []"
  by (auto simp: appendBackendIfMissing_def Let_def)

lemma append_keeps: "out \<noteq> [] \<Longrightarrow> hd (appendBackendIfMissing z3 out n) = hd out"
  by (simp add: appendBackendIfMissing_def Let_def)

lemma append_mono: "b \<in> set out \<Longrightarrow> b \<in> set (appendBackendIfMissing z3 out n)"
  by (auto simp: appendBackendIfMissing_def Let_def)

lemma append_distinct:
  "distinct (map be_name out) \<Longrightarrow> distinct (map be_name (appendBackendIfMissing z3 out n))"
  by (auto simp: appendBackendIfMissing_def Let_def list_ex_iff)

lemma append_created:
  "list_all P out \<Longrightarrow> P (createBackend z3 n) \<Longrightarrow> list_all P (appendBackendIfMissing z3 out n)"
  by (simp add: appendBackendIfMissing_def Let_def)

lemma resolve_ne: "resolveBackends z3 config \<noteq> []"
  by (simp add: resolveBackends_def Let_def append_ne split: SolverMode.split)

lemma resolve_hd: "hd (resolveBackends z3 config) = createBackend z3 (oc_primaryBackend config)"
proof -
  have "hd (appendBackendIfMissing z3 [] n) = createBackend z3 n" for n
    by (simp add: appendBackendIfMissing_def Let_def)
  thus ?thesis
    by (simp add: resolveBackends_def Let_def append_keeps append_ne split: SolverMode.split)
qed

lemma resolve_distinct: "distinct (map be_name (resolveBackends z3 config))"
  by (simp add: resolveBackends_def Let_def append_distinct split: SolverMode.split)

lemma resolve_created:
  assumes "\<And>n. P (createBackend z3 n)"
  shows "list_all P (resolveBackends z3 config)"
  using assms by (simp add: resolveBackends_def Let_def append_created split: SolverMode.split)

lemma created_interval: "be_name (createBackend z3 n) = ''interval'' \<Longrightarrow> createBackend z3 n = IntervalBackend"
proof -
  assume a: "be_name (createBackend z3 n) = ''interval''"
  have l: "toLowerAscii ''interval'' = ''interval''" by code_simp
  show ?thesis
    using a l by (auto simp: createBackend_def Let_def UnavailableExternalBackend_def
        split: if_splits option.splits)
qed

lemma append_interval:
  assumes "list_all (\<lambda>b. be_name b = ''interval'' \<longrightarrow> b = IntervalBackend) out"
  shows "IntervalBackend \<in> set (appendBackendIfMissing z3 out ''interval'')"
proof -
  have "createBackend z3 ''interval'' = IntervalBackend"
    by (rule created_interval) (simp add: createBackend_def toLowerAscii_def, code_simp)
  thus ?thesis using assms
    by (auto simp: appendBackendIfMissing_def Let_def list_ex_iff list_all_iff IntervalBackend_def)
qed

lemma interval_consulted:
  assumes "oc_mode config = Portfolio \<or> oc_mode config = DualConsensus"
  shows "IntervalBackend \<in> set (resolveBackends z3 config)"
proof -
  let ?p = "oc_primaryBackend config"
  let ?out = "appendBackendIfMissing z3 [] ?p"
  let ?out2 = "if oc_secondaryBackend config \<noteq> []
               then appendBackendIfMissing z3 ?out (oc_secondaryBackend config) else ?out"
  let ?ok = "list_all (\<lambda>b. be_name b = ''interval'' \<longrightarrow> b = IntervalBackend)"
  have ok: "?ok ?out2"
    by (auto intro!: append_created simp: created_interval)
  show ?thesis
  proof (cases "toLowerAscii ?p = ''interval''")
    case False
    hence "resolveBackends z3 config = appendBackendIfMissing z3 ?out2 ''interval''"
      using assms by (auto simp: resolveBackends_def Let_def)
    thus ?thesis using append_interval [OF ok] by simp
  next
    case True
    hence "IntervalBackend \<in> set ?out"
      by (simp add: appendBackendIfMissing_def createBackend_def)
    hence "IntervalBackend \<in> set ?out2" by (auto intro: append_mono)
    thus ?thesis using assms True by (auto simp: resolveBackends_def Let_def)
  qed
qed

lemma interval_status:
  "ans_status (be_solve IntervalBackend query) =
     (if list_ex contradictory (ir_intervals (q_ir query)) then SmtUnsat else SmtSat)"
  by (simp add: IntervalBackend_def intervalSolve_def)

section \<open>The verdict\<close>

definition answerOf :: "'v SmtQuery \<Rightarrow> 'v ISmtBackend \<Rightarrow> SmtStatus" where
  "answerOf q b = ans_status (be_solve b q)"

fun refutes :: "SolverMode \<Rightarrow> SmtStatus list \<Rightarrow> bool" where
  "refutes Single (s # _) = (s = SmtUnsat)"
| "refutes CrossCheck (s # ss) =
     (s = SmtUnsat \<or> inconclusive s \<and> (case ss of t # _ \<Rightarrow> t = SmtUnsat | [] \<Rightarrow> False))"
| "refutes Portfolio ss = (SmtUnsat \<in> set ss \<and> SmtSat \<notin> set ss)"
| "refutes DualConsensus ss = (\<forall>s \<in> set ss. s = SmtUnsat)"
| "refutes _ [] = False"

lemma saw_image: "list_ex (\<lambda>a. ans_status a = s) answers \<longleftrightarrow> s \<in> ans_status ` set answers"
  by (auto simp: list_ex_iff)

lemma all_unsat_image:
  "list_all (\<lambda>a. ans_status a = s) answers \<longleftrightarrow> (\<forall>t \<in> ans_status ` set answers. t = s)"
  by (auto simp: list_all_iff)

lemma aggregate_unsat:
  "aggregateStatuses answers mode = SmtUnsat \<longleftrightarrow>
     answers \<noteq> [] \<and>
     (if mode = DualConsensus then \<forall>t \<in> ans_status ` set answers. t = SmtUnsat
      else SmtUnsat \<in> ans_status ` set answers \<and> SmtSat \<notin> ans_status ` set answers)"
proof (cases "answers = []")
  case False
  hence "ans_status ` set answers \<noteq> {}" by simp
  thus ?thesis
    unfolding aggregateStatuses_def Let_def saw_image all_unsat_image using False
    by (simp split: if_split) blast
qed (simp add: aggregateStatuses_def)

lemma strategy_unsat:
  assumes "bs \<noteq> []"
  shows "aggregateStatuses (strategyRun mode q bs) mode = SmtUnsat \<longleftrightarrow> refutes mode (map (answerOf q) bs)"
proof -
  obtain b rest where bs: "bs = b # rest" using assms by (cases bs) auto
  show ?thesis
    unfolding aggregate_unsat bs
    by (cases mode; cases rest)
      (auto simp: runSingle_def runPortfolio_def runCrossCheck_def Let_def answerOf_def
         inconclusive_def image_iff)
qed

lemma evaluate_infeasible:
  "evaluateQuery z3 config ruleId ir = Infeasible \<longleftrightarrow>
     (\<exists>orch. evaluatorConfig config ruleId = Some orch \<and>
        refutes (oc_mode orch)
          (map (answerOf (runtimeQuery orch \<lparr>q_ir = ir, q_ruleId = ruleId,
                            q_budgetNodes = ac_smtBudgetNodes config,
                            q_timeoutMs = ac_smtTimeoutMs config\<rparr>))
             (resolveBackends z3 orch)))"
  by (simp add: evaluateQuery_def orchestratorSolve_def Let_def resolve_ne
        strategy_unsat [symmetric] split: option.split SmtStatus.split)


lemma interval_keeps_feasible:
  assumes "evaluatorConfig config ruleId = Some orch"
    and "oc_mode orch = Portfolio \<or> oc_mode orch = DualConsensus"
    and "\<not> list_ex contradictory (ir_intervals ir)"
  shows "evaluateQuery z3 config ruleId ir \<noteq> Infeasible"
proof -
  have "SmtSat \<in> set (map (answerOf (runtimeQuery orch \<lparr>q_ir = ir, q_ruleId = ruleId,
          q_budgetNodes = ac_smtBudgetNodes config, q_timeoutMs = ac_smtTimeoutMs config\<rparr>))
          (resolveBackends z3 orch))"
    using interval_consulted [OF assms(2), of z3] assms(3)
    by (force simp: answerOf_def interval_status runtimeQuery_def)
  thus ?thesis
    unfolding evaluate_infeasible using assms by auto
qed

section \<open>Soundness of a verdict\<close>

text \<open>
  The contract between the evaluator and its backends: \<open>feasible\<close> is what a query asks,
  and no backend may refute a query that is feasible.
\<close>

locale refinement =
  fixes z3 :: "('v SmtQuery \<Rightarrow> SmtAnswer) option"
    and feasible :: "'v ConstraintIR \<Rightarrow> bool"
  assumes interval_sound: "list_ex contradictory (ir_intervals ir) \<Longrightarrow> \<not> feasible ir"
    and z3_sound: "z3 = Some solve \<Longrightarrow> ans_status (solve q) = SmtUnsat \<Longrightarrow> \<not> feasible (q_ir q)"
begin

lemma created_sound: "answerOf q (createBackend z3 n) = SmtUnsat \<Longrightarrow> \<not> feasible (q_ir q)"
  by (auto simp: createBackend_def Let_def answerOf_def interval_status interval_sound
      UnavailableExternalBackend_def z3_sound split: if_splits option.splits)

lemma backend_sound:
  assumes "b \<in> set (resolveBackends z3 config)" "answerOf q b = SmtUnsat"
  shows "\<not> feasible (q_ir q)"
proof -
  have "list_all (\<lambda>b. answerOf q b = SmtUnsat \<longrightarrow> \<not> feasible (q_ir q)) (resolveBackends z3 config)"
    by (rule resolve_created) (use created_sound in blast)
  thus ?thesis using assms by (auto simp: list_all_iff)
qed

lemma infeasible_sound:
  assumes "evaluateQuery z3 config ruleId ir = Infeasible"
  shows "\<not> feasible ir"
proof -
  obtain orch q where r: "refutes (oc_mode orch) (map (answerOf q) (resolveBackends z3 orch))"
    and q: "q_ir q = ir"
    using assms unfolding evaluate_infeasible by (auto simp: runtimeQuery_def)
  have "SmtUnsat \<in> set (map (answerOf q) (resolveBackends z3 orch))"
    using r resolve_ne [of z3 orch]
    by (cases "oc_mode orch"; cases "resolveBackends z3 orch")
      (auto split: list.splits)
  then obtain b where "b \<in> set (resolveBackends z3 orch)" "answerOf q b = SmtUnsat" by auto
  thus ?thesis using backend_sound q by blast
qed

end

text \<open>Without Z3, a query is feasible when some values of the symbols satisfy its intervals.\<close>

definition intervalHolds :: "(nat \<Rightarrow> int) \<Rightarrow> IntervalConstraint \<Rightarrow> bool" where
  "intervalHolds m c =
     ((iv_hasLower c \<longrightarrow> sint (iv_lower c) \<le> m (iv_symbol c)) \<and>
      (iv_hasUpper c \<longrightarrow> m (iv_symbol c) \<le> sint (iv_upper c)))"

definition intervalFeasible :: "'v ConstraintIR \<Rightarrow> bool" where
  "intervalFeasible ir = (\<exists>m. \<forall>c \<in> set (ir_intervals ir). intervalHolds m c)"

lemma contradictory_infeasible:
  "list_ex contradictory (ir_intervals ir) \<Longrightarrow> \<not> intervalFeasible ir"
  by (force simp: intervalFeasible_def list_ex_iff contradictory_def intervalHolds_def)

interpretation without_z3: refinement None intervalFeasible
  by unfold_locales (simp_all add: contradictory_infeasible)

section \<open>Properties\<close>

text \<open>
  C19: the verdict \<open>Infeasible\<close> of each solver mode. The evaluator returns it exactly when
  the rule is enabled and the answers of the resolved backends, in order, refute the query in
  the sense of the mode: the first one (single), the first one or, after an inconclusive first,
  the second one (cross-check), at least one with none satisfiable (portfolio), all of them
  (dual-consensus).
\<close>

theorem verdict_of_each_mode:
  "evaluateQuery z3 config ruleId ir = Infeasible \<longleftrightarrow>
     (\<exists>orch. evaluatorConfig config ruleId = Some orch \<and>
        refutes (oc_mode orch)
          (map (answerOf (runtimeQuery orch \<lparr>q_ir = ir, q_ruleId = ruleId,
                            q_budgetNodes = ac_smtBudgetNodes config,
                            q_timeoutMs = ac_smtTimeoutMs config\<rparr>))
             (resolveBackends z3 orch)))"
  by (rule evaluate_infeasible)

text \<open>
  Whatever the configuration, the orchestrator has a backend, no two of its backends have
  the same name, and the first one is the configured primary backend; the answer
  \<open>no backend available\<close> is never given.
\<close>

lemma backends_are_resolved:
  "resolveBackends z3 config \<noteq> [] \<and> distinct (map be_name (resolveBackends z3 config)) \<and>
   hd (resolveBackends z3 config) = createBackend z3 (oc_primaryBackend config) \<and>
   dec_answers (orchestratorSolve z3 config q) \<noteq> [] \<and>
   dec_answers (orchestratorSolve z3 config q) =
     strategyRun (oc_mode config) (runtimeQuery config q) (resolveBackends z3 config)"
proof -
  have "strategyRun (oc_mode config) q' (resolveBackends z3 config) \<noteq> []" for q'
    using resolve_ne [of z3 config]
    by (cases "oc_mode config"; cases "resolveBackends z3 config")
      (auto simp: runSingle_def runPortfolio_def runCrossCheck_def Let_def split: list.splits)
  thus ?thesis
    by (simp add: resolve_ne resolve_distinct resolve_hd orchestratorSolve_def Let_def)
qed

end
