(* ===== verification/RecursionPath.thy ===== *)
theory RecursionPath
  imports CallCycles IntRange SmtSolver
begin

text \<open>
  Infinite recursion (\<open>src/analysis/StackComputation.cpp\<close>): the test by dominance, the
  bounded search for a path to a return without a recursive call, and the two decisions
  built from them. A basic block is its calls and returns in order with its terminator;
  LLVM's dominator tree and the SMT query of an edge are arguments. The bound on explored
  states makes the search total.
\<close>

section \<open>Functions\<close>

datatype 'f call_or_return = Call "'f option" | Return | OtherInstruction

datatype ('b, 'a, 'c) terminator =
    CondBr 'c "'a llvalue ICmpInst option" 'b 'b
      \<comment> \<open>condition, the comparison it is (if it is one), true and false successor\<close>
  | Jump "'b list"

record ('f, 'b, 'a, 'c) cfg_function =
  cf_isDeclaration :: bool
  cf_noRecurse :: bool
  cf_blocks :: "'b list"  \<comment> \<open>the first one is the entry\<close>
  cf_instructions :: "'b \<Rightarrow> 'f call_or_return list"
  cf_terminator :: "'b \<Rightarrow> ('b, 'a, 'c) terminator"

section \<open>Dominance\<close>

definition callsRecursively :: "('f \<Rightarrow> bool) \<Rightarrow> 'f call_or_return list \<Rightarrow> bool" where
  "callsRecursively isRecursiveCallee is =
     list_ex (\<lambda>I. case I of Call (Some callee) \<Rightarrow> isRecursiveCallee callee | _ \<Rightarrow> False) is"

definition detectInfiniteRecursionByDominance ::
    "('b \<Rightarrow> 'b \<Rightarrow> bool) \<Rightarrow> ('f, 'b, 'a, 'c) cfg_function \<Rightarrow> ('f \<Rightarrow> bool) \<Rightarrow> bool" where
  "detectInfiniteRecursionByDominance dominates F isRecursiveCallee =
     (let recursiveCallBlocks =
            filter (\<lambda>BB. callsRecursively isRecursiveCallee (cf_instructions F BB)) (cf_blocks F)
      in if recursiveCallBlocks = [] then False
         else list_all (\<lambda>BB. list_all (\<lambda>I. I \<noteq> Return \<or> list_ex (\<lambda>RCB. dominates RCB BB) recursiveCallBlocks)
                               (cf_instructions F BB)) (cf_blocks F))"

section \<open>The path search\<close>


datatype NonRecursiveReturnFeasibility = Exists | DoesNotExist | InconclusivePath

record ('b, 'a) PathState =
  ps_block :: 'b
  ps_predecessor :: "'b option"
  ps_ranges :: "'a llvalue \<rightharpoonup> IntRange"
  ps_keys :: "'a llvalue list"  \<comment> \<open>the keys of \<open>ps_ranges\<close>\<close>
  ps_depth :: nat
  ps_sawRecursiveCall :: bool

text \<open>The instruction loop: whether a recursive call was seen, and whether a return ended it.\<close>

fun scanBlock :: "('f \<Rightarrow> bool) \<Rightarrow> 'f call_or_return list \<Rightarrow> bool \<Rightarrow> bool \<times> bool" where
  "scanBlock isRecursiveCallee [] saw = (saw, False)"
| "scanBlock isRecursiveCallee (Call callee # is) saw =
     scanBlock isRecursiveCallee is
       (case callee of None \<Rightarrow> saw | Some f \<Rightarrow> saw \<or> isRecursiveCallee f)"
| "scanBlock isRecursiveCallee (Return # is) saw = (saw, True)"
| "scanBlock isRecursiveCallee (OtherInstruction # is) saw = scanBlock isRecursiveCallee is saw"

text \<open>\<open>RecursionConstraintEvaluator::isSatisfiable\<close>; \<open>query\<close> is the SMT evaluator.\<close>

type_synonym ('b, 'a, 'c) smt_query =
  "('a llvalue \<rightharpoonup> IntRange) \<Rightarrow> 'c \<Rightarrow> bool \<Rightarrow> 'b \<Rightarrow> 'b option \<Rightarrow> SmtFeasibility"

definition isSatisfiable ::
    "('b, 'a, 'c) smt_query \<Rightarrow> 'a llvalue list \<Rightarrow> ('a llvalue \<rightharpoonup> IntRange) \<Rightarrow> 'c \<Rightarrow> bool \<Rightarrow> 'b \<Rightarrow> 'b option \<Rightarrow>
     ConstraintSat" where
  "isSatisfiable query keys ranges cond takesTrueEdge BB incoming =
     (case query ranges cond takesTrueEdge BB incoming of
        Feasible \<Rightarrow> Sat
      | Infeasible \<Rightarrow> Unsat
      | Inconclusive \<Rightarrow> evaluateIntervalSatisfiability keys ranges)"

definition edgeKey :: "('a llvalue \<Rightarrow> 'a llvalue) \<Rightarrow> 'a llvalue ICmpInst option \<Rightarrow> bool \<Rightarrow> 'a llvalue list" where
  "edgeKey strip icmp takesTrueEdge =
     (case icmp of None \<Rightarrow> []
      | Some i \<Rightarrow> (case deriveEdgeConstraint strip i takesTrueEdge of None \<Rightarrow> [] | Some (k, _) \<Rightarrow> [k]))"

text \<open>One successor of a conditional branch: \<open>Inl\<close> gives up, \<open>Inr None\<close> prunes the edge.\<close>

definition branchSuccessor ::
    "('a llvalue \<Rightarrow> 'a llvalue) \<Rightarrow> ('b, 'a, 'c) smt_query \<Rightarrow> ('b, 'a) PathState \<Rightarrow> bool \<Rightarrow> 'c \<Rightarrow>
     'a llvalue ICmpInst option \<Rightarrow> bool \<Rightarrow> 'b \<Rightarrow> unit + ('b, 'a) PathState option" where
  "branchSuccessor strip query current sawRecursiveCall cond icmp takesTrueEdge succ =
     (case applyEdge strip (ps_ranges current) icmp takesTrueEdge of
        (False, _) \<Rightarrow> Inr None
      | (True, ranges) \<Rightarrow>
          let keys = edgeKey strip icmp takesTrueEdge @ ps_keys current
          in case isSatisfiable query keys ranges cond takesTrueEdge (ps_block current)
                    (ps_predecessor current) of
               Unsat \<Rightarrow> Inr None
             | Unknown \<Rightarrow> Inl ()
             | Sat \<Rightarrow> Inr (Some \<lparr>ps_block = succ, ps_predecessor = Some (ps_block current),
                                 ps_ranges = ranges, ps_keys = keys, ps_depth = ps_depth current + 1,
                                 ps_sawRecursiveCall = sawRecursiveCall\<rparr>))"

fun collectSuccessors :: "(unit + 's option) list \<Rightarrow> unit + 's list" where
  "collectSuccessors [] = Inr []"
| "collectSuccessors (Inl u # rest) = Inl u"
| "collectSuccessors (Inr x # rest) =
     (case collectSuccessors rest of
        Inl u \<Rightarrow> Inl u
      | Inr ss \<Rightarrow> Inr ((case x of None \<Rightarrow> [] | Some s \<Rightarrow> [s]) @ ss))"

definition expandState ::
    "('a llvalue \<Rightarrow> 'a llvalue) \<Rightarrow> ('b, 'a, 'c) smt_query \<Rightarrow> ('f, 'b, 'a, 'c) cfg_function \<Rightarrow>
     ('b, 'a) PathState \<Rightarrow> bool \<Rightarrow> unit + ('b, 'a) PathState list" where
  "expandState strip query F current sawRecursiveCall =
     (case cf_terminator F (ps_block current) of
        CondBr cond icmp succTrue succFalse \<Rightarrow>
          collectSuccessors
            [branchSuccessor strip query current sawRecursiveCall cond icmp True succTrue,
             branchSuccessor strip query current sawRecursiveCall cond icmp False succFalse]
      | Jump succs \<Rightarrow>
          Inr (map (\<lambda>succ. \<lparr>ps_block = succ, ps_predecessor = Some (ps_block current),
                           ps_ranges = ps_ranges current, ps_keys = ps_keys current,
                           ps_depth = ps_depth current + 1,
                           ps_sawRecursiveCall = sawRecursiveCall\<rparr>) succs))"

definition kMaxStates :: nat where "kMaxStates = 4096"
definition kMaxDepth :: nat where "kMaxDepth = 1024"
definition kMaxVisitsPerNode :: nat where "kMaxVisitsPerNode = 128"

text \<open>The work list loop; the first argument is the number of states it may still explore.\<close>

fun searchPaths ::
    "nat \<Rightarrow> ('a llvalue \<Rightarrow> 'a llvalue) \<Rightarrow> ('b, 'a, 'c) smt_query \<Rightarrow> ('f, 'b, 'a, 'c) cfg_function \<Rightarrow>
     ('f \<Rightarrow> bool) \<Rightarrow> ('b \<times> bool \<Rightarrow> nat) \<Rightarrow> bool \<Rightarrow> ('b, 'a) PathState list \<Rightarrow>
     NonRecursiveReturnFeasibility" where
  "searchPaths left strip query F isRec visits sawAnyRecursivePath [] =
     (if sawAnyRecursivePath then DoesNotExist else Exists)"
| "searchPaths 0 strip query F isRec visits sawAnyRecursivePath (current # worklist) = InconclusivePath"
| "searchPaths (Suc left) strip query F isRec visits sawAnyRecursivePath (current # worklist) =
     (if ps_depth current > kMaxDepth then InconclusivePath
      else
        let visitKey = (ps_block current, ps_sawRecursiveCall current);
            visits' = visits(visitKey := visits visitKey + 1)
        in if visits visitKey > kMaxVisitsPerNode
           then searchPaths left strip query F isRec visits' sawAnyRecursivePath worklist
           else case scanBlock isRec (cf_instructions F (ps_block current)) (ps_sawRecursiveCall current) of
                  (saw, True) \<Rightarrow>
                    if \<not> saw then Exists
                    else searchPaths left strip query F isRec visits' True worklist
                | (saw, False) \<Rightarrow>
                    (case expandState strip query F current saw of
                       Inl _ \<Rightarrow> InconclusivePath
                     | Inr next \<Rightarrow>
                         searchPaths left strip query F isRec visits' sawAnyRecursivePath
                           (worklist @ next)))"

definition hasFeasibleNonRecursiveReturnPath ::
    "('a llvalue \<Rightarrow> 'a llvalue) \<Rightarrow> ('b, 'a, 'c) smt_query \<Rightarrow> ('f, 'b, 'a, 'c) cfg_function \<Rightarrow>
     ('f \<Rightarrow> bool) \<Rightarrow> NonRecursiveReturnFeasibility" where
  "hasFeasibleNonRecursiveReturnPath strip query F isRec =
     (case cf_blocks F of
        [] \<Rightarrow> InconclusivePath
      | entry # _ \<Rightarrow>
          searchPaths kMaxStates strip query F isRec (\<lambda>_. 0) False
            [\<lparr>ps_block = entry, ps_predecessor = None, ps_ranges = Map.empty, ps_keys = [],
              ps_depth = 0, ps_sawRecursiveCall = False\<rparr>])"

section \<open>Decisions\<close>

definition hasNoBaseCase ::
    "('b \<Rightarrow> 'b \<Rightarrow> bool) \<Rightarrow> ('a llvalue \<Rightarrow> 'a llvalue) \<Rightarrow> ('b, 'a, 'c) smt_query \<Rightarrow>
     ('f, 'b, 'a, 'c) cfg_function \<Rightarrow> ('f \<Rightarrow> bool) \<Rightarrow> bool" where
  "hasNoBaseCase dominates strip query F isRec =
     (if detectInfiniteRecursionByDominance dominates F isRec then True
      else hasFeasibleNonRecursiveReturnPath strip query F isRec = DoesNotExist)"

definition detectInfiniteSelfRecursion ::
    "('b \<Rightarrow> 'b \<Rightarrow> bool) \<Rightarrow> ('a llvalue \<Rightarrow> 'a llvalue) \<Rightarrow> ('b, 'a, 'c) smt_query \<Rightarrow> 'f \<Rightarrow>
     ('f, 'b, 'a, 'c) cfg_function \<Rightarrow> bool" where
  "detectInfiniteSelfRecursion dominates strip query Self F =
     (if cf_isDeclaration F then False
      else if cf_noRecurse F then False
      else hasNoBaseCase dominates strip query F (\<lambda>Callee. Callee = Self))"

text \<open>The dominator tree is the one of the function at hand.\<close>

definition detectInfiniteRecursionComponent ::
    "('f \<Rightarrow> 'b \<Rightarrow> 'b \<Rightarrow> bool) \<Rightarrow> ('a llvalue \<Rightarrow> 'a llvalue) \<Rightarrow> ('b, 'a, 'c) smt_query \<Rightarrow>
     ('f \<Rightarrow> ('f, 'b, 'a, 'c) cfg_function) \<Rightarrow> 'f list \<Rightarrow> bool" where
  "detectInfiniteRecursionComponent dominates strip query body component =
     (if component = [] then False
      else list_all
             (\<lambda>CF. \<not> cf_isDeclaration (body CF) \<and> \<not> cf_noRecurse (body CF) \<and>
                   hasNoBaseCase (dominates CF) strip query (body CF)
                     (\<lambda>Callee. Callee \<in> set component))
             component)"

section \<open>Paths\<close>

definition termSuccs :: "('b, 'a, 'c) terminator \<Rightarrow> 'b list" where
  "termSuccs t = (case t of CondBr _ _ b b' \<Rightarrow> [b, b'] | Jump bs \<Rightarrow> bs)"

text \<open>Paths from the entry, last block first.\<close>

inductive flow_path :: "('f, 'b, 'a, 'c) cfg_function \<Rightarrow> 'b list \<Rightarrow> bool" for F where
  flow_entry: "cf_blocks F = b # bs \<Longrightarrow> flow_path F [b]"
| flow_step: "flow_path F (b # p) \<Longrightarrow> b' \<in> set (termSuccs (cf_terminator F b)) \<Longrightarrow> flow_path F (b' # b # p)"

text \<open>What a dominator tree promises.\<close>

definition dominance :: "('f, 'b, 'a, 'c) cfg_function \<Rightarrow> ('b \<Rightarrow> 'b \<Rightarrow> bool) \<Rightarrow> bool" where
  "dominance F dominates \<longleftrightarrow> (\<forall>a b p. dominates a b \<longrightarrow> flow_path F (b # p) \<longrightarrow> a \<in> set (b # p))"

lemma dominance_covers_returns:
  assumes "dominance F dominates" and "detectInfiniteRecursionByDominance dominates F isRec"
    and "flow_path F (b # p)" and "b \<in> set (cf_blocks F)" and "Return \<in> set (cf_instructions F b)"
  shows "\<exists>a \<in> set (b # p). callsRecursively isRec (cf_instructions F a)"
proof -
  have "\<exists>RCB. callsRecursively isRec (cf_instructions F RCB) \<and> dominates RCB b"
    using assms(2,4,5)
    by (auto simp: detectInfiniteRecursionByDominance_def Let_def list_all_iff list_ex_iff split: if_splits)
  with assms(1,3) show ?thesis unfolding dominance_def by blast
qed

definition stepNode :: "('f, 'b, 'a, 'c) cfg_function \<Rightarrow> ('f \<Rightarrow> bool) \<Rightarrow> 'b \<times> bool \<Rightarrow> ('b \<times> bool) list" where
  "stepNode F isRec n =
     (case scanBlock isRec (cf_instructions F (fst n)) (snd n) of
        (s, returned) \<Rightarrow> if returned then [] else map (\<lambda>b. (b, s)) (termSuccs (cf_terminator F (fst n))))"

definition reachesReturn :: "('f, 'b, 'a, 'c) cfg_function \<Rightarrow> ('f \<Rightarrow> bool) \<Rightarrow> 'b \<Rightarrow> bool \<Rightarrow> bool" where
  "reachesReturn F isRec entry saw \<longleftrightarrow>
     (\<exists>n. ((entry, False), n) \<in> (edges (stepNode F isRec))\<^sup>* \<and>
        scanBlock isRec (cf_instructions F (fst n)) (snd n) = (saw, True))"

text \<open>Nothing constrains an edge: no comparison with a constant, no verdict from the solver.\<close>

definition prune_free :: "('f, 'b, 'a, 'c) cfg_function \<Rightarrow> ('b, 'a, 'c) smt_query \<Rightarrow> bool" where
  "prune_free F query \<longleftrightarrow>
     (\<forall>b c i t f. cf_terminator F b = CondBr c i t f \<longrightarrow> i = None) \<and>
     (\<forall>r c t b p. query r c t b p \<noteq> Infeasible)"

definition node :: "('b, 'a) PathState \<Rightarrow> 'b \<times> bool" where
  "node s = (ps_block s, ps_sawRecursiveCall s)"

definition plain :: "('b, 'a) PathState \<Rightarrow> bool" where
  "plain s \<longleftrightarrow> ps_ranges s = Map.empty \<and> ps_keys s = []"

lemma branchSuccessor_free:
  assumes "prune_free F query" and "plain current"
  shows "branchSuccessor strip query current saw c None taken succ =
    Inr (Some \<lparr>ps_block = succ, ps_predecessor = Some (ps_block current), ps_ranges = Map.empty,
               ps_keys = [], ps_depth = ps_depth current + 1, ps_sawRecursiveCall = saw\<rparr>)"
  using assms
  by (cases "query Map.empty c taken (ps_block current) (ps_predecessor current)")
     (auto simp: branchSuccessor_def applyEdge_def edgeKey_def isSatisfiable_def
        evaluateIntervalSatisfiability_def plain_def prune_free_def)

lemma expandState_free:
  assumes "prune_free F query" and "plain current"
  shows "\<exists>nxt. expandState strip query F current saw = Inr nxt \<and> (\<forall>s \<in> set nxt. plain s) \<and>
    map node nxt = map (\<lambda>b. (b, saw)) (termSuccs (cf_terminator F (ps_block current)))"
proof (cases "cf_terminator F (ps_block current)")
  case (CondBr c i t f)
  then have "i = None" using assms(1) unfolding prune_free_def by blast
  with CondBr assms show ?thesis
    by (simp add: expandState_def branchSuccessor_free termSuccs_def node_def plain_def)
next
  case (Jump bs)
  with assms(2) show ?thesis by (simp add: expandState_def termSuccs_def node_def plain_def)
qed

text \<open>\<open>K\<close> are the nodes that are expanded or wait in the work list.\<close>

definition expanded_ok ::
    "('f, 'b, 'a, 'c) cfg_function \<Rightarrow> ('f \<Rightarrow> bool) \<Rightarrow> 'b \<Rightarrow> ('b \<times> bool) set \<Rightarrow> bool \<Rightarrow> 'b \<times> bool \<Rightarrow> bool" where
  "expanded_ok F isRec entry K sawAny n \<longleftrightarrow>
     ((entry, False), n) \<in> (edges (stepNode F isRec))\<^sup>* \<and> set (stepNode F isRec n) \<subseteq> K \<and>
     (\<forall>s. scanBlock isRec (cf_instructions F (fst n)) (snd n) = (s, True) \<longrightarrow> s \<and> sawAny)"

definition waiting_ok ::
    "('f, 'b, 'a, 'c) cfg_function \<Rightarrow> ('f \<Rightarrow> bool) \<Rightarrow> 'b \<Rightarrow> ('b, 'a) PathState \<Rightarrow> bool" where
  "waiting_ok F isRec entry s \<longleftrightarrow> plain s \<and> ((entry, False), node s) \<in> (edges (stepNode F isRec))\<^sup>*"

definition known :: "('b \<times> bool \<Rightarrow> nat) \<Rightarrow> ('b, 'a) PathState list \<Rightarrow> ('b \<times> bool) set" where
  "known visits wl = {n. 0 < visits n} \<union> node ` set wl"

definition search_inv ::
    "('f, 'b, 'a, 'c) cfg_function \<Rightarrow> ('f \<Rightarrow> bool) \<Rightarrow> 'b \<Rightarrow> ('b \<times> bool \<Rightarrow> nat) \<Rightarrow> bool \<Rightarrow>
     ('b, 'a) PathState list \<Rightarrow> bool" where
  "search_inv F isRec entry visits sawAny wl \<longleftrightarrow>
     (\<forall>s \<in> set wl. waiting_ok F isRec entry s) \<and> (entry, False) \<in> known visits wl \<and>
     (\<forall>n \<in> {n. 0 < visits n}. expanded_ok F isRec entry (known visits wl) sawAny n) \<and>
     (sawAny \<longrightarrow> reachesReturn F isRec entry True)"

lemma expanded_ok_mono:
  "expanded_ok F isRec entry K sawAny n \<Longrightarrow> K \<subseteq> K' \<Longrightarrow> (sawAny \<Longrightarrow> sawAny') \<Longrightarrow>
     expanded_ok F isRec entry K' sawAny' n"
  unfolding expanded_ok_def by blast

lemma known_visit:
  "known visits (current # wl) \<union> node ` set nxt =
     known (visits(node current := visits (node current) + 1)) (wl @ nxt)"
  by (auto simp: known_def)

lemma visit_set: "{n. 0 < (visits(k := visits k + 1)) n} = insert k {n. (0 :: nat) < visits n}"
  by auto

lemma search_inv_visit:
  assumes inv: "search_inv F isRec entry visits sawAny (current # wl)"
    and nxt: "\<forall>s \<in> set nxt. plain s" "node ` set nxt = set (stepNode F isRec (node current))"
    and ret: "\<And>s. scanBlock isRec (cf_instructions F (ps_block current)) (ps_sawRecursiveCall current) = (s, True) \<Longrightarrow>
       s \<and> sawAny'"
    and saw: "sawAny \<Longrightarrow> sawAny'" "sawAny' \<Longrightarrow> reachesReturn F isRec entry True"
  shows "search_inv F isRec entry (visits(node current := visits (node current) + 1)) sawAny' (wl @ nxt)"
proof -
  let ?K = "known (visits(node current := visits (node current) + 1)) (wl @ nxt)"
  have K: "known visits (current # wl) \<subseteq> ?K" "node ` set nxt \<subseteq> ?K" using known_visit by blast+
  have cur: "((entry, False), node current) \<in> (edges (stepNode F isRec))\<^sup>*"
    using inv by (simp add: search_inv_def waiting_ok_def)
  have "expanded_ok F isRec entry ?K sawAny' (node current)"
  proof -
    have "\<forall>s. scanBlock isRec (cf_instructions F (fst (node current))) (snd (node current)) = (s, True) \<longrightarrow> s \<and> sawAny'"
      using ret by (simp add: node_def) blast
    with cur nxt(2) K(2) show ?thesis unfolding expanded_ok_def by blast
  qed
  moreover have "expanded_ok F isRec entry ?K sawAny' n" if "n \<in> {n. 0 < visits n}" for n
    using inv that K(1) saw(1) unfolding search_inv_def by (blast intro: expanded_ok_mono)
  ultimately have "\<forall>n \<in> {n. 0 < (visits(node current := visits (node current) + 1)) n}.
      expanded_ok F isRec entry ?K sawAny' n"
    unfolding visit_set by blast
  moreover have "waiting_ok F isRec entry s" if "s \<in> set nxt" for s
    using nxt that cur unfolding waiting_ok_def by (auto intro!: rtrancl_into_rtrancl [OF cur])
  moreover have "(entry, False) \<in> ?K" "\<forall>s \<in> set wl. waiting_ok F isRec entry s"
    using inv K(1) by (auto simp: search_inv_def)
  ultimately show ?thesis using saw(2) unfolding search_inv_def set_append by blast
qed

lemma search_inv_skip:
  assumes inv: "search_inv F isRec entry visits sawAny (current # wl)" and "0 < visits (node current)"
  shows "search_inv F isRec entry (visits(node current := visits (node current) + 1)) sawAny wl"
proof -
  have same: "{n. 0 < (visits(node current := visits (node current) + 1)) n} = {n. 0 < visits n}"
    using assms(2) by auto
  have "known visits (current # wl) = known (visits(node current := visits (node current) + 1)) wl"
    using assms(2) unfolding known_def same by auto
  with inv same show ?thesis unfolding search_inv_def by simp
qed

lemma searchPaths_free:
  "prune_free F query \<Longrightarrow> search_inv F isRec entry visits sawAny wl \<Longrightarrow>
    searchPaths left strip query F isRec visits sawAny wl = r \<Longrightarrow> r \<noteq> InconclusivePath \<Longrightarrow>
    r = DoesNotExist \<longleftrightarrow> reachesReturn F isRec entry True \<and> \<not> reachesReturn F isRec entry False"
proof (induction left strip query F isRec visits sawAny wl rule: searchPaths.induct)
  case (1 left strip query F isRec visits sawAny)
  let ?E = "edges (stepNode F isRec)" and ?V = "{n. 0 < visits n}"
  have "set (stepNode F isRec n) \<subseteq> ?V" if "n \<in> ?V" for n
  proof -
    have "expanded_ok F isRec entry ?V sawAny n"
      using 1(2) that by (simp add: search_inv_def known_def del: split_paired_All)
    then show ?thesis by (simp add: expanded_ok_def known_def)
  qed
  then have "?E `` ?V \<subseteq> ?V" unfolding edges_def by blast
  moreover have "(entry, False) \<in> ?V" using 1(2) by (simp add: search_inv_def known_def)
  ultimately have "?E\<^sup>* `` {(entry, False)} \<subseteq> ?V"
    using Image_closed_trancl [of ?E ?V] by blast
  then have all: "0 < visits n" if "((entry, False), n) \<in> ?E\<^sup>*" for n using that by blast
  have "sawAny \<and> s" if "((entry, False), n) \<in> ?E\<^sup>*"
      "scanBlock isRec (cf_instructions F (fst n)) (snd n) = (s, True)" for n s
  proof -
    have "expanded_ok F isRec entry ?V sawAny n"
      using 1(2) all [OF that(1)] by (simp add: search_inv_def known_def del: split_paired_All)
    with that(2) show ?thesis unfolding expanded_ok_def by blast
  qed
  then have "reachesReturn F isRec entry True \<longrightarrow> sawAny" "\<not> reachesReturn F isRec entry False"
    unfolding reachesReturn_def by blast+
  moreover have "sawAny \<longrightarrow> reachesReturn F isRec entry True" using 1(2) by (simp add: search_inv_def)
  ultimately show ?case using 1(3) by auto
next
  case (2 strip query F isRec visits sawAny current wl)
  then show ?case by simp
next
  case (3 left strip query F isRec visits sawAny current wl)
  let ?scan = "scanBlock isRec (cf_instructions F (ps_block current)) (ps_sawRecursiveCall current)"
  let ?visits = "visits(node current := visits (node current) + 1)"
  have key: "(ps_block current, ps_sawRecursiveCall current) = node current" by (simp add: node_def)
  have deep: "\<not> kMaxDepth < ps_depth current" using 3(6,7) by auto
  have cur: "((entry, False), node current) \<in> (edges (stepNode F isRec))\<^sup>*"
    using 3(5) by (simp add: search_inv_def waiting_ok_def)
  show ?case
  proof (cases "kMaxVisitsPerNode < visits (node current)")
    case True
    then have "searchPaths left strip query F isRec ?visits sawAny wl = r"
      using 3(6) deep by (simp add: key Let_def)
    moreover have "search_inv F isRec entry ?visits sawAny wl"
      using 3(5) True by (intro search_inv_skip) simp_all
    ultimately show ?thesis using 3(1) [OF deep refl refl] True 3(4,7) by (simp add: key fun_upd_def)
  next
    case False
    obtain s returned where scan: "?scan = (s, returned)" by fastforce
    show ?thesis
    proof (cases returned)
      case ret: True
      have reach: "reachesReturn F isRec entry s"
        using cur scan ret unfolding reachesReturn_def by (intro exI [of _ "node current"]) (simp add: node_def)
      show ?thesis
      proof (cases s)
        case False
        with scan ret 3(6) deep \<open>\<not> kMaxVisitsPerNode < visits (node current)\<close> have "r = Exists"
          by (simp add: key Let_def)
        with reach False show ?thesis by simp
      next
        case True
        then have run: "searchPaths left strip query F isRec ?visits True wl = r"
          using 3(6) deep False scan ret by (simp add: key Let_def)
        have "search_inv F isRec entry ?visits True (wl @ [])"
          using 3(5) scan ret True reach by (intro search_inv_visit) (auto simp: stepNode_def node_def)
        then show ?thesis using 3(2) [OF deep refl refl] False scan ret True run 3(4,7) by (simp add: key fun_upd_def)
      qed
    next
      case nret: False
      have plain: "plain current" using 3(5) by (simp add: search_inv_def waiting_ok_def)
      obtain nxt where nxt: "expandState strip query F current s = Inr nxt" "\<forall>s \<in> set nxt. plain s"
        "map node nxt = map (\<lambda>b. (b, s)) (termSuccs (cf_terminator F (ps_block current)))"
        using expandState_free [OF 3(4) plain] by blast
      have "set (map node nxt) = set (stepNode F isRec (node current))"
        unfolding nxt(3) using scan nret by (simp add: stepNode_def node_def)
      then have "search_inv F isRec entry ?visits sawAny (wl @ nxt)"
        using 3(5) nxt(2) scan nret by (intro search_inv_visit) (auto simp: search_inv_def)
      moreover have "searchPaths left strip query F isRec ?visits sawAny (wl @ nxt) = r"
        using 3(6) deep False scan nret nxt(1) by (simp add: key Let_def)
      ultimately show ?thesis using 3(3) [OF deep refl refl] False scan nret nxt(1) 3(4,7) by (simp add: key fun_upd_def)
    qed
  qed
qed

lemma recursion_search_exact:
  assumes "prune_free F query" and "cf_blocks F = entry # bs"
    and "hasFeasibleNonRecursiveReturnPath strip query F isRec \<noteq> InconclusivePath"
  shows "hasFeasibleNonRecursiveReturnPath strip query F isRec = DoesNotExist \<longleftrightarrow>
           reachesReturn F isRec entry True \<and> \<not> reachesReturn F isRec entry False"
proof -
  let ?start = "\<lparr>ps_block = entry, ps_predecessor = None, ps_ranges = Map.empty, ps_keys = [],
    ps_depth = 0, ps_sawRecursiveCall = False\<rparr>"
  have "search_inv F isRec entry (\<lambda>_. 0) False [?start]"
    by (simp add: search_inv_def known_def waiting_ok_def plain_def node_def)
  from searchPaths_free [OF assms(1) this refl] assms(2,3) show ?thesis
    by (simp add: hasFeasibleNonRecursiveReturnPath_def)
qed

section \<open>Returning paths\<close>

text \<open>
  Returning runs in terms of paths: the blocks before the last one do not return, and a recursive
  call counts if it comes before the return.
\<close>

definition returningPath :: "('f, 'b, 'a, 'c) cfg_function \<Rightarrow> 'b list \<Rightarrow> bool" where
  "returningPath F p \<longleftrightarrow>
     flow_path F p \<and> Return \<in> set (cf_instructions F (hd p))
     \<and> (\<forall>b \<in> set (tl p). Return \<notin> set (cf_instructions F b))"

definition callsBeforeReturn :: "('f, 'b, 'a, 'c) cfg_function \<Rightarrow> ('f \<Rightarrow> bool) \<Rightarrow> 'b \<Rightarrow> bool" where
  "callsBeforeReturn F isRec b \<longleftrightarrow>
     (\<exists>f. isRec f \<and> Call (Some f) \<in> set (takeWhile (\<lambda>I. I \<noteq> Return) (cf_instructions F b)))"

definition recursesOn :: "('f, 'b, 'a, 'c) cfg_function \<Rightarrow> ('f \<Rightarrow> bool) \<Rightarrow> 'b list \<Rightarrow> bool" where
  "recursesOn F isRec p \<longleftrightarrow> (\<exists>b \<in> set p. callsBeforeReturn F isRec b)"

lemma scanBlock_meaning:
  "scanBlock isRec is saw =
     (saw \<or> (\<exists>f. isRec f \<and> Call (Some f) \<in> set (takeWhile (\<lambda>I. I \<noteq> Return) is)), Return \<in> set is)"
  by (induction isRec "is" saw rule: scanBlock.induct) (auto split: option.splits)

lemma stepNode_meaning:
  "stepNode F isRec (b, saw) =
     (if Return \<in> set (cf_instructions F b) then []
      else map (\<lambda>b'. (b', saw \<or> callsBeforeReturn F isRec b)) (termSuccs (cf_terminator F b)))"
  by (simp add: stepNode_def scanBlock_meaning callsBeforeReturn_def)

lemma steps_of_path:
  assumes "flow_path F p" "cf_blocks F = entry # bs" "\<forall>b \<in> set (tl p). Return \<notin> set (cf_instructions F b)"
  shows "((entry, False), (hd p, recursesOn F isRec (tl p))) \<in> (edges (stepNode F isRec))\<^sup>*"
  using assms
proof (induction rule: flow_path.induct)
  case (flow_entry b bs')
  then show ?case by (simp add: recursesOn_def)
next
  case (flow_step b p b')
  then have "((entry, False), (b, recursesOn F isRec p)) \<in> (edges (stepNode F isRec))\<^sup>*" by simp
  moreover have "((b, recursesOn F isRec p), (b', recursesOn F isRec (b # p))) \<in> edges (stepNode F isRec)"
    using flow_step.hyps(2) flow_step.prems(2) by (auto simp: edges_def stepNode_meaning recursesOn_def)
  ultimately show ?case by (simp add: rtrancl_into_rtrancl)
qed

lemma path_of_steps:
  assumes "((entry, False), n) \<in> (edges (stepNode F isRec))\<^sup>*" "cf_blocks F = entry # bs"
  shows "\<exists>p. flow_path F (fst n # p) \<and> snd n = recursesOn F isRec p
    \<and> (\<forall>b \<in> set p. Return \<notin> set (cf_instructions F b))"
  using assms(1)
proof (induction rule: rtrancl_induct)
  case base
  have "flow_path F [entry]" using assms(2) by (rule flow_entry)
  then show ?case by (intro exI [of _ "[]"]) (simp add: recursesOn_def)
next
  case (step n m)
  then obtain p where p: "flow_path F (fst n # p)" "snd n = recursesOn F isRec p"
    "\<forall>b \<in> set p. Return \<notin> set (cf_instructions F b)" by blast
  have m: "Return \<notin> set (cf_instructions F (fst n))" "fst m \<in> set (termSuccs (cf_terminator F (fst n)))"
    "snd m = (snd n \<or> callsBeforeReturn F isRec (fst n))"
    using step.hyps(2) stepNode_meaning [of F isRec "fst n" "snd n"] by (auto simp: edges_def split: if_splits)
  have "flow_path F (fst m # fst n # p)" using p(1) m(2) by (rule flow_step)
  moreover have "snd m = recursesOn F isRec (fst n # p)" using m(3) p(2) by (auto simp: recursesOn_def)
  ultimately show ?case using p(3) m(1) by (intro exI [of _ "fst n # p"]) simp
qed

lemma reachesReturn_paths:
  assumes "cf_blocks F = entry # bs"
  shows "reachesReturn F isRec entry saw \<longleftrightarrow> (\<exists>p. returningPath F p \<and> recursesOn F isRec p = saw)"
proof
  assume "reachesReturn F isRec entry saw"
  then obtain n where n: "((entry, False), n) \<in> (edges (stepNode F isRec))\<^sup>*"
    "scanBlock isRec (cf_instructions F (fst n)) (snd n) = (saw, True)"
    by (auto simp: reachesReturn_def)
  from path_of_steps [OF n(1) assms] obtain p where p: "flow_path F (fst n # p)"
    "snd n = recursesOn F isRec p" "\<forall>b \<in> set p. Return \<notin> set (cf_instructions F b)" by blast
  have "returningPath F (fst n # p)" using p n(2) by (simp add: returningPath_def scanBlock_meaning)
  moreover have "recursesOn F isRec (fst n # p) = saw"
    using n(2) p(2) by (auto simp: scanBlock_meaning recursesOn_def callsBeforeReturn_def)
  ultimately show "\<exists>p. returningPath F p \<and> recursesOn F isRec p = saw" by blast
next
  assume "\<exists>p. returningPath F p \<and> recursesOn F isRec p = saw"
  then obtain p where p: "returningPath F p" "recursesOn F isRec p = saw" by blast
  then obtain b q where q: "p = b # q" by (cases p) (auto simp: returningPath_def elim: flow_path.cases)
  have "((entry, False), (b, recursesOn F isRec q)) \<in> (edges (stepNode F isRec))\<^sup>*"
    using steps_of_path [of F p entry bs isRec] p(1) assms by (simp add: returningPath_def q)
  moreover have "scanBlock isRec (cf_instructions F b) (recursesOn F isRec q) = (saw, True)"
    using p by (auto simp: scanBlock_meaning returningPath_def recursesOn_def callsBeforeReturn_def q)
  ultimately show "reachesReturn F isRec entry saw"
    unfolding reachesReturn_def by (intro exI [of _ "(b, recursesOn F isRec q)"]) simp
qed

lemma search_decides_paths:
  assumes "prune_free F query" and "cf_blocks F = entry # bs"
    and "hasFeasibleNonRecursiveReturnPath strip query F isRec \<noteq> InconclusivePath"
  shows "hasFeasibleNonRecursiveReturnPath strip query F isRec = DoesNotExist \<longleftrightarrow>
     (\<exists>p. returningPath F p) \<and> \<not> (\<exists>p. returningPath F p \<and> \<not> recursesOn F isRec p)"
  using recursion_search_exact [OF assms] reachesReturn_paths [OF assms(2)] by auto

section \<open>Properties\<close>

text \<open>
  C9: On a function whose branches are not constrained, a conclusive search answers
  \<open>DoesNotExist\<close> exactly when some path of the control flow graph returns and no path returns
  without a recursive call before the return: the visit limit does not lose anything.
\<close>

theorem recursion_search_is_exact_without_constraints:
  assumes "prune_free F query" and "cf_blocks F = entry # bs"
    and "hasFeasibleNonRecursiveReturnPath strip query F isRec \<noteq> InconclusivePath"
  shows "hasFeasibleNonRecursiveReturnPath strip query F isRec = DoesNotExist \<longleftrightarrow>
     (\<exists>p. returningPath F p) \<and> \<not> (\<exists>p. returningPath F p \<and> \<not> recursesOn F isRec p)"
  using assms by (rule search_decides_paths)

text \<open>A function that calls itself (function 0) on both branches before it returns.\<close>

definition always_recursive :: "(nat, nat, nat, nat) cfg_function" where
  "always_recursive = \<lparr>cf_isDeclaration = False, cf_noRecurse = False, cf_blocks = [0, 1, 2],
     cf_instructions = (\<lambda>b. if b = 0 then [OtherInstruction] else [Call (Some 0), Return]),
     cf_terminator = (\<lambda>b. if b = 0 then CondBr 0 None 1 2 else Jump [])\<rparr>"

theorem recursion_search_is_exact_without_constraints_witness:
  "(\<exists>p. returningPath always_recursive p)
     \<and> \<not> (\<exists>p. returningPath always_recursive p \<and> \<not> recursesOn always_recursive (\<lambda>f. f = 0) p)"
proof -
  have free: "prune_free always_recursive (\<lambda>_ _ _ _ _. Inconclusive)"
    by (auto simp: prune_free_def always_recursive_def split: if_splits)
  have run: "hasFeasibleNonRecursiveReturnPath (\<lambda>v. v) (\<lambda>_ _ _ _ _. Inconclusive) always_recursive (\<lambda>f. f = 0) = DoesNotExist"
    by (simp add: hasFeasibleNonRecursiveReturnPath_def always_recursive_def kMaxStates_def kMaxDepth_def
        kMaxVisitsPerNode_def numeral_eq_Suc expandState_def branchSuccessor_def applyEdge_def edgeKey_def
        isSatisfiable_def evaluateIntervalSatisfiability_def Let_def)
  show ?thesis
    using recursion_search_is_exact_without_constraints [OF free, of 0 "[1, 2]" "\<lambda>v. v" "\<lambda>f. f = 0"] run
    by (simp add: always_recursive_def)
qed

text \<open>
  C15: When the dominance test reports infinite recursion, every path from the entry to a
  returning block goes through a block with a recursive call.
\<close>

theorem dominance_test_is_sound:
  assumes "dominance F dominates" and "detectInfiniteRecursionByDominance dominates F isRec"
    and "flow_path F (b # p)" and "b \<in> set (cf_blocks F)" and "Return \<in> set (cf_instructions F b)"
  shows "\<exists>a \<in> set (b # p). callsRecursively isRec (cf_instructions F a)"
  using assms by (rule dominance_covers_returns)

text \<open>A block that calls and returns, dominated by itself.\<close>

definition straight_recursion :: "(nat, nat, nat, nat) cfg_function" where
  "straight_recursion = \<lparr>cf_isDeclaration = False, cf_noRecurse = False, cf_blocks = [0],
     cf_instructions = (\<lambda>_. [Call (Some 0), Return]), cf_terminator = (\<lambda>_. Jump [])\<rparr>"

theorem dominance_test_is_sound_witness:
  "\<exists>a \<in> set [0]. callsRecursively (\<lambda>f. f = 0) (cf_instructions straight_recursion a)"
proof -
  have dom: "dominance straight_recursion (\<lambda>a b. a = b)" by (simp add: dominance_def)
  have det: "detectInfiniteRecursionByDominance (\<lambda>a b. a = b) straight_recursion (\<lambda>f. f = 0)"
    by (simp add: detectInfiniteRecursionByDominance_def straight_recursion_def callsRecursively_def)
  have path: "flow_path straight_recursion [0]"
    by (rule flow_entry) (simp add: straight_recursion_def)
  show ?thesis
    using dominance_test_is_sound [OF dom det path] by (simp add: straight_recursion_def)
qed

text \<open>
  A function that never returns is reported as soon as one of its blocks calls it, also
  when the other branch leaves the program without any recursive call: the presence of a
  return is recorded but not looked at.
\<close>

definition exits_or_recurses :: "(nat, nat, nat, nat) cfg_function" where
  "exits_or_recurses = \<lparr>cf_isDeclaration = False, cf_noRecurse = False, cf_blocks = [0, 1, 2],
     cf_instructions = (\<lambda>b. if b = 0 then [OtherInstruction] else if b = 1 then [Call (Some 0)] else [Call (Some 9)]),
     cf_terminator = (\<lambda>b. if b = 0 then CondBr 0 None 1 2 else Jump [])\<rparr>"

theorem non_returning_function_is_reported:
  "detectInfiniteSelfRecursion dominates strip query 0 exits_or_recurses \<and>
   flow_path exits_or_recurses [2, 0] \<and>
   \<not> list_ex (\<lambda>b. callsRecursively (\<lambda>f. f = 0) (cf_instructions exits_or_recurses b)) [2, 0]"
proof (intro conjI)
  show "detectInfiniteSelfRecursion dominates strip query 0 exits_or_recurses"
    by (simp add: detectInfiniteSelfRecursion_def hasNoBaseCase_def detectInfiniteRecursionByDominance_def
        exits_or_recurses_def callsRecursively_def)
  have "flow_path exits_or_recurses [0]" by (rule flow_entry) (simp add: exits_or_recurses_def)
  then show "flow_path exits_or_recurses [2, 0]"
    by (rule flow_step) (simp add: exits_or_recurses_def termSuccs_def)
qed (simp add: exits_or_recurses_def callsRecursively_def)

end
