(* ===== verification/SmtEncoding.thy ===== *)
theory SmtEncoding
  imports IntRange SmtSolver
begin

text \<open>
  The constraint encoder \<open>src/analysis/smt/SmtEncoding.cpp\<close>: LLVM values become nodes of a
  constraint representation, ranges, assumptions and edge conditions become assertions.
  A module is the finite list of the values a query can reach, each with its kind, type and
  name (\<open>g\<close> below; a value missing from it is a null pointer). \<open>encoder\<close> is the joint
  state of \<open>ConstraintIrBuilder\<close> and \<open>LlvmExprEncoder\<close>. The set \<open>inProgress_\<close> is inserted
  before and erased after a recursive call, so it is an argument of the recursion. Bit widths
  are natural numbers, with the code's test against the largest \<open>std::uint32_t\<close> kept.
\<close>

section \<open>LLVM values\<close>

datatype CastOp = SExtCast | ZExtCast | TruncCast | OtherCast
datatype BinaryOpcode = AddOp | SubOp | MulOp | ShlOp | LShrOp | AShrOp | OtherOp

datatype ('v, 'b) value_kind =
    ConstantIntV ConstantInt
  | ConstantPointerNullV
  | UndefOrPoisonV
  | ArgumentV
  | PhiV "('b \<times> 'v) list"
  | FreezeV 'v
  | SelectV 'v 'v 'v
  | CastV CastOp 'v
  | ICmpV Predicate 'v 'v
  | BinaryV BinaryOpcode bool bool 'v 'v  \<comment> \<open>no signed wrap, no unsigned wrap\<close>
  | OtherV

record ('v, 'b) llvm_value =
  v_kind :: "('v, 'b) value_kind"
  v_intType :: "nat option"  \<comment> \<open>the width of an integer type\<close>
  v_name :: string

type_synonym ('v, 'b) llvm_values = "('v \<times> ('v, 'b) llvm_value) list"

datatype 'v instruction =
    AssumeCall "'v list"  \<comment> \<open>a call of the intrinsic \<open>llvm.assume\<close>\<close>
  | OtherInst

definition kDefaultScalarBitWidth :: nat where "kDefaultScalarBitWidth = 64"
definition uint32_max :: nat where "uint32_max = 2 ^ 32 - 1"

text \<open>The comparison is evaluated on integers; a natural number that large has no normal form.\<close>

definition tooWide :: "nat \<Rightarrow> bool" where
  "tooWide bitWidth = (bitWidth \<ge> uint32_max)"

lemma tooWide_code [code]: "tooWide bitWidth = (int bitWidth \<ge> 4294967295)"
  by (simp add: tooWide_def uint32_max_def)

definition normalizeBitWidth :: "nat \<Rightarrow> nat" where
  "normalizeBitWidth bitWidth = (if bitWidth = 0 then 1 else bitWidth)"

definition inferBitWidth :: "('v, 'b) llvm_value \<Rightarrow> nat" where
  "inferBitWidth v = (case v_intType v of Some w \<Rightarrow> max w 1 | None \<Rightarrow> kDefaultScalarBitWidth)"

fun isBooleanExprKind :: "ExprKind \<Rightarrow> bool" where
  "isBooleanExprKind kind =
     (kind \<in> {Eq, Ne, Ult, Ule, Ugt, Uge, Slt, Sle, Sgt, Sge, And, Or, Not})"

fun getAssumeCondition :: "'v instruction \<Rightarrow> 'v option" where
  "getAssumeCondition (AssumeCall (c # _)) = Some c"
| "getAssumeCondition _ = None"

section \<open>The builder\<close>

record 'v encoder =
  e_ir :: "'v ConstraintIR"
  e_nextSymbolId :: nat
  e_symbolByValue :: "'v \<rightharpoonup> nat"
  e_symbolExprById :: "nat \<rightharpoonup> nat"
  e_cache :: "'v \<rightharpoonup> nat"

definition emptyIR :: "'v ConstraintIR" where
  "emptyIR = \<lparr>ir_symbols = [], ir_nodes = [], ir_assertions = [], ir_entryCondition = None,
              ir_intervals = []\<rparr>"

definition initialEncoder :: "'v encoder" where
  "initialEncoder = \<lparr>e_ir = emptyIR, e_nextSymbolId = 1, e_symbolByValue = Map.empty,
                     e_symbolExprById = Map.empty, e_cache = Map.empty\<rparr>"

definition nodesOf :: "'v encoder \<Rightarrow> ExprNode list" where
  "nodesOf st = ir_nodes (e_ir st)"

definition appendNode :: "ExprNode \<Rightarrow> 'v encoder \<Rightarrow> nat \<times> 'v encoder" where
  "appendNode n st =
     (length (nodesOf st), st \<lparr>e_ir := (e_ir st) \<lparr>ir_nodes := nodesOf st @ [n]\<rparr>\<rparr>)"

definition makeConstant :: "i64 \<Rightarrow> nat \<Rightarrow> 'v encoder \<Rightarrow> nat \<times> 'v encoder" where
  "makeConstant c bitWidth =
     appendNode \<lparr>en_kind = Constant, en_symbol = 0, en_constant = c,
                 en_bitWidth = normalizeBitWidth bitWidth, en_lhs = 0, en_rhs = 0, en_extra = 0\<rparr>"

definition makeTernary :: "ExprKind \<Rightarrow> nat \<Rightarrow> nat \<Rightarrow> nat \<Rightarrow> nat \<Rightarrow> 'v encoder \<Rightarrow> nat \<times> 'v encoder" where
  "makeTernary kind lhs rhs extra bitWidth =
     appendNode \<lparr>en_kind = kind, en_symbol = 0, en_constant = 0,
                 en_bitWidth = normalizeBitWidth bitWidth, en_lhs = lhs, en_rhs = rhs,
                 en_extra = extra\<rparr>"

definition makeBinary :: "ExprKind \<Rightarrow> nat \<Rightarrow> nat \<Rightarrow> nat \<Rightarrow> 'v encoder \<Rightarrow> nat \<times> 'v encoder" where
  "makeBinary kind lhs rhs bitWidth =
     appendNode \<lparr>en_kind = kind, en_symbol = 0, en_constant = 0,
                 en_bitWidth = normalizeBitWidth bitWidth, en_lhs = lhs, en_rhs = rhs, en_extra = 0\<rparr>"

definition makeUnary :: "ExprKind \<Rightarrow> nat \<Rightarrow> nat \<Rightarrow> 'v encoder \<Rightarrow> nat \<times> 'v encoder" where
  "makeUnary kind operand bitWidth =
     appendNode \<lparr>en_kind = kind, en_symbol = 0, en_constant = 0,
                 en_bitWidth = normalizeBitWidth bitWidth, en_lhs = operand, en_rhs = 0, en_extra = 0\<rparr>"

definition buildSymbolName :: "string \<Rightarrow> nat \<Rightarrow> string" where
  "buildSymbolName name i = (if name \<noteq> [] then name else ''sym_'' @ to_string i)"

text \<open>
  The two maps are always updated together, so \<open>symbolExprById_.at\<close> finds its key
  (\<open>symbol_known\<close> below).
\<close>

definition makeSymbol :: "'v \<Rightarrow> string \<Rightarrow> nat \<Rightarrow> 'v encoder \<Rightarrow> nat \<times> 'v encoder" where
  "makeSymbol v name bitWidth st =
     (case e_symbolByValue st v of
        Some i \<Rightarrow> (the (e_symbolExprById st i), st)
      | None \<Rightarrow>
          let i = e_nextSymbolId st;
              (e, st) = appendNode \<lparr>en_kind = Symbol, en_symbol = i, en_constant = 0,
                          en_bitWidth = normalizeBitWidth bitWidth, en_lhs = 0, en_rhs = 0,
                          en_extra = 0\<rparr> st
          in (e, st \<lparr>e_nextSymbolId := i + 1,
                     e_symbolByValue := (e_symbolByValue st)(v \<mapsto> i),
                     e_symbolExprById := (e_symbolExprById st)(i \<mapsto> e),
                     e_ir := (e_ir st) \<lparr>ir_symbols := ir_symbols (e_ir st) @
                        [\<lparr>si_id = i, si_debugName = buildSymbolName name i, si_sourceToken = v\<rparr>]\<rparr>\<rparr>))"

definition addAssertion :: "nat \<Rightarrow> 'v encoder \<Rightarrow> 'v encoder" where
  "addAssertion expr st =
     (let st = st \<lparr>e_ir := (e_ir st) \<lparr>ir_assertions := ir_assertions (e_ir st) @ [expr]\<rparr>\<rparr> in
      case ir_entryCondition (e_ir st) of
        None \<Rightarrow> st \<lparr>e_ir := (e_ir st) \<lparr>ir_entryCondition := Some expr\<rparr>\<rparr>
      | Some entry \<Rightarrow>
          let (both, st) = makeBinary And entry expr 1 st
          in st \<lparr>e_ir := (e_ir st) \<lparr>ir_entryCondition := Some both\<rparr>\<rparr>)"

definition lookupSymbolId :: "'v encoder \<Rightarrow> 'v \<Rightarrow> nat" where
  "lookupSymbolId st v = (case e_symbolByValue st v of None \<Rightarrow> 0 | Some i \<Rightarrow> i)"

section \<open>The expression encoder\<close>

type_synonym 'v encode_result = "nat option \<times> 'v encoder"

text \<open>
  The recursion of \<open>LlvmExprEncoder\<close> is open: \<open>rec\<close> is \<open>encodeValue\<close>. \<open>encodeBoth\<close> evaluates
  two operands in order, the second one also after a failure of the first.
\<close>

definition encodeBoth ::
    "('v \<Rightarrow> 'v encoder \<Rightarrow> 'v encode_result) \<Rightarrow> ('v \<Rightarrow> 'v encoder \<Rightarrow> 'v encode_result) \<Rightarrow>
     'v \<Rightarrow> 'v \<Rightarrow> 'v encoder \<Rightarrow> (nat \<times> nat) option \<times> 'v encoder" where
  "encodeBoth rec1 rec2 a b st =
     (let (lhs, st) = rec1 a st; (rhs, st) = rec2 b st
      in (case lhs of None \<Rightarrow> None | Some l \<Rightarrow> (case rhs of None \<Rightarrow> None | Some r \<Rightarrow> Some (l, r)), st))"

definition encodeAsBoolean ::
    "('v \<Rightarrow> 'v encoder \<Rightarrow> 'v encode_result) \<Rightarrow> 'v \<Rightarrow> 'v encoder \<Rightarrow> 'v encode_result" where
  "encodeAsBoolean rec v st =
     (case rec v st of
        (None, st) \<Rightarrow> (None, st)
      | (Some expr, st) \<Rightarrow>
          let node = nodesOf st ! expr in
          if isBooleanExprKind (en_kind node) then (Some expr, st)
          else let (zero, st) = makeConstant 0 (en_bitWidth node) st;
                   (ne, st) = makeBinary Ne expr zero 1 st
               in (Some ne, st))"

fun arithKind :: "BinaryOpcode \<Rightarrow> ExprKind option" where
  "arithKind AddOp = Some Add"
| "arithKind SubOp = Some Sub"
| "arithKind MulOp = Some Mul"
| "arithKind ShlOp = Some Shl"
| "arithKind LShrOp = Some LShr"
| "arithKind AShrOp = Some AShr"
| "arithKind OtherOp = None"

text \<open>The assertion that the extended result is the operation on the extended operands.\<close>

definition extendedArith ::
    "ExprKind \<Rightarrow> ExprKind \<Rightarrow> ExprKind \<Rightarrow> nat \<Rightarrow> nat \<Rightarrow> nat \<Rightarrow> nat \<Rightarrow> 'v encoder \<Rightarrow> nat \<times> 'v encoder" where
  "extendedArith cmp ext opKind lhs rhs result extWidth st =
     (let (lhsExt, st) = makeUnary ext lhs extWidth st;
          (rhsExt, st) = makeUnary ext rhs extWidth st;
          (resultExt, st) = makeUnary ext result extWidth st;
          (extArith, st) = makeBinary opKind lhsExt rhsExt extWidth st
      in makeBinary cmp resultExt extArith 1 st)"

definition assertNoWrap ::
    "bool \<Rightarrow> ExprKind \<Rightarrow> ExprKind \<Rightarrow> nat \<Rightarrow> nat \<Rightarrow> nat \<Rightarrow> nat \<Rightarrow> 'v encoder \<Rightarrow> 'v encoder" where
  "assertNoWrap flag ext opKind lhs rhs result extWidth st =
     (if flag then let (eq, st) = extendedArith Eq ext opKind lhs rhs result extWidth st
                   in addAssertion eq st
      else st)"

definition encodeBinaryOperator ::
    "('v \<Rightarrow> 'v encoder \<Rightarrow> 'v encode_result) \<Rightarrow> BinaryOpcode \<Rightarrow> bool \<Rightarrow> bool \<Rightarrow> 'v \<Rightarrow> 'v \<Rightarrow> nat \<Rightarrow>
     'v encoder \<Rightarrow> 'v encode_result" where
  "encodeBinaryOperator rec opcode nsw nuw a b bitWidth st =
     (case encodeBoth rec rec a b st of
        (None, st) \<Rightarrow> (None, st)
      | (Some (lhs, rhs), st) \<Rightarrow>
          (case arithKind opcode of
             None \<Rightarrow> (None, st)
           | Some opKind \<Rightarrow>
               let (result, st) = makeBinary opKind lhs rhs bitWidth st in
               if opcode \<notin> {AddOp, SubOp, MulOp} \<or> tooWide bitWidth then (Some result, st)
               else
                 let extWidth = bitWidth + 1;
                     st = assertNoWrap nsw SExt opKind lhs rhs result extWidth st;
                     st = assertNoWrap nuw ZExt opKind lhs rhs result extWidth st
                 in (Some result, st)))"

fun comparisonKind :: "Predicate \<Rightarrow> ExprKind" where
  "comparisonKind ICMP_EQ = Eq"
| "comparisonKind ICMP_NE = Ne"
| "comparisonKind ICMP_ULT = Ult"
| "comparisonKind ICMP_ULE = Ule"
| "comparisonKind ICMP_UGT = Ugt"
| "comparisonKind ICMP_UGE = Uge"
| "comparisonKind ICMP_SLT = Slt"
| "comparisonKind ICMP_SLE = Sle"
| "comparisonKind ICMP_SGT = Sgt"
| "comparisonKind ICMP_SGE = Sge"

definition found :: "nat \<times> 'v encoder \<Rightarrow> 'v encode_result" where
  "found r = (Some (fst r), snd r)"

definition encodeSelect ::
    "('v \<Rightarrow> 'v encoder \<Rightarrow> 'v encode_result) \<Rightarrow> 'v \<Rightarrow> 'v \<Rightarrow> 'v \<Rightarrow> bool \<Rightarrow> nat \<Rightarrow> 'v encoder \<Rightarrow>
     'v encode_result" where
  "encodeSelect rec c t f isBool bitWidth st =
     (case encodeAsBoolean rec c st of
        (None, st) \<Rightarrow> (None, st)
      | (Some cond, st) \<Rightarrow>
          if isBool
          then (case encodeBoth (encodeAsBoolean rec) (encodeAsBoolean rec) t f st of
                  (None, st) \<Rightarrow> (None, st)
                | (Some (trueValue, falseValue), st) \<Rightarrow>
                    let (onTrue, st) = makeBinary And cond trueValue 1 st;
                        (notCond, st) = makeUnary Not cond 1 st;
                        (onFalse, st) = makeBinary And notCond falseValue 1 st
                    in found (makeBinary Or onTrue onFalse 1 st))
          else (case encodeBoth rec rec t f st of
                  (None, st) \<Rightarrow> (None, st)
                | (Some (trueValue, falseValue), st) \<Rightarrow>
                    found (makeTernary Ite cond trueValue falseValue bitWidth st)))"

definition phiOperand :: "'b option \<Rightarrow> ('b \<times> 'v) list \<Rightarrow> 'v option" where
  "phiOperand incomingBlock incoming =
     (case (case incomingBlock of None \<Rightarrow> None | Some b \<Rightarrow> map_of incoming b) of
        Some u \<Rightarrow> Some u
      | None \<Rightarrow> (case incoming of [(_, u)] \<Rightarrow> Some u | _ \<Rightarrow> None))"

definition encodeValueImpl ::
    "('v \<Rightarrow> 'v encoder \<Rightarrow> 'v encode_result) \<Rightarrow> 'b option \<Rightarrow> 'v \<Rightarrow> ('v, 'b) llvm_value \<Rightarrow>
     'v encoder \<Rightarrow> 'v encode_result" where
  "encodeValueImpl rec incomingBlock v val st =
     (let bitWidth = inferBitWidth val;
          symbol = (\<lambda>st. found (makeSymbol v (v_name val) bitWidth st))
      in case v_kind val of
           ConstantIntV c \<Rightarrow> found (makeConstant (getSExtValue c) bitWidth st)
         | ConstantPointerNullV \<Rightarrow> found (makeConstant 0 bitWidth st)
         | UndefOrPoisonV \<Rightarrow> symbol st
         | ArgumentV \<Rightarrow> symbol st
         | PhiV incoming \<Rightarrow>
             (case phiOperand incomingBlock incoming of Some u \<Rightarrow> rec u st | None \<Rightarrow> symbol st)
         | FreezeV u \<Rightarrow> rec u st
         | SelectV c t f \<Rightarrow> encodeSelect rec c t f (v_intType val = Some 1) bitWidth st
         | CastV opcode u \<Rightarrow>
             (case rec u st of
                (None, st) \<Rightarrow> (None, st)
              | (Some operand, st) \<Rightarrow>
                  (case opcode of
                     SExtCast \<Rightarrow> found (makeUnary SExt operand bitWidth st)
                   | ZExtCast \<Rightarrow> found (makeUnary ZExt operand bitWidth st)
                   | TruncCast \<Rightarrow> found (makeUnary Trunc operand bitWidth st)
                   | OtherCast \<Rightarrow> symbol st))
         | ICmpV pred a b \<Rightarrow>
             (case encodeBoth rec rec a b st of
                (None, st) \<Rightarrow> (None, st)
              | (Some (lhs, rhs), st) \<Rightarrow> found (makeBinary (comparisonKind pred) lhs rhs 1 st))
         | BinaryV opcode nsw nuw a b \<Rightarrow> encodeBinaryOperator rec opcode nsw nuw a b bitWidth st
         | OtherV \<Rightarrow> symbol st)"

text \<open>\<open>std::unordered_map::emplace\<close> keeps an entry that is there.\<close>

definition emplaceCache :: "'v \<Rightarrow> nat \<Rightarrow> 'v encoder \<Rightarrow> 'v encoder" where
  "emplaceCache v e st =
     (case e_cache st v of Some _ \<Rightarrow> st | None \<Rightarrow> st \<lparr>e_cache := (e_cache st)(v \<mapsto> e)\<rparr>)"

definition remember :: "'v \<Rightarrow> 'v encode_result \<Rightarrow> 'v encode_result" where
  "remember v r = (case r of (None, st) \<Rightarrow> (None, st) | (Some e, st) \<Rightarrow> (Some e, emplaceCache v e st))"

lemma encodeValueImpl_cong [fundef_cong]:
  assumes "\<And>u s. rec u s = rec' u s" "b = b'" "v = v'" "val = val'" "st = st'"
  shows "encodeValueImpl rec b v val st = encodeValueImpl rec' b' v' val' st'"
proof -
  have "rec = rec'" using assms(1) by blast
  thus ?thesis using assms(2-) by simp
qed

function encodeValue ::
    "('v, 'b) llvm_values \<Rightarrow> 'b option \<Rightarrow> 'v set \<Rightarrow> 'v \<Rightarrow> 'v encoder \<Rightarrow> 'v encode_result" where
  "encodeValue g incomingBlock inProgress v st =
     (case map_of g v of
        None \<Rightarrow> (None, st)
      | Some val \<Rightarrow>
          (case e_cache st v of
             Some e \<Rightarrow> (Some e, st)
           | None \<Rightarrow>
               if v \<in> inProgress
               then remember v (found (makeSymbol v (v_name val) (inferBitWidth val) st))
               else remember v (encodeValueImpl
                      (\<lambda>u s. encodeValue g incomingBlock (insert v inProgress) u s)
                      incomingBlock v val st)))"
  by pat_completeness auto
termination
proof (relation "measure (\<lambda>(g, b, inP, v, st). card (set (map fst g) - inP))", goal_cases)
  case (2 g b inP v st val u s)
  have "v \<in> set (map fst g) - inP" using 2 by (auto dest: map_of_SomeD intro: rev_image_eqI)
  hence "set (map fst g) - insert v inP \<subset> set (map fst g) - inP" by blast
  thus ?case by (simp add: psubset_card_mono)
qed simp

declare encodeValue.simps [simp del]

section \<open>Queries\<close>

definition shouldEncodeRangeConstraint :: "('v, 'b) llvm_value option \<Rightarrow> IntRange \<Rightarrow> bool" where
  "shouldEncodeRangeConstraint val rng =
     (case val of None \<Rightarrow> False
      | Some val \<Rightarrow>
          if v_intType val = None then False
          else if \<not> ir_hasLower rng \<and> \<not> ir_hasUpper rng then False
          else if ir_hasLower rng \<and> ir_hasUpper rng \<and> sint (ir_lower rng) > sint (ir_upper rng)
          then False else True)"

definition pushInterval :: "IntervalConstraint \<Rightarrow> 'v encoder \<Rightarrow> 'v encoder" where
  "pushInterval c st = st \<lparr>e_ir := (e_ir st) \<lparr>ir_intervals := ir_intervals (e_ir st) @ [c]\<rparr>\<rparr>"

text \<open>The assertion \<open>symbolExpr cmp bound\<close> of one end of a range.\<close>

definition assertBound :: "bool \<Rightarrow> ExprKind \<Rightarrow> nat \<Rightarrow> i64 \<Rightarrow> 'v encoder \<Rightarrow> 'v encoder" where
  "assertBound present cmp symbolExpr bound st =
     (if present
      then let (c, st) = makeConstant bound (en_bitWidth (nodesOf st ! symbolExpr)) st;
               (e, st) = makeBinary cmp symbolExpr c 1 st
           in addAssertion e st
      else st)"

definition encodeRange ::
    "('v, 'b) llvm_values \<Rightarrow> 'b option \<Rightarrow> 'v \<times> IntRange \<Rightarrow> 'v encoder \<Rightarrow> 'v encoder" where
  "encodeRange g incomingBlock vr st =
     (let (v, rng) = vr in
      if \<not> shouldEncodeRangeConstraint (map_of g v) rng then st
      else case encodeValue g incomingBlock {} v st of
        (None, st) \<Rightarrow> st
      | (Some expr, st) \<Rightarrow>
          let val = the (map_of g v);
              (symbolExpr, st) = (if lookupSymbolId st v = 0
                                  then makeSymbol v (v_name val) (inferBitWidth val) st
                                  else (expr, st));
              st = pushInterval \<lparr>iv_symbol = lookupSymbolId st v, iv_lower = ir_lower rng,
                                 iv_upper = ir_upper rng, iv_hasLower = ir_hasLower rng,
                                 iv_hasUpper = ir_hasUpper rng\<rparr> st;
              st = assertBound (ir_hasLower rng) Sge symbolExpr (ir_lower rng) st
          in assertBound (ir_hasUpper rng) Sle symbolExpr (ir_upper rng) st)"

definition encodeRangeAssertions ::
    "('v, 'b) llvm_values \<Rightarrow> 'b option \<Rightarrow> ('v \<times> IntRange) list \<Rightarrow> 'v encoder \<Rightarrow> 'v encoder" where
  "encodeRangeAssertions g incomingBlock ranges st = fold (encodeRange g incomingBlock) ranges st"

definition assertBoolean ::
    "('v, 'b) llvm_values \<Rightarrow> 'b option \<Rightarrow> 'v \<Rightarrow> 'v encoder \<Rightarrow> 'v encoder" where
  "assertBoolean g incomingBlock c st =
     (case encodeAsBoolean (encodeValue g incomingBlock {}) c st of
        (None, st) \<Rightarrow> st | (Some e, st) \<Rightarrow> addAssertion e st)"

definition encodeAssume ::
    "('v, 'b) llvm_values \<Rightarrow> 'b option \<Rightarrow> 'v instruction \<Rightarrow> 'v encoder \<Rightarrow> 'v encoder" where
  "encodeAssume g incomingBlock i st =
     (case getAssumeCondition i of None \<Rightarrow> st | Some c \<Rightarrow> assertBoolean g incomingBlock c st)"

definition encodeAssumeAssertions ::
    "('v, 'b) llvm_values \<Rightarrow> 'b option \<Rightarrow> 'v instruction list option \<Rightarrow> 'v encoder \<Rightarrow> 'v encoder" where
  "encodeAssumeAssertions g incomingBlock edgeBlock st =
     (case edgeBlock of None \<Rightarrow> st | Some is \<Rightarrow> fold (encodeAssume g incomingBlock) is st)"

definition encodeEdgeCondition ::
    "('v, 'b) llvm_values \<Rightarrow> 'b option \<Rightarrow> 'v option \<Rightarrow> bool \<Rightarrow> 'v encoder \<Rightarrow> 'v encoder" where
  "encodeEdgeCondition g incomingBlock edgeCondition takesTrueEdge st =
     (case edgeCondition of None \<Rightarrow> st
      | Some c \<Rightarrow>
          (case encodeAsBoolean (encodeValue g incomingBlock {}) c st of
             (None, st) \<Rightarrow> st
           | (Some expr, st) \<Rightarrow>
               let (edgeExpr, st) = (if \<not> takesTrueEdge then makeUnary Not expr 1 st else (expr, st))
               in addAssertion edgeExpr st))"

text \<open>
  The context of a query at an instruction: the instructions of its block that come before
  it (the loop stops at the instruction itself); none without a context.
\<close>

definition encodeAssumesBeforeInstruction ::
    "('v, 'b) llvm_values \<Rightarrow> 'b option \<Rightarrow> ('i \<times> ('i \<times> 'v instruction) list) option \<Rightarrow> 'v encoder \<Rightarrow>
     'v encoder" where
  "encodeAssumesBeforeInstruction g incomingBlock contextInst st =
     (case contextInst of None \<Rightarrow> st
      | Some (inst, block) \<Rightarrow>
          fold (encodeAssume g incomingBlock) (map snd (takeWhile (\<lambda>(i, _). i \<noteq> inst) block)) st)"

fun getArithmeticExprKind :: "BinaryOpcode \<Rightarrow> ExprKind option" where
  "getArithmeticExprKind AddOp = Some Add"
| "getArithmeticExprKind SubOp = Some Sub"
| "getArithmeticExprKind MulOp = Some Mul"
| "getArithmeticExprKind _ = None"

definition encodeWithCustomAssertions ::
    "('v, 'b) llvm_values \<Rightarrow> ('v \<times> IntRange) list \<Rightarrow> 'v option \<Rightarrow> bool \<Rightarrow> 'v instruction list option \<Rightarrow>
     'b option \<Rightarrow> ('v encoder \<Rightarrow> 'v encoder) \<Rightarrow> 'v ConstraintIR" where
  "encodeWithCustomAssertions g ranges edgeCondition takesTrueEdge edgeBlock incomingBlock postEncode =
     (let st = encodeRangeAssertions g incomingBlock ranges initialEncoder;
          st = encodeAssumeAssertions g incomingBlock edgeBlock st;
          st = encodeEdgeCondition g incomingBlock edgeCondition takesTrueEdge st
      in e_ir (postEncode st))"

definition encode ::
    "('v, 'b) llvm_values \<Rightarrow> ('v \<times> IntRange) list \<Rightarrow> 'v option \<Rightarrow> bool \<Rightarrow> 'v instruction list option \<Rightarrow>
     'b option \<Rightarrow> 'v ConstraintIR" where
  "encode g ranges edgeCondition takesTrueEdge edgeBlock incomingBlock =
     encodeWithCustomAssertions g ranges edgeCondition takesTrueEdge edgeBlock incomingBlock (\<lambda>st. st)"

definition encodeRangeConstraints :: "('v, 'b) llvm_values \<Rightarrow> ('v \<times> IntRange) list \<Rightarrow> 'v ConstraintIR" where
  "encodeRangeConstraints g ranges = encode g ranges None True None None"

definition assertOverflow ::
    "ExprKind \<Rightarrow> ('v, 'b) llvm_values \<Rightarrow> 'v \<Rightarrow> 'v encoder \<Rightarrow> 'v encoder" where
  "assertOverflow ext g op st =
     (case map_option v_kind (map_of g op) of
        Some (BinaryV opcode nsw nuw a b) \<Rightarrow>
          (case getArithmeticExprKind opcode of
             None \<Rightarrow> st
           | Some opKind \<Rightarrow>
               (case encodeBoth (encodeValue g None {}) (encodeValue g None {}) a b st of
                  (None, st) \<Rightarrow> st
                | (Some (lhs, rhs), st) \<Rightarrow>
                    let bitWidth = inferBitWidth (the (map_of g op)) in
                    if tooWide bitWidth then st
                    else let (result, st) = makeBinary opKind lhs rhs bitWidth st;
                             (overflow, st) = extendedArith Ne ext opKind lhs rhs result (bitWidth + 1) st
                         in addAssertion overflow st))
      | _ \<Rightarrow> st)"

definition encodeSignedOverflowFeasibility ::
    "('v, 'b) llvm_values \<Rightarrow> ('v \<times> IntRange) list \<Rightarrow> 'v \<Rightarrow> ('i \<times> ('i \<times> 'v instruction) list) option \<Rightarrow>
     'v ConstraintIR" where
  "encodeSignedOverflowFeasibility g ranges op contextInst =
     encodeWithCustomAssertions g ranges None True None None
       (\<lambda>st. assertOverflow SExt g op (encodeAssumesBeforeInstruction g None contextInst st))"

definition encodeUnsignedOverflowFeasibility ::
    "('v, 'b) llvm_values \<Rightarrow> ('v \<times> IntRange) list \<Rightarrow> 'v \<Rightarrow> ('i \<times> ('i \<times> 'v instruction) list) option \<Rightarrow>
     'v ConstraintIR" where
  "encodeUnsignedOverflowFeasibility g ranges op contextInst =
     encodeWithCustomAssertions g ranges None True None None
       (\<lambda>st. assertOverflow ZExt g op (encodeAssumesBeforeInstruction g None contextInst st))"

definition assertComparison ::
    "('v, 'b) llvm_values \<Rightarrow> 'v \<Rightarrow> i64 \<Rightarrow> bool \<Rightarrow> 'v encoder \<Rightarrow> 'v encoder" where
  "assertComparison g lhs rhsConstant isGreater st =
     (case encodeValue g None {} lhs st of
        (None, st) \<Rightarrow> st
      | (Some lhsExpr, st) \<Rightarrow>
          let (rhsExpr, st) = makeConstant rhsConstant (en_bitWidth (nodesOf st ! lhsExpr)) st;
              (e, st) = makeBinary (if isGreater then Sgt else Sle) lhsExpr rhsExpr 1 st
          in addAssertion e st)"

definition encodeSignedComparisonFeasibility ::
    "('v, 'b) llvm_values \<Rightarrow> ('v \<times> IntRange) list \<Rightarrow> 'v \<Rightarrow> i64 \<Rightarrow> bool \<Rightarrow>
     ('i \<times> ('i \<times> 'v instruction) list) option \<Rightarrow> 'v ConstraintIR" where
  "encodeSignedComparisonFeasibility g ranges lhs rhsConstant isGreater contextInst =
     encodeWithCustomAssertions g ranges None True None None
       (\<lambda>st. assertComparison g lhs rhsConstant isGreater
               (encodeAssumesBeforeInstruction g None contextInst st))"

end
