(* ===== verification/SmtSoundness.thy ===== *)
theory SmtSoundness
  imports SmtEncoding
begin

text \<open>
  What the nodes of a constraint representation mean, what a run of the LLVM code is, and the
  soundness of the encoder: under the values of a run, no assertion of the query built for
  that run is false. \<open>opSem\<close> is the bit-vector theory of SMT-LIB; \<open>None\<close> is an ill-sorted
  expression (a Boolean where a bit vector is needed), which no solver decides.
\<close>

section \<open>The meaning of nodes\<close>

datatype smt_value = BoolVal bool | BvVal nat int  \<comment> \<open>width and unsigned value\<close>

definition signedOf :: "nat \<Rightarrow> int \<Rightarrow> int" where
  "signedOf w x = signed_take_bit (w - 1) x"

fun bvOp :: "(nat \<Rightarrow> int \<Rightarrow> int \<Rightarrow> int) \<Rightarrow> smt_value list \<Rightarrow> smt_value option" where
  "bvOp f [BvVal a x, BvVal b y] = (if a = b then Some (BvVal a (take_bit a (f a x y))) else None)"
| "bvOp f _ = None"

fun bvCmp :: "(nat \<Rightarrow> int \<Rightarrow> int \<Rightarrow> bool) \<Rightarrow> smt_value list \<Rightarrow> smt_value option" where
  "bvCmp f [BvVal a x, BvVal b y] = (if a = b then Some (BoolVal (f a x y)) else None)"
| "bvCmp f _ = None"

fun boolOp :: "(bool \<Rightarrow> bool \<Rightarrow> bool) \<Rightarrow> smt_value list \<Rightarrow> smt_value option" where
  "boolOp f [BoolVal a, BoolVal b] = Some (BoolVal (f a b))"
| "boolOp f _ = None"

fun sameSort :: "smt_value \<Rightarrow> smt_value \<Rightarrow> bool" where
  "sameSort (BoolVal _) (BoolVal _) = True"
| "sameSort (BvVal a _) (BvVal b _) = (a = b)"
| "sameSort _ _ = False"

definition equalOp :: "(bool \<Rightarrow> bool) \<Rightarrow> smt_value list \<Rightarrow> smt_value option" where
  "equalOp f vs = (case vs of
     [a, b] \<Rightarrow> if sameSort a b then Some (BoolVal (f (a = b))) else None | _ \<Rightarrow> None)"

definition iteOp :: "smt_value list \<Rightarrow> smt_value option" where
  "iteOp vs = (case vs of
     [BoolVal c, t, f] \<Rightarrow> if sameSort t f then Some (if c then t else f) else None | _ \<Rightarrow> None)"

definition notOp :: "smt_value list \<Rightarrow> smt_value option" where
  "notOp vs = (case vs of [BoolVal b] \<Rightarrow> Some (BoolVal (\<not> b)) | _ \<Rightarrow> None)"

definition resizeOp :: "(nat \<Rightarrow> bool) \<Rightarrow> (nat \<Rightarrow> int \<Rightarrow> int) \<Rightarrow> nat \<Rightarrow> smt_value list \<Rightarrow> smt_value option" where
  "resizeOp valid f w vs = (case vs of
     [BvVal a x] \<Rightarrow> if valid a then Some (BvVal w (take_bit w (f a x))) else None | _ \<Rightarrow> None)"

definition opSem :: "ExprKind \<Rightarrow> nat \<Rightarrow> smt_value list \<Rightarrow> smt_value option" where
  "opSem kind w =
     (case kind of
        Symbol \<Rightarrow> (\<lambda>_. None) | Constant \<Rightarrow> (\<lambda>_. None)
      | Ite \<Rightarrow> iteOp
      | Add \<Rightarrow> bvOp (\<lambda>_ x y. x + y)
      | Sub \<Rightarrow> bvOp (\<lambda>_ x y. x - y)
      | Mul \<Rightarrow> bvOp (\<lambda>_ x y. x * y)
      | Shl \<Rightarrow> bvOp (\<lambda>a x y. if y < int a then x * 2 ^ nat y else 0)
      | LShr \<Rightarrow> bvOp (\<lambda>a x y. if y < int a then x div 2 ^ nat y else 0)
      | AShr \<Rightarrow> bvOp (\<lambda>a x y. if y < int a then signedOf a x div 2 ^ nat y
                             else if signedOf a x < 0 then - 1 else 0)
      | Eq \<Rightarrow> equalOp (\<lambda>b. b)
      | Ne \<Rightarrow> equalOp HOL.Not
      | Ult \<Rightarrow> bvCmp (\<lambda>_ x y. x < y)
      | Ule \<Rightarrow> bvCmp (\<lambda>_ x y. x \<le> y)
      | Ugt \<Rightarrow> bvCmp (\<lambda>_ x y. x > y)
      | Uge \<Rightarrow> bvCmp (\<lambda>_ x y. x \<ge> y)
      | Slt \<Rightarrow> bvCmp (\<lambda>a x y. signedOf a x < signedOf a y)
      | Sle \<Rightarrow> bvCmp (\<lambda>a x y. signedOf a x \<le> signedOf a y)
      | Sgt \<Rightarrow> bvCmp (\<lambda>a x y. signedOf a x > signedOf a y)
      | Sge \<Rightarrow> bvCmp (\<lambda>a x y. signedOf a x \<ge> signedOf a y)
      | And \<Rightarrow> boolOp (\<and>)
      | Or \<Rightarrow> boolOp (\<or>)
      | Not \<Rightarrow> notOp
      | ZExt \<Rightarrow> resizeOp (\<lambda>a. a \<le> w) (\<lambda>_ x. x) w
      | SExt \<Rightarrow> resizeOp (\<lambda>a. a \<le> w) signedOf w
      | Trunc \<Rightarrow> resizeOp (\<lambda>a. w \<le> a) (\<lambda>_ x. x) w)"

definition operandsOf :: "ExprNode \<Rightarrow> nat list" where
  "operandsOf n =
     (if en_kind n \<in> {Symbol, Constant} then []
      else if en_kind n = Ite then [en_lhs n, en_rhs n, en_extra n]
      else if en_kind n \<in> {Not, ZExt, SExt, Trunc} then [en_lhs n]
      else [en_lhs n, en_rhs n])"

definition operandValue :: "smt_value option list \<Rightarrow> nat \<Rightarrow> smt_value option" where
  "operandValue vals i = (if i < length vals then vals ! i else None)"

text \<open>A constant is the 64-bit pattern of its \<open>std::int64_t\<close>, cut or zero extended to the width.\<close>

definition nodeValue :: "(nat \<Rightarrow> int) \<Rightarrow> smt_value option list \<Rightarrow> ExprNode \<Rightarrow> smt_value option" where
  "nodeValue \<sigma> vals n =
     (let w = normalizeBitWidth (en_bitWidth n) in
      if en_kind n = Symbol then Some (BvVal w (take_bit w (\<sigma> (en_symbol n))))
      else if en_kind n = Constant then Some (BvVal w (take_bit w (uint (en_constant n))))
      else case those (map (operandValue vals) (operandsOf n)) of
             None \<Rightarrow> None | Some xs \<Rightarrow> opSem (en_kind n) w xs)"

definition evalNodes :: "(nat \<Rightarrow> int) \<Rightarrow> ExprNode list \<Rightarrow> smt_value option list" where
  "evalNodes \<sigma> ns = foldl (\<lambda>vals n. vals @ [nodeValue \<sigma> vals n]) [] ns"

lemma evalNodes_snoc: "evalNodes \<sigma> (ns @ [n]) = evalNodes \<sigma> ns @ [nodeValue \<sigma> (evalNodes \<sigma> ns) n]"
  by (simp add: evalNodes_def)

lemma length_evalNodes [simp]: "length (evalNodes \<sigma> ns) = length ns"
  by (induction ns rule: rev_induct) (simp_all add: evalNodes_snoc, simp add: evalNodes_def)

lemma evalNodes_prefix: "\<exists>vs. evalNodes \<sigma> (ns @ ms) = evalNodes \<sigma> ns @ vs"
proof (induction ms rule: rev_induct)
  case (snoc m ms)
  thus ?case by (metis append.assoc evalNodes_snoc)
qed simp

lemma evalNodes_stable: "e < length ns \<Longrightarrow> evalNodes \<sigma> (ns @ ms) ! e = evalNodes \<sigma> ns ! e"
  using evalNodes_prefix [of \<sigma> ns ms] by (auto simp: nth_append)

definition valueAt :: "(nat \<Rightarrow> int) \<Rightarrow> 'v encoder \<Rightarrow> nat \<Rightarrow> smt_value option" where
  "valueAt \<sigma> st e = evalNodes \<sigma> (nodesOf st) ! e"

section \<open>Runs of the LLVM code\<close>

definition widthOf :: "('v, 'b) llvm_values \<Rightarrow> 'v \<Rightarrow> nat" where
  "widthOf g v = (case map_of g v of Some val \<Rightarrow> inferBitWidth val | None \<Rightarrow> 0)"

fun compareInts :: "Predicate \<Rightarrow> nat \<Rightarrow> int \<Rightarrow> int \<Rightarrow> bool" where
  "compareInts ICMP_EQ w x y = (x = y)"
| "compareInts ICMP_NE w x y = (x \<noteq> y)"
| "compareInts ICMP_ULT w x y = (x < y)"
| "compareInts ICMP_ULE w x y = (x \<le> y)"
| "compareInts ICMP_UGT w x y = (x > y)"
| "compareInts ICMP_UGE w x y = (x \<ge> y)"
| "compareInts ICMP_SLT w x y = (signedOf w x < signedOf w y)"
| "compareInts ICMP_SLE w x y = (signedOf w x \<le> signedOf w y)"
| "compareInts ICMP_SGT w x y = (signedOf w x > signedOf w y)"
| "compareInts ICMP_SGE w x y = (signedOf w x \<ge> signedOf w y)"

fun arithInt :: "BinaryOpcode \<Rightarrow> int \<Rightarrow> int \<Rightarrow> int" where
  "arithInt AddOp x y = x + y"
| "arithInt SubOp x y = x - y"
| "arithInt MulOp x y = x * y"
| "arithInt _ x y = 0"

text \<open>
  What a \<open>w\<close>-bit operation computes; the wrap flags and the shift amounts say when it is
  poison, which a run does not meet.
\<close>

fun binaryRuns :: "BinaryOpcode \<Rightarrow> nat \<Rightarrow> int \<Rightarrow> int \<Rightarrow> int \<Rightarrow> bool" where
  "binaryRuns ShlOp w x y r = (y < int w \<and> r = take_bit w (x * 2 ^ nat y))"
| "binaryRuns LShrOp w x y r = (y < int w \<and> r = x div 2 ^ nat y)"
| "binaryRuns AShrOp w x y r = (y < int w \<and> r = take_bit w (signedOf w x div 2 ^ nat y))"
| "binaryRuns OtherOp w x y r = True"
| "binaryRuns opcode w x y r = (r = take_bit w (arithInt opcode x y))"

definition flagsRun :: "BinaryOpcode \<Rightarrow> bool \<Rightarrow> bool \<Rightarrow> nat \<Rightarrow> int \<Rightarrow> int \<Rightarrow> int \<Rightarrow> bool" where
  "flagsRun opcode nsw nuw w x y r =
     (opcode \<in> {AddOp, SubOp, MulOp} \<longrightarrow>
        (nsw \<longrightarrow> signedOf w r = arithInt opcode (signedOf w x) (signedOf w y)) \<and>
        (nuw \<longrightarrow> r = arithInt opcode x y))"

definition kindRuns ::
    "('v, 'b) llvm_values \<Rightarrow> 'b option \<Rightarrow> ('v \<Rightarrow> int) \<Rightarrow> ('v, 'b) value_kind \<Rightarrow> nat \<Rightarrow> int \<Rightarrow> bool" where
  "kindRuns g incomingBlock \<rho> kind w r =
     (case kind of
        ConstantIntV c \<Rightarrow> w \<le> 64 \<and> ci_width c = w \<and> uint (ci_bits c) < 2 ^ w \<and> r = uint (ci_bits c)
      | ConstantPointerNullV \<Rightarrow> r = 0
      | PhiV incoming \<Rightarrow>
          (case phiOperand incomingBlock incoming of
             Some u \<Rightarrow> widthOf g u = w \<and> r = \<rho> u | None \<Rightarrow> True)
      | FreezeV u \<Rightarrow> widthOf g u = w \<and> r = \<rho> u
      | SelectV c t f \<Rightarrow> widthOf g c = 1 \<and> widthOf g t = w \<and> widthOf g f = w \<and>
                         r = (if \<rho> c = 1 then \<rho> t else \<rho> f)
      | CastV SExtCast u \<Rightarrow> r = take_bit w (signedOf (widthOf g u) (\<rho> u))
      | CastV ZExtCast u \<Rightarrow> r = take_bit w (\<rho> u)
      | CastV TruncCast u \<Rightarrow> r = take_bit w (\<rho> u)
      | ICmpV p a b \<Rightarrow> w = 1 \<and> widthOf g a = widthOf g b \<and> 0 < widthOf g a \<and>
                       r = of_bool (compareInts p (widthOf g a) (\<rho> a) (\<rho> b))
      | BinaryV opcode nsw nuw a b \<Rightarrow> widthOf g a = w \<and> widthOf g b = w \<and>
          binaryRuns opcode w (\<rho> a) (\<rho> b) r \<and> flagsRun opcode nsw nuw w (\<rho> a) (\<rho> b) r
      | _ \<Rightarrow> True)"

fun kindOperands :: "('v, 'b) value_kind \<Rightarrow> 'v list" where
  "kindOperands (PhiV incoming) = map snd incoming"
| "kindOperands (FreezeV u) = [u]"
| "kindOperands (SelectV c t f) = [c, t, f]"
| "kindOperands (CastV _ u) = [u]"
| "kindOperands (ICmpV _ a b) = [a, b]"
| "kindOperands (BinaryV _ _ _ a b) = [a, b]"
| "kindOperands _ = []"

text \<open>
  \<open>executes g b \<rho> S\<close>: \<open>\<rho>\<close> gives every value of \<open>S\<close>, a set closed under operands, what a
  single pass through the code that came from block \<open>b\<close> computes (unsigned).  One valuation holds
  for all instructions, so a phi and its incoming operand have the same value: iterations of a
  loop that carry a changed value around are not runs in this sense.
\<close>

definition executes :: "('v, 'b) llvm_values \<Rightarrow> 'b option \<Rightarrow> ('v \<Rightarrow> int) \<Rightarrow> 'v set \<Rightarrow> bool" where
  "executes g incomingBlock \<rho> S =
     (\<forall>(v, val) \<in> set g. v \<in> S \<longrightarrow>
        set (kindOperands (v_kind val)) \<subseteq> S \<and> v_intType val \<noteq> Some 0 \<and>
        0 \<le> \<rho> v \<and> \<rho> v < 2 ^ inferBitWidth val \<and>
        kindRuns g incomingBlock \<rho> (v_kind val) (inferBitWidth val) (\<rho> v))"

section \<open>Soundness of the encoder\<close>

text \<open>An expression denotes a \<open>w\<close>-bit value; a Boolean expression denotes a one-bit value.\<close>

definition denotes :: "(nat \<Rightarrow> int) \<Rightarrow> 'v encoder \<Rightarrow> nat \<Rightarrow> nat \<Rightarrow> int \<Rightarrow> bool" where
  "denotes \<sigma> st e w x \<longleftrightarrow>
     e < length (nodesOf st) \<and>
     (if isBooleanExprKind (en_kind (nodesOf st ! e))
      then w = 1 \<and> valueAt \<sigma> st e \<in> {None, Some (BoolVal (x = 1))}
      else en_bitWidth (nodesOf st ! e) = w \<and> valueAt \<sigma> st e \<in> {None, Some (BvVal w x)})"

definition holds :: "(nat \<Rightarrow> int) \<Rightarrow> 'v encoder \<Rightarrow> nat \<Rightarrow> bool" where
  "holds \<sigma> st e \<longleftrightarrow>
     e < length (nodesOf st) \<and> valueAt \<sigma> st e \<in> {None, Some (BoolVal True)}"

definition agrees :: "('v \<Rightarrow> int) \<Rightarrow> (nat \<Rightarrow> int) \<Rightarrow> 'v encoder \<Rightarrow> bool" where
  "agrees \<rho> \<sigma> st \<longleftrightarrow> (\<forall>v i. e_symbolByValue st v = Some i \<longrightarrow> \<sigma> i = \<rho> v)"

definition good :: "('v, 'b) llvm_values \<Rightarrow> ('v \<Rightarrow> int) \<Rightarrow> (nat \<Rightarrow> int) \<Rightarrow> 'v encoder \<Rightarrow> bool" where
  "good g \<rho> \<sigma> st \<longleftrightarrow>
     (\<forall>v e. e_cache st v = Some e \<longrightarrow> denotes \<sigma> st e (widthOf g v) (\<rho> v)) \<and>
     (\<forall>v i. e_symbolByValue st v = Some i \<longrightarrow>
        (\<exists>e. e_symbolExprById st i = Some e \<and> denotes \<sigma> st e (widthOf g v) (\<rho> v))) \<and>
     (\<forall>a \<in> set (ir_assertions (e_ir st)). holds \<sigma> st a) \<and>
     (\<forall>a. ir_entryCondition (e_ir st) = Some a \<longrightarrow> holds \<sigma> st a)"

definition grows :: "'v encoder \<Rightarrow> 'v encoder \<Rightarrow> bool" where
  "grows st st' \<longleftrightarrow>
     (\<exists>ns. nodesOf st' = nodesOf st @ ns) \<and> e_symbolByValue st \<subseteq>\<^sub>m e_symbolByValue st'"

lemma grows_refl [simp]: "grows st st"
  by (auto simp: grows_def)

lemma grows_trans [trans]: "grows a b \<Longrightarrow> grows b c \<Longrightarrow> grows a c"
  by (auto simp: grows_def intro: map_le_trans)

lemma agrees_grows: "agrees \<rho> \<sigma> st' \<Longrightarrow> grows st st' \<Longrightarrow> agrees \<rho> \<sigma> st"
  by (auto simp: agrees_def grows_def map_le_def dom_def)

lemma valueAt_grows: "grows st st' \<Longrightarrow> e < length (nodesOf st) \<Longrightarrow> valueAt \<sigma> st' e = valueAt \<sigma> st e"
  by (auto simp: grows_def valueAt_def evalNodes_stable)

lemma denotes_grows: "grows st st' \<Longrightarrow> denotes \<sigma> st e w x \<Longrightarrow> denotes \<sigma> st' e w x"
  using valueAt_grows [of st st' e \<sigma>] by (auto simp: denotes_def grows_def nth_append)

lemma holds_grows: "grows st st' \<Longrightarrow> holds \<sigma> st e \<Longrightarrow> holds \<sigma> st' e"
  using valueAt_grows [of st st' e \<sigma>] by (auto simp: holds_def grows_def)

text \<open>The symbols: their identifiers are below the counter, and each is the symbol of one value.\<close>

definition symbols_ok :: "'v encoder \<Rightarrow> bool" where
  "symbols_ok st \<longleftrightarrow>
     0 < e_nextSymbolId st \<and>
     (\<forall>v i. e_symbolByValue st v = Some i \<longrightarrow> 0 < i \<and> i < e_nextSymbolId st) \<and>
     (\<forall>u v i. e_symbolByValue st u = Some i \<longrightarrow> e_symbolByValue st v = Some i \<longrightarrow> u = v) \<and>
     (\<forall>s \<in> set (ir_symbols (e_ir st)). e_symbolByValue st (si_sourceToken s) = Some (si_id s))"

text \<open>A step of the encoder and what it leaves, in every run its symbols agree with.\<close>

definition sound_step ::
    "('v, 'b) llvm_values \<Rightarrow> ('v \<Rightarrow> int) \<Rightarrow> 'v encoder \<Rightarrow> 'v encoder \<Rightarrow> ((nat \<Rightarrow> int) \<Rightarrow> bool) \<Rightarrow> bool" where
  "sound_step g \<rho> st st' Q \<longleftrightarrow>
     grows st st' \<and>
     (symbols_ok st \<longrightarrow>
        symbols_ok st' \<and> (\<forall>\<sigma>. agrees \<rho> \<sigma> st' \<longrightarrow> good g \<rho> \<sigma> st \<longrightarrow> good g \<rho> \<sigma> st' \<and> Q \<sigma>))"

lemma sound_stepI:
  assumes "grows st st'" "symbols_ok st \<Longrightarrow> symbols_ok st'"
    "\<And>\<sigma>. symbols_ok st \<Longrightarrow> agrees \<rho> \<sigma> st' \<Longrightarrow> good g \<rho> \<sigma> st \<Longrightarrow> good g \<rho> \<sigma> st' \<and> Q \<sigma>"
  shows "sound_step g \<rho> st st' Q"
  using assms unfolding sound_step_def by blast

lemma sound_refl: "(\<And>\<sigma>. good g \<rho> \<sigma> st \<Longrightarrow> Q \<sigma>) \<Longrightarrow> sound_step g \<rho> st st Q"
  by (auto simp: sound_step_def)

lemma sound_trans:
  assumes "sound_step g \<rho> a b P" "sound_step g \<rho> b c Q"
  shows "sound_step g \<rho> a c (\<lambda>\<sigma>. P \<sigma> \<and> Q \<sigma>)"
proof -
  have "grows a b" "grows b c" using assms by (simp_all add: sound_step_def)
  thus ?thesis using assms unfolding sound_step_def by (meson agrees_grows grows_trans)
qed

lemma sound_weaken:
  assumes "sound_step g \<rho> a b P" "\<And>\<sigma>. P \<sigma> \<Longrightarrow> good g \<rho> \<sigma> b \<Longrightarrow> Q \<sigma>"
  shows "sound_step g \<rho> a b Q"
  using assms unfolding sound_step_def by blast

text \<open>A second step whose own effect is used under what the first one left.\<close>

lemma sound_then:
  assumes "sound_step g \<rho> a b P" "sound_step g \<rho> b c Q"
    and "\<And>\<sigma>. P \<sigma> \<Longrightarrow> Q \<sigma> \<Longrightarrow> grows b c \<Longrightarrow> R \<sigma>"
  shows "sound_step g \<rho> a c R"
proof -
  have "grows b c" using assms(2) by (simp add: sound_step_def)
  from assms(3) [OF _ _ this] show ?thesis
    using sound_weaken [OF sound_trans [OF assms(1,2)]] by blast
qed

lemma sound_grows: "sound_step g \<rho> a b P \<Longrightarrow> grows a b"
  by (simp add: sound_step_def)

lemma good_frame:
  assumes "grows st st'" "good g \<rho> \<sigma> st" "e_cache st' = e_cache st"
    "e_symbolByValue st' = e_symbolByValue st" "e_symbolExprById st' = e_symbolExprById st"
    "ir_assertions (e_ir st') = ir_assertions (e_ir st)"
    "ir_entryCondition (e_ir st') = ir_entryCondition (e_ir st)"
  shows "good g \<rho> \<sigma> st'"
  using assms denotes_grows [OF assms(1)] holds_grows [OF assms(1)]
  unfolding good_def by metis

subsection \<open>The builder\<close>

lemma append_fields [simp]:
  "nodesOf (snd (appendNode n st)) = nodesOf st @ [n]"
  "fst (appendNode n st) = length (nodesOf st)"
  "e_cache (snd (appendNode n st)) = e_cache st"
  "e_symbolByValue (snd (appendNode n st)) = e_symbolByValue st"
  "e_symbolExprById (snd (appendNode n st)) = e_symbolExprById st"
  "e_nextSymbolId (snd (appendNode n st)) = e_nextSymbolId st"
  "ir_assertions (e_ir (snd (appendNode n st))) = ir_assertions (e_ir st)"
  "ir_entryCondition (e_ir (snd (appendNode n st))) = ir_entryCondition (e_ir st)"
  "ir_symbols (e_ir (snd (appendNode n st))) = ir_symbols (e_ir st)"
  "ir_intervals (e_ir (snd (appendNode n st))) = ir_intervals (e_ir st)"
  by (simp_all add: appendNode_def nodesOf_def)

lemma append_value: "valueAt \<sigma> (snd (appendNode n st)) (length (nodesOf st)) =
    nodeValue \<sigma> (evalNodes \<sigma> (nodesOf st)) n"
  by (simp add: valueAt_def evalNodes_snoc nth_append)

lemma append_grows: "grows st (snd (appendNode n st))"
  by (simp add: grows_def)

lemma normalize_pos: "0 < w \<Longrightarrow> normalizeBitWidth w = w"
  by (simp add: normalizeBitWidth_def)

lemma infer_pos [simp]: "0 < inferBitWidth val"
  by (auto simp: inferBitWidth_def kDefaultScalarBitWidth_def split: option.split)


text \<open>\<open>may \<sigma> st e A\<close>: the expression exists and its value, if any, is in \<open>A\<close>.\<close>

definition may :: "(nat \<Rightarrow> int) \<Rightarrow> 'v encoder \<Rightarrow> nat \<Rightarrow> smt_value set \<Rightarrow> bool" where
  "may \<sigma> st e A \<longleftrightarrow> e < length (nodesOf st) \<and> (\<forall>x. valueAt \<sigma> st e = Some x \<longrightarrow> x \<in> A)"

lemma may_grows: "may \<sigma> st e A \<Longrightarrow> grows st st' \<Longrightarrow> may \<sigma> st' e A"
  using valueAt_grows [of st st' e \<sigma>] by (auto simp: may_def grows_def)

lemma may_mono: "may \<sigma> st e A \<Longrightarrow> A \<subseteq> B \<Longrightarrow> may \<sigma> st e B"
  by (auto simp: may_def)

lemma holds_may: "holds \<sigma> st e \<longleftrightarrow> may \<sigma> st e {BoolVal True}"
  by (cases "valueAt \<sigma> st e") (auto simp: holds_def may_def)

definition valuesOf :: "nat \<Rightarrow> int \<Rightarrow> smt_value set" where
  "valuesOf w x = {BvVal w x} \<union> (if w = 1 then {BoolVal (x = 1)} else {})"

lemma denotes_may: "denotes \<sigma> st e w x \<Longrightarrow> may \<sigma> st e (valuesOf w x)"
  by (auto simp: denotes_def may_def valuesOf_def split: if_splits)

lemma denotes_intro:
  assumes "may \<sigma> st e {if isBooleanExprKind k then BoolVal (x = 1) else BvVal w x}"
    "en_kind (nodesOf st ! e) = k" "isBooleanExprKind k \<longrightarrow> w = 1"
    "\<not> isBooleanExprKind k \<longrightarrow> en_bitWidth (nodesOf st ! e) = w"
  shows "denotes \<sigma> st e w x"
  using assms unfolding denotes_def may_def by (cases "valueAt \<sigma> st e") auto

definition is_node :: "ExprKind \<Rightarrow> nat \<Rightarrow> 'v encoder \<Rightarrow> nat \<Rightarrow> bool" where
  "is_node k w st e \<longleftrightarrow> en_kind (nodesOf st ! e) = k \<and> en_bitWidth (nodesOf st ! e) = w"

lemma append_step: "appendNode n st = (e, st') \<Longrightarrow> sound_step g \<rho> st st' (\<lambda>_. True)"
proof (rule sound_stepI)
  assume a: "appendNode n st = (e, st')"
  have s: "st' = snd (appendNode n st)" using a by simp
  show "grows st st'" using append_grows s by simp
  show "symbols_ok st \<Longrightarrow> symbols_ok st'" by (simp add: symbols_ok_def s)
  fix \<sigma> assume g: "good g \<rho> \<sigma> st"
  show "good g \<rho> \<sigma> st' \<and> True"
    by (intro conjI TrueI good_frame [OF _ g]) (simp_all add: s append_grows)
qed

lemma append_may:
  assumes "appendNode n st = (e, st')"
    and "\<And>x. nodeValue \<sigma> (evalNodes \<sigma> (nodesOf st)) n = Some x \<Longrightarrow> x \<in> A"
  shows "may \<sigma> st' e A \<and> is_node (en_kind n) (en_bitWidth n) st' e"
proof -
  have e: "e = length (nodesOf st)" "st' = snd (appendNode n st)"
    using assms(1) append_fields(2) [of n st] by auto
  show ?thesis using assms(2) by (simp add: may_def is_node_def e append_value nth_append)
qed

lemma operand_value:
  "e < length (nodesOf st) \<Longrightarrow> operandValue (evalNodes \<sigma> (nodesOf st)) e = valueAt \<sigma> st e"
  by (simp add: operandValue_def valueAt_def)

definition leafKind :: "ExprKind \<Rightarrow> bool" where
  "leafKind k \<longleftrightarrow> k \<in> {Symbol, Constant}"

definition unaryKind :: "ExprKind \<Rightarrow> bool" where
  "unaryKind k \<longleftrightarrow> k \<in> {Not, ZExt, SExt, Trunc}"

definition binaryKind :: "ExprKind \<Rightarrow> bool" where
  "binaryKind k \<longleftrightarrow> \<not> leafKind k \<and> \<not> unaryKind k \<and> k \<noteq> Ite"

lemma binary_step: "makeBinary k l r w st = (e, st') \<Longrightarrow> sound_step g \<rho> st st' (\<lambda>_. True)"
  unfolding makeBinary_def by (rule append_step)

lemma unary_step: "makeUnary k l w st = (e, st') \<Longrightarrow> sound_step g \<rho> st st' (\<lambda>_. True)"
  unfolding makeUnary_def by (rule append_step)

lemma ternary_step: "makeTernary k l r x w st = (e, st') \<Longrightarrow> sound_step g \<rho> st st' (\<lambda>_. True)"
  unfolding makeTernary_def by (rule append_step)

lemma constant_step: "makeConstant c w st = (e, st') \<Longrightarrow> sound_step g \<rho> st st' (\<lambda>_. True)"
  unfolding makeConstant_def by (rule append_step)

lemma constant_may:
  assumes "makeConstant c w st = (e, st')" "0 < w"
  shows "may \<sigma> st' e {BvVal w (take_bit w (uint c))} \<and> is_node Constant w st' e"
  using append_may [OF assms(1) [unfolded makeConstant_def], of \<sigma> "{BvVal w (take_bit w (uint c))}"]
    assms(2)
  by (simp add: nodeValue_def normalize_pos)

lemma binary_may:
  assumes "makeBinary k l r w st = (e, st')" "0 < w" "binaryKind k"
    and "may \<sigma> st l A" "may \<sigma> st r B"
    and "\<And>a b c. a \<in> A \<Longrightarrow> b \<in> B \<Longrightarrow> opSem k w [a, b] = Some c \<Longrightarrow> c \<in> C"
  shows "may \<sigma> st' e C \<and> is_node k w st' e"
proof -
  have "x \<in> C" if "nodeValue \<sigma> (evalNodes \<sigma> (nodesOf st))
      \<lparr>en_kind = k, en_symbol = 0, en_constant = 0, en_bitWidth = normalizeBitWidth w,
       en_lhs = l, en_rhs = r, en_extra = 0\<rparr> = Some x" for x
    using that assms(2-)
    by (auto simp: nodeValue_def binaryKind_def leafKind_def unaryKind_def operandsOf_def may_def
        operand_value normalize_pos Let_def split: option.splits)
  from append_may [OF assms(1) [unfolded makeBinary_def] this] show ?thesis
    using assms(2) by (simp add: normalize_pos)
qed

lemma unary_may:
  assumes "makeUnary k l w st = (e, st')" "0 < w" "unaryKind k" "may \<sigma> st l A"
    and "\<And>a c. a \<in> A \<Longrightarrow> opSem k w [a] = Some c \<Longrightarrow> c \<in> C"
  shows "may \<sigma> st' e C \<and> is_node k w st' e"
proof -
  have "x \<in> C" if "nodeValue \<sigma> (evalNodes \<sigma> (nodesOf st))
      \<lparr>en_kind = k, en_symbol = 0, en_constant = 0, en_bitWidth = normalizeBitWidth w,
       en_lhs = l, en_rhs = 0, en_extra = 0\<rparr> = Some x" for x
    using that assms(2-)
    by (auto simp: nodeValue_def unaryKind_def operandsOf_def may_def
        operand_value normalize_pos Let_def split: option.splits)
  from append_may [OF assms(1) [unfolded makeUnary_def] this] show ?thesis
    using assms(2) by (simp add: normalize_pos)
qed

lemma ternary_may:
  assumes "makeTernary Ite l r x w st = (e, st')" "0 < w"
    and "may \<sigma> st l A" "may \<sigma> st r B" "may \<sigma> st x D"
    and "\<And>a b d c. a \<in> A \<Longrightarrow> b \<in> B \<Longrightarrow> d \<in> D \<Longrightarrow> opSem Ite w [a, b, d] = Some c \<Longrightarrow> c \<in> C"
  shows "may \<sigma> st' e C \<and> is_node Ite w st' e"
proof -
  have "y \<in> C" if "nodeValue \<sigma> (evalNodes \<sigma> (nodesOf st))
      \<lparr>en_kind = Ite, en_symbol = 0, en_constant = 0, en_bitWidth = normalizeBitWidth w,
       en_lhs = l, en_rhs = r, en_extra = x\<rparr> = Some y" for y
    using that assms(2-)
    by (auto simp: nodeValue_def operandsOf_def may_def
        operand_value normalize_pos Let_def split: option.splits)
  from append_may [OF assms(1) [unfolded makeTernary_def] this] show ?thesis
    using assms(2) by (simp add: normalize_pos)
qed

lemma take_bit_id: "0 \<le> x \<Longrightarrow> x < 2 ^ w \<Longrightarrow> take_bit w (x :: int) = x"
  by (simp add: take_bit_int_eq_self)

lemma symbol_sound:
  assumes sym: "makeSymbol v nm (inferBitWidth val) st = (e, st')"
    and v: "map_of g v = Some val" "0 \<le> \<rho> v" "\<rho> v < 2 ^ inferBitWidth val"
  shows "sound_step g \<rho> st st' (\<lambda>\<sigma>. denotes \<sigma> st' e (widthOf g v) (\<rho> v))"
proof (cases "e_symbolByValue st v")
  case (Some i)
  hence "st' = st" "e = the (e_symbolExprById st i)" using sym by (auto simp: makeSymbol_def)
  moreover have "denotes \<sigma> st (the (e_symbolExprById st i)) (widthOf g v) (\<rho> v)"
    if "good g \<rho> \<sigma> st" for \<sigma>
    using that Some unfolding good_def by force
  ultimately show ?thesis by (auto intro!: sound_refl)
next
  case None
  let ?w = "inferBitWidth val" and ?i = "e_nextSymbolId st"
  let ?n = "\<lparr>en_kind = Symbol, en_symbol = ?i, en_constant = 0, en_bitWidth = ?w,
              en_lhs = 0, en_rhs = 0, en_extra = 0\<rparr>"
  let ?t = "snd (appendNode ?n st)"
  have e: "e = length (nodesOf st)" and f: "nodesOf st' = nodesOf st @ [?n]"
    "e_cache st' = e_cache st" "e_symbolByValue st' = (e_symbolByValue st)(v \<mapsto> ?i)"
    "e_symbolExprById st' = (e_symbolExprById st)(?i \<mapsto> e)" "e_nextSymbolId st' = ?i + 1"
    "ir_assertions (e_ir st') = ir_assertions (e_ir st)"
    "ir_entryCondition (e_ir st') = ir_entryCondition (e_ir st)"
    "ir_symbols (e_ir st') = ir_symbols (e_ir st) @
       [\<lparr>si_id = ?i, si_debugName = buildSymbolName nm ?i, si_sourceToken = v\<rparr>]"
    using sym None
    by (auto simp: makeSymbol_def Let_def normalize_pos nodesOf_def appendNode_def)
  have gr: "grows st st'" using None by (auto simp: grows_def f map_le_def)
  show ?thesis
  proof (rule sound_stepI [OF gr])
    assume ok: "symbols_ok st"
    have "?i \<noteq> j" if "e_symbolByValue st u = Some j" for u j
      using ok that unfolding symbols_ok_def by blast
    moreover have "si_sourceToken s \<noteq> v" if "s \<in> set (ir_symbols (e_ir st))" for s
      using ok that None unfolding symbols_ok_def by force
    ultimately show "symbols_ok st'" using ok unfolding symbols_ok_def f
      by (auto simp: less_SucI split: if_splits)
  next
    fix \<sigma> assume ok: "symbols_ok st" and a: "agrees \<rho> \<sigma> st'" and g: "good g \<rho> \<sigma> st"
    have \<sigma>: "\<sigma> ?i = \<rho> v" using a by (simp add: agrees_def f)
    have val: "valueAt \<sigma> st' e = Some (BvVal ?w (\<rho> v))"
      by (simp add: valueAt_def f e evalNodes_snoc nth_append nodeValue_def normalize_pos \<sigma> take_bit_id v)
    have d: "denotes \<sigma> st' e (widthOf g v) (\<rho> v)"
      using val by (simp add: denotes_def f e nth_append widthOf_def v(1))
    have old: "denotes \<sigma> st x w y \<Longrightarrow> denotes \<sigma> st' x w y" for x w y
      by (rule denotes_grows [OF gr])
    have ne: "?i \<noteq> j" if "e_symbolByValue st u = Some j" for u j
      using ok that unfolding symbols_ok_def by blast
    have "good g \<rho> \<sigma> st'"
      unfolding good_def f
    proof (intro conjI allI ballI impI)
      fix u x assume "e_cache st u = Some x"
      thus "denotes \<sigma> st' x (widthOf g u) (\<rho> u)" using g old unfolding good_def by blast
    next
      fix u j assume s: "((e_symbolByValue st)(v \<mapsto> ?i)) u = Some j"
      show "\<exists>x. ((e_symbolExprById st)(?i \<mapsto> e)) j = Some x \<and> denotes \<sigma> st' x (widthOf g u) (\<rho> u)"
      proof (cases "u = v")
        case True thus ?thesis using s d by simp
      next
        case False
        hence j: "e_symbolByValue st u = Some j" using s by simp
        then obtain x where "e_symbolExprById st j = Some x" "denotes \<sigma> st x (widthOf g u) (\<rho> u)"
          using g unfolding good_def by blast
        thus ?thesis using old ne [OF j] by (intro exI [of _ x]) simp
      qed
    next
      fix x assume "x \<in> set (ir_assertions (e_ir st))"
      thus "holds \<sigma> st' x" using g holds_grows [OF gr] unfolding good_def by blast
    next
      fix x assume "ir_entryCondition (e_ir st) = Some x"
      thus "holds \<sigma> st' x" using g holds_grows [OF gr] unfolding good_def by blast
    qed
    thus "good g \<rho> \<sigma> st' \<and> denotes \<sigma> st' e (widthOf g v) (\<rho> v)" using d by simp
  qed
qed

lemma boolOp_cases:
  "boolOp f [a, b] = Some c \<Longrightarrow> \<exists>x y. a = BoolVal x \<and> b = BoolVal y \<and> c = BoolVal (f x y)"
  by (cases a; cases b) auto

lemma and_true:
  assumes "makeBinary And l r 1 st = (e, st')" "may \<sigma> st l {BoolVal a}" "may \<sigma> st r {BoolVal b}"
  shows "may \<sigma> st' e {BoolVal (a \<and> b)} \<and> is_node And 1 st' e"
  by (rule binary_may [OF assms(1) _ _ assms(2,3)])
    (auto simp: binaryKind_def leafKind_def unaryKind_def opSem_def)

lemma same_nodes:
  assumes "nodesOf st' = nodesOf st"
  shows "denotes \<sigma> st' = denotes \<sigma> st" "holds \<sigma> st' = holds \<sigma> st" "may \<sigma> st' = may \<sigma> st"
  using assms by (auto simp: denotes_def holds_def may_def valueAt_def fun_eq_iff)

lemma good_push:
  assumes "good g \<rho> \<sigma> st" "holds \<sigma> st a"
  shows "good g \<rho> \<sigma> (st \<lparr>e_ir := (e_ir st) \<lparr>ir_assertions := ir_assertions (e_ir st) @ [a]\<rparr>\<rparr>)"
    (is "good g \<rho> \<sigma> ?u")
proof -
  have "nodesOf ?u = nodesOf st" by (simp add: nodesOf_def)
  note eq = same_nodes(1,2) [OF this]
  show ?thesis unfolding good_def eq using assms unfolding good_def by simp
qed

lemma good_entry:
  assumes "good g \<rho> \<sigma> st" "holds \<sigma> st a"
  shows "good g \<rho> \<sigma> (st \<lparr>e_ir := (e_ir st) \<lparr>ir_entryCondition := Some a\<rparr>\<rparr>)"
    (is "good g \<rho> \<sigma> ?u")
proof -
  have "nodesOf ?u = nodesOf st" by (simp add: nodesOf_def)
  note eq = same_nodes(1,2) [OF this]
  show ?thesis unfolding good_def eq using assms unfolding good_def by simp
qed

lemma grows_same: "nodesOf st' = nodesOf st \<Longrightarrow> e_symbolByValue st' = e_symbolByValue st \<Longrightarrow> grows st st'"
  by (simp add: grows_def)

lemma symbols_same:
  "e_symbolByValue st' = e_symbolByValue st \<Longrightarrow> e_nextSymbolId st' = e_nextSymbolId st \<Longrightarrow>
   ir_symbols (e_ir st') = ir_symbols (e_ir st) \<Longrightarrow> symbols_ok st' = symbols_ok st"
  by (simp add: symbols_ok_def)

lemma agrees_same: "e_symbolByValue st' = e_symbolByValue st \<Longrightarrow> agrees \<rho> \<sigma> st' = agrees \<rho> \<sigma> st"
  by (simp add: agrees_def)

lemma sound_update:
  assumes s: "sound_step g \<rho> st0 st P"
    and same: "nodesOf st' = nodesOf st" "e_symbolByValue st' = e_symbolByValue st"
      "e_nextSymbolId st' = e_nextSymbolId st" "ir_symbols (e_ir st') = ir_symbols (e_ir st)"
    and keep: "\<And>\<sigma>. P \<sigma> \<Longrightarrow> good g \<rho> \<sigma> st \<Longrightarrow> good g \<rho> \<sigma> st'"
  shows "sound_step g \<rho> st0 st' P"
  using s grows_trans [OF _ grows_same [OF same(1,2)], of st0] keep
  unfolding sound_step_def symbols_same [OF same(2-4)] agrees_same [OF same(2)] by blast

lemma assertion_sound:
  assumes s: "sound_step g \<rho> st0 st P" and P: "\<And>\<sigma>. P \<sigma> \<Longrightarrow> holds \<sigma> st a"
  shows "sound_step g \<rho> st0 (addAssertion a st) P"
proof -
  let ?u = "st \<lparr>e_ir := (e_ir st) \<lparr>ir_assertions := ir_assertions (e_ir st) @ [a]\<rparr>\<rparr>"
  have u: "sound_step g \<rho> st0 ?u P"
    by (rule sound_update [OF s]) (simp_all add: nodesOf_def good_push P)
  have hu: "holds \<sigma> ?u x = holds \<sigma> st x" for \<sigma> x
    using same_nodes(2) [of ?u st \<sigma>] by (simp add: nodesOf_def)
  show ?thesis
  proof (cases "ir_entryCondition (e_ir st)")
    case None
    hence "addAssertion a st = ?u \<lparr>e_ir := (e_ir ?u) \<lparr>ir_entryCondition := Some a\<rparr>\<rparr>"
      by (simp add: addAssertion_def)
    thus ?thesis
      using sound_update [OF u, of "?u \<lparr>e_ir := (e_ir ?u) \<lparr>ir_entryCondition := Some a\<rparr>\<rparr>"]
        good_entry [of g \<rho> _ ?u a] P hu by (simp add: nodesOf_def)
  next
    case (Some c)
    obtain e w where mk: "makeBinary And c a 1 ?u = (e, w)" by force
    have add: "addAssertion a st = w \<lparr>e_ir := (e_ir w) \<lparr>ir_entryCondition := Some e\<rparr>\<rparr>"
      using Some mk by (simp add: addAssertion_def)
    have w: "sound_step g \<rho> st0 w (\<lambda>\<sigma>. P \<sigma> \<and> holds \<sigma> w e)"
    proof (rule sound_then [OF _ binary_step [OF mk]])
      show "sound_step g \<rho> st0 ?u (\<lambda>\<sigma>. P \<sigma> \<and> holds \<sigma> ?u c)"
        by (rule sound_weaken [OF u]) (simp add: good_def Some)
      fix \<sigma> assume "P \<sigma> \<and> holds \<sigma> ?u c"
      thus "P \<sigma> \<and> holds \<sigma> w e"
        using and_true [OF mk, of \<sigma> True True] P hu by (simp add: holds_may)
    qed
    show ?thesis unfolding add
      by (rule sound_weaken [OF sound_update [OF w]]) (auto simp: nodesOf_def good_entry)
  qed
qed

lemma remember_sound:
  assumes "sound_step g \<rho> st0 (snd r) (\<lambda>\<sigma>. \<forall>e. fst r = Some e \<longrightarrow> denotes \<sigma> (snd r) e (widthOf g v) (\<rho> v))"
  shows "sound_step g \<rho> st0 (snd (remember v r))
    (\<lambda>\<sigma>. \<forall>e. fst (remember v r) = Some e \<longrightarrow>
       denotes \<sigma> (snd (remember v r)) e (widthOf g v) (\<rho> v))"
proof (cases "fst r")
  case None
  thus ?thesis using assms by (cases r) (simp add: remember_def)
next
  case (Some e)
  then obtain st where r: "r = (Some e, st)" by (cases r) simp
  have same: "nodesOf (emplaceCache v e st) = nodesOf st"
    "e_symbolByValue (emplaceCache v e st) = e_symbolByValue st"
    "e_nextSymbolId (emplaceCache v e st) = e_nextSymbolId st"
    "ir_symbols (e_ir (emplaceCache v e st)) = ir_symbols (e_ir st)"
    by (simp_all add: emplaceCache_def nodesOf_def split: option.split)
  have keep: "good g \<rho> \<sigma> (emplaceCache v e st)"
    if "denotes \<sigma> st e (widthOf g v) (\<rho> v)" "good g \<rho> \<sigma> st" for \<sigma>
  proof (cases "e_cache st v")
    case None
    thus ?thesis using that unfolding good_def same_nodes(1,2) [OF same(1)]
      by (simp add: emplaceCache_def)
  qed (use that in \<open>simp add: emplaceCache_def\<close>)
  have "sound_step g \<rho> st0 (emplaceCache v e st) (\<lambda>\<sigma>. denotes \<sigma> st e (widthOf g v) (\<rho> v))"
    by (rule sound_update [OF _ same]) (use assms keep r in auto)
  thus ?thesis by (simp add: r remember_def same_nodes(1) [OF same(1)])
qed

subsection \<open>The expression encoder\<close>

text \<open>The outcome of an encoding step: the expression it found satisfies \<open>P\<close>.\<close>

definition outcome ::
    "('v, 'b) llvm_values \<Rightarrow> ('v \<Rightarrow> int) \<Rightarrow> 'v encoder \<Rightarrow> ((nat \<Rightarrow> int) \<Rightarrow> 'v encoder \<Rightarrow> nat \<Rightarrow> bool) \<Rightarrow>
     'v encode_result \<Rightarrow> bool" where
  "outcome g \<rho> st P r \<longleftrightarrow> sound_step g \<rho> st (snd r) (\<lambda>\<sigma>. \<forall>e. fst r = Some e \<longrightarrow> P \<sigma> (snd r) e)"

definition encodes :: "('v, 'b) llvm_values \<Rightarrow> ('v \<Rightarrow> int) \<Rightarrow> 'v encoder \<Rightarrow> 'v \<Rightarrow> 'v encode_result \<Rightarrow> bool" where
  "encodes g \<rho> st v r \<longleftrightarrow> outcome g \<rho> st (\<lambda>\<sigma> st e. denotes \<sigma> st e (widthOf g v) (\<rho> v)) r"

definition truth :: "(nat \<Rightarrow> int) \<Rightarrow> 'v encoder \<Rightarrow> nat \<Rightarrow> bool \<Rightarrow> bool" where
  "truth \<sigma> st e b \<longleftrightarrow> may \<sigma> st e {BoolVal b} \<and> isBooleanExprKind (en_kind (nodesOf st ! e))"

lemma node_grows: "e < length (nodesOf st) \<Longrightarrow> grows st st' \<Longrightarrow> nodesOf st' ! e = nodesOf st ! e"
  by (auto simp: grows_def nth_append)

lemma truth_grows: "truth \<sigma> st e b \<Longrightarrow> grows st st' \<Longrightarrow> truth \<sigma> st' e b"
  unfolding truth_def using may_grows node_grows unfolding may_def by metis

lemma outcome_none: "sound_step g \<rho> st st' P \<Longrightarrow> outcome g \<rho> st Q (None, st')"
  by (auto simp: outcome_def sound_step_def)

lemma outcome_some:
  "sound_step g \<rho> st st' P \<Longrightarrow> (\<And>\<sigma>. P \<sigma> \<Longrightarrow> good g \<rho> \<sigma> st' \<Longrightarrow> Q \<sigma> st' e) \<Longrightarrow> outcome g \<rho> st Q (Some e, st')"
  by (auto simp: outcome_def intro: sound_weaken)

lemma outcome_step: "outcome g \<rho> st P (r, st') \<Longrightarrow> sound_step g \<rho> st st' (\<lambda>\<sigma>. \<forall>e. r = Some e \<longrightarrow> P \<sigma> st' e)"
  by (simp add: outcome_def)

lemma outcome_found:
  "sound_step g \<rho> st st' P \<Longrightarrow> (\<And>\<sigma>. P \<sigma> \<Longrightarrow> Q \<sigma> st' e) \<Longrightarrow> outcome g \<rho> st Q (found (e, st'))"
  by (simp add: found_def outcome_some)

lemma both_sound:
  assumes run: "encodeBoth rec1 rec2 a b st = (r, st')"
    and one: "\<And>s. outcome g \<rho> s P (rec1 a s)" and two: "\<And>s. outcome g \<rho> s Q (rec2 b s)"
    and stable: "\<And>\<sigma> s s' e. P \<sigma> s e \<Longrightarrow> grows s s' \<Longrightarrow> P \<sigma> s' e"
  shows "sound_step g \<rho> st st' (\<lambda>\<sigma>. \<forall>l k. r = Some (l, k) \<longrightarrow> P \<sigma> st' l \<and> Q \<sigma> st' k)"
proof -
  obtain lo s1 ro s2 where m: "rec1 a st = (lo, s1)" "rec2 b s1 = (ro, s2)" by force
  have st': "st' = s2" and r: "r = Some (l, k) \<Longrightarrow> lo = Some l \<and> ro = Some k" for l k
    using run by (auto simp: encodeBoth_def m split: option.splits)
  have 1: "sound_step g \<rho> st s1 (\<lambda>\<sigma>. \<forall>e. lo = Some e \<longrightarrow> P \<sigma> s1 e)"
    using one [of st] by (simp add: m outcome_def)
  have 2: "sound_step g \<rho> s1 s2 (\<lambda>\<sigma>. \<forall>e. ro = Some e \<longrightarrow> Q \<sigma> s2 e)"
    using two [of s1] by (simp add: m outcome_def)
  show ?thesis unfolding st'
    by (rule sound_then [OF 1 2]) (auto dest!: r intro: stable)
qed

lemma valuesOf_zero:
  assumes "a \<in> valuesOf 1 x" "0 \<le> x" "x < 2"
    and "opSem Ne w [a, BvVal 1 0] = Some c"
  shows "c = BoolVal (x = 1)"
  using assms by (auto simp: valuesOf_def opSem_def equalOp_def split: if_splits)

lemma as_boolean_sound:
  assumes rec: "\<And>s. encodes g \<rho> s v (rec v s)"
    and w: "widthOf g v = 1" "0 \<le> \<rho> v" "\<rho> v < 2"
  shows "outcome g \<rho> st (\<lambda>\<sigma> st e. truth \<sigma> st e (\<rho> v = 1)) (encodeAsBoolean rec v st)"
proof (cases "rec v st")
  case (Pair r s1)
  have 1: "sound_step g \<rho> st s1 (\<lambda>\<sigma>. \<forall>e. r = Some e \<longrightarrow> denotes \<sigma> s1 e 1 (\<rho> v))"
    using rec [of st] by (simp add: encodes_def Pair outcome_def w)
  show ?thesis
  proof (cases r)
    case None
    thus ?thesis using outcome_none [OF 1] Pair by (simp add: encodeAsBoolean_def)
  next
    case (Some e)
    let ?n = "nodesOf s1 ! e"
    show ?thesis
    proof (cases "isBooleanExprKind (en_kind ?n)")
      case True
      hence "encodeAsBoolean rec v st = (Some e, s1)"
        using Some Pair by (simp add: encodeAsBoolean_def del: isBooleanExprKind.simps)
      moreover have "truth \<sigma> s1 e (\<rho> v = 1)" if "denotes \<sigma> s1 e 1 (\<rho> v)" for \<sigma>
        using that True unfolding denotes_def truth_def may_def
        by (auto simp del: isBooleanExprKind.simps)
      ultimately show ?thesis using outcome_some [OF 1] Some by simp
    next
      case False
      obtain z s2 where z: "makeConstant 0 (en_bitWidth ?n) s1 = (z, s2)" by force
      obtain ne s3 where ne: "makeBinary Ne e z 1 s2 = (ne, s3)" by force
      have run: "encodeAsBoolean rec v st = (Some ne, s3)"
        using Some Pair False z ne by (simp add: encodeAsBoolean_def del: isBooleanExprKind.simps)
      have 2: "sound_step g \<rho> st s2 (\<lambda>\<sigma>. denotes \<sigma> s2 e 1 (\<rho> v) \<and> may \<sigma> s2 z {BvVal 1 0})"
      proof (rule sound_then [OF 1 constant_step [OF z]])
        fix \<sigma> assume "\<forall>e. r = Some e \<longrightarrow> denotes \<sigma> s1 e 1 (\<rho> v)" and g: "grows s1 s2"
        hence d: "denotes \<sigma> s1 e 1 (\<rho> v)" using Some by simp
        have "en_bitWidth ?n = 1" using d False by (simp add: denotes_def)
        hence "may \<sigma> s2 z {BvVal 1 0}" using constant_may [OF z, of \<sigma>] by simp
        thus "denotes \<sigma> s2 e 1 (\<rho> v) \<and> may \<sigma> s2 z {BvVal 1 0}" using denotes_grows [OF g d] by simp
      qed
      have "sound_step g \<rho> st s3 (\<lambda>\<sigma>. truth \<sigma> s3 ne (\<rho> v = 1))"
      proof (rule sound_then [OF 2 binary_step [OF ne]])
        fix \<sigma> assume a: "denotes \<sigma> s2 e 1 (\<rho> v) \<and> may \<sigma> s2 z {BvVal 1 0}"
        have "may \<sigma> s3 ne {BoolVal (\<rho> v = 1)} \<and> is_node Ne 1 s3 ne"
          by (rule binary_may [OF ne _ _ denotes_may [of \<sigma> s2 e 1 "\<rho> v"]])
            (use a w valuesOf_zero in \<open>auto simp: binaryKind_def leafKind_def unaryKind_def\<close>)
        thus "truth \<sigma> s3 ne (\<rho> v = 1)" by (simp add: truth_def is_node_def)
      qed
      thus ?thesis unfolding run by (rule outcome_some)
    qed
  qed
qed

subsection \<open>Arithmetic\<close>

lemma arith_value:
  assumes "arithKind opcode = Some k" "binaryRuns opcode w x y r" "0 \<le> r" "r < 2 ^ w"
    and "a \<in> valuesOf w x" "b \<in> valuesOf w y" "opSem k w' [a, b] = Some c"
  shows "c = BvVal w r"
proof -
  have t: "take_bit w r = r" by (rule take_bit_id [OF assms(3,4)])
  show ?thesis using assms t
    by (cases opcode) (auto simp: opSem_def valuesOf_def split: if_splits)
qed

lemma arith_binaryKind: "arithKind opcode = Some k \<Longrightarrow> binaryKind k \<and> \<not> isBooleanExprKind k"
  by (cases opcode) (auto simp: binaryKind_def leafKind_def unaryKind_def)

definition extOf :: "ExprKind \<Rightarrow> nat \<Rightarrow> int \<Rightarrow> int" where
  "extOf ext w x = (if ext = SExt then signedOf w x else x)"

lemma ext_may:
  assumes "makeUnary ext l (w + 1) st = (e, st')" "ext = SExt \<or> ext = ZExt" "may \<sigma> st l (valuesOf w x)"
  shows "may \<sigma> st' e {BvVal (w + 1) (take_bit (w + 1) (extOf ext w x))}"
proof -
  have "may \<sigma> st' e {BvVal (w + 1) (take_bit (w + 1) (extOf ext w x))} \<and> is_node ext (w + 1) st' e"
    by (rule unary_may [OF assms(1) _ _ assms(3)])
      (use assms(2) in \<open>auto simp: unaryKind_def opSem_def resizeOp_def valuesOf_def extOf_def
        split: if_splits\<close>)
  thus ?thesis by simp
qed

text \<open>
  The comparison \<open>extendedArith\<close> builds: whether the extended result is the operation on the
  extended operands, in one bit more.
\<close>

definition extended_exact :: "ExprKind \<Rightarrow> BinaryOpcode \<Rightarrow> nat \<Rightarrow> int \<Rightarrow> int \<Rightarrow> int \<Rightarrow> bool" where
  "extended_exact ext opcode w x y r \<longleftrightarrow>
     take_bit (w + 1) (extOf ext w r) = take_bit (w + 1) (arithInt opcode (extOf ext w x) (extOf ext w y))"

lemma take_bit_arith:
  "take_bit n (arithInt opcode (take_bit n x) (take_bit n y)) = take_bit n (arithInt opcode x y)"
  by (cases opcode) (simp_all add: take_bit_add take_bit_diff take_bit_mult)

lemma extended_sound:
  assumes run: "extendedArith cmp ext k lhs rhs result (w + 1) st = (e, st')"
    and kinds: "cmp = Eq \<or> cmp = Ne" "ext = SExt \<or> ext = ZExt"
    and k: "arithKind opcode = Some k" "opcode \<in> {AddOp, SubOp, MulOp}"
  shows "sound_step g \<rho> st st' (\<lambda>_. True)"
    and "may \<sigma> st lhs (valuesOf w x) \<Longrightarrow> may \<sigma> st rhs (valuesOf w y) \<Longrightarrow>
         may \<sigma> st result (valuesOf w r) \<Longrightarrow>
         truth \<sigma> st' e ((cmp = Eq) = extended_exact ext opcode w x y r)"
proof -
  obtain a s1 where a: "makeUnary ext lhs (w + 1) st = (a, s1)" by force
  obtain b s2 where b: "makeUnary ext rhs (w + 1) s1 = (b, s2)" by force
  obtain c s3 where c: "makeUnary ext result (w + 1) s2 = (c, s3)" by force
  obtain d s4 where d: "makeBinary k a b (w + 1) s3 = (d, s4)" by force
  have e: "makeBinary cmp c d 1 s4 = (e, st')"
    using run by (simp add: extendedArith_def a [simplified] b [simplified] c [simplified] d [simplified])
  note gr = unary_step [OF a, THEN sound_grows] unary_step [OF b, THEN sound_grows]
    unary_step [OF c, THEN sound_grows] binary_step [OF d, THEN sound_grows]
  show "sound_step g \<rho> st st' (\<lambda>_. True)"
    by (rule sound_then [OF sound_then [OF sound_then [OF sound_then [OF unary_step [OF a]
      unary_step [OF b]] unary_step [OF c]] binary_step [OF d]] binary_step [OF e]]) simp_all
  assume x: "may \<sigma> st lhs (valuesOf w x)" and y: "may \<sigma> st rhs (valuesOf w y)"
    and r: "may \<sigma> st result (valuesOf w r)"
  let ?E = "\<lambda>z. take_bit (w + 1) (extOf ext w z)"
  have ma: "may \<sigma> s3 a {BvVal (w + 1) (?E x)}"
    using ext_may [OF a kinds(2) x] gr by (meson may_grows)
  have mb: "may \<sigma> s3 b {BvVal (w + 1) (?E y)}"
    using ext_may [OF b kinds(2) may_grows [OF y]] gr by (meson may_grows)
  have mc: "may \<sigma> s4 c {BvVal (w + 1) (?E r)}"
    using ext_may [OF c kinds(2) may_grows [OF may_grows [OF r]]] gr by (meson may_grows)
  have md: "may \<sigma> s4 d {BvVal (w + 1) (take_bit (w + 1) (arithInt opcode (extOf ext w x) (extOf ext w y)))}
      \<and> is_node k (w + 1) s4 d"
    by (rule binary_may [OF d _ _ ma mb])
      (use k arith_binaryKind [OF k(1)] take_bit_arith [of "w + 1" opcode "extOf ext w x" "extOf ext w y"]
        in \<open>auto simp: opSem_def\<close>)
  have "may \<sigma> st' e {BoolVal ((cmp = Eq) = extended_exact ext opcode w x y r)} \<and> is_node cmp 1 st' e"
    by (rule binary_may [OF e _ _ mc md [THEN conjunct1]])
      (use kinds(1) in \<open>auto simp: opSem_def equalOp_def extended_exact_def binaryKind_def
         leafKind_def unaryKind_def\<close>)
  thus "truth \<sigma> st' e ((cmp = Eq) = extended_exact ext opcode w x y r)"
    using kinds(1) by (auto simp: truth_def is_node_def)
qed

lemma truth_holds: "truth \<sigma> st e True \<Longrightarrow> holds \<sigma> st e"
  by (simp add: truth_def holds_may)

lemma assertion_grows: "grows st (addAssertion a st)"
  by (simp add: grows_def addAssertion_def makeBinary_def appendNode_def nodesOf_def Let_def
      split: option.split)

lemma assert_no_wrap_sound:
  assumes s: "sound_step g \<rho> st0 st P"
    and P: "\<And>\<sigma>. P \<sigma> \<Longrightarrow> may \<sigma> st lhs (valuesOf w x) \<and> may \<sigma> st rhs (valuesOf w y) \<and>
              may \<sigma> st result (valuesOf w r)"
    and k: "arithKind opcode = Some k" "opcode \<in> {AddOp, SubOp, MulOp}" "ext = SExt \<or> ext = ZExt"
    and exact: "flag \<Longrightarrow> extended_exact ext opcode w x y r"
  shows "sound_step g \<rho> st0 (assertNoWrap flag ext k lhs rhs result (w + 1) st) P \<and>
         grows st (assertNoWrap flag ext k lhs rhs result (w + 1) st)"
proof (cases flag)
  case False
  thus ?thesis using s by (simp add: assertNoWrap_def)
next
  case True
  obtain e s1 where e: "extendedArith Eq ext k lhs rhs result (w + 1) st = (e, s1)" by force
  note ext = extended_sound [OF e _ k(3,1,2)]
  have run: "assertNoWrap flag ext k lhs rhs result (w + 1) st = addAssertion e s1"
    using True e by (simp add: assertNoWrap_def)
  have 1: "sound_step g \<rho> st0 s1 (\<lambda>\<sigma>. P \<sigma> \<and> holds \<sigma> s1 e)"
  proof (rule sound_then [OF s ext(1)])
    fix \<sigma> assume p: "P \<sigma>"
    show "P \<sigma> \<and> holds \<sigma> s1 e"
      using ext(2) [of \<sigma> x y r] P [OF p] p exact [OF True] truth_holds by simp
  qed simp
  have "sound_step g \<rho> st0 (addAssertion e s1) P"
    by (rule sound_weaken [OF assertion_sound [OF 1]]) auto
  moreover have "grows st (addAssertion e s1)"
    using ext(1) [THEN sound_grows] assertion_grows grows_trans by blast
  ultimately show ?thesis unfolding run by simp
qed

lemma encodes_both:
  assumes "encodeBoth rec rec a b st = (r, st')" "\<And>u s. u \<in> {a, b} \<Longrightarrow> encodes g \<rho> s u (rec u s)"
  shows "sound_step g \<rho> st st' (\<lambda>\<sigma>. \<forall>l k. r = Some (l, k) \<longrightarrow>
           denotes \<sigma> st' l (widthOf g a) (\<rho> a) \<and> denotes \<sigma> st' k (widthOf g b) (\<rho> b))"
  by (rule both_sound [OF assms(1)]) (use assms(2) denotes_grows in \<open>auto simp: encodes_def\<close>)

lemma binary_operator_sound:
  assumes rec: "\<And>u s. u \<in> {a, b} \<Longrightarrow> encodes g \<rho> s u (rec u s)"
    and v: "widthOf g v = w" "0 < w" "0 \<le> \<rho> v" "\<rho> v < 2 ^ w"
    and runs: "widthOf g a = w" "widthOf g b = w" "binaryRuns opcode w (\<rho> a) (\<rho> b) (\<rho> v)"
      "flagsRun opcode nsw nuw w (\<rho> a) (\<rho> b) (\<rho> v)"
  shows "encodes g \<rho> st v (encodeBinaryOperator rec opcode nsw nuw a b w st)"
proof (cases "encodeBoth rec rec a b st")
  case (Pair lr s1)
  have 1: "sound_step g \<rho> st s1 (\<lambda>\<sigma>. \<forall>l k. lr = Some (l, k) \<longrightarrow>
             denotes \<sigma> s1 l w (\<rho> a) \<and> denotes \<sigma> s1 k w (\<rho> b))"
    using encodes_both [OF Pair rec] unfolding runs(1,2) by blast
  show ?thesis
  proof (cases "lr = None \<or> arithKind opcode = None")
    case True
    hence "encodeBinaryOperator rec opcode nsw nuw a b w st = (None, s1)"
      by (auto simp: encodeBinaryOperator_def Pair split: option.split)
    thus ?thesis using outcome_none [OF 1] by (simp add: encodes_def)
  next
    case False
    then obtain l r k where lr: "lr = Some (l, r)" and k: "arithKind opcode = Some k" by auto
    obtain e s2 where e: "makeBinary k l r w s1 = (e, s2)" by force
    let ?P = "\<lambda>\<sigma>. may \<sigma> s2 l (valuesOf w (\<rho> a)) \<and> may \<sigma> s2 r (valuesOf w (\<rho> b)) \<and>
                   denotes \<sigma> s2 e w (\<rho> v)"
    have 2: "sound_step g \<rho> st s2 ?P"
    proof (rule sound_then [OF 1 binary_step [OF e]])
      fix \<sigma> assume d: "\<forall>l' k'. lr = Some (l', k') \<longrightarrow>
          denotes \<sigma> s1 l' w (\<rho> a) \<and> denotes \<sigma> s1 k' w (\<rho> b)" and gr: "grows s1 s2"
      have m: "may \<sigma> s1 l (valuesOf w (\<rho> a))" "may \<sigma> s1 r (valuesOf w (\<rho> b))"
        using d lr by (auto intro: denotes_may)
      have "may \<sigma> s2 e {BvVal w (\<rho> v)} \<and> is_node k w s2 e"
        by (rule binary_may [OF e v(2) _ m])
          (use arith_binaryKind [OF k] arith_value [OF k runs(3) v(3,4)] in auto)
      hence "denotes \<sigma> s2 e w (\<rho> v)"
        using arith_binaryKind [OF k] by (intro denotes_intro) (auto simp: is_node_def)
      thus "?P \<sigma>" using m gr by (blast intro: may_grows)
    qed
    show ?thesis
    proof (cases "opcode \<notin> {AddOp, SubOp, MulOp} \<or> tooWide w")
      case True
      hence "encodeBinaryOperator rec opcode nsw nuw a b w st = (Some e, s2)"
        by (auto simp: encodeBinaryOperator_def Pair lr k e)
      moreover have "outcome g \<rho> st (\<lambda>\<sigma> st e. denotes \<sigma> st e (widthOf g v) (\<rho> v)) (Some e, s2)"
        by (rule outcome_some [OF 2]) (simp add: v(1))
      ultimately show ?thesis by (simp add: encodes_def)
    next
      case False
      let ?s3 = "assertNoWrap nsw SExt k l r e (w + 1) s2"
      let ?s4 = "assertNoWrap nuw ZExt k l r e (w + 1) ?s3"
      have run: "encodeBinaryOperator rec opcode nsw nuw a b w st = (Some e, ?s4)"
        using False by (simp add: encodeBinaryOperator_def Pair lr k e)
      have op: "opcode \<in> {AddOp, SubOp, MulOp}" using False by blast
      have ex: "nsw \<Longrightarrow> extended_exact SExt opcode w (\<rho> a) (\<rho> b) (\<rho> v)"
        "nuw \<Longrightarrow> extended_exact ZExt opcode w (\<rho> a) (\<rho> b) (\<rho> v)"
        using runs(4) op by (auto simp: flagsRun_def extended_exact_def extOf_def)
      have em: "may \<sigma> s e (valuesOf w (\<rho> v))" if "denotes \<sigma> s e w (\<rho> v)" for \<sigma> s
        using that by (rule denotes_may)
      have 3: "sound_step g \<rho> st ?s3 ?P \<and> grows s2 ?s3"
        by (rule assert_no_wrap_sound [OF 2 _ k op]) (use em ex(1) in auto)
      hence 3: "sound_step g \<rho> st ?s3 ?P" and g3: "grows s2 ?s3" by auto
      have "sound_step g \<rho> st ?s4 ?P \<and> grows ?s3 ?s4"
        by (rule assert_no_wrap_sound [OF 3 _ k op])
          (use em ex(2) may_grows [OF _ g3] in blast)+
      hence 4: "sound_step g \<rho> st ?s4 ?P" and g4: "grows s2 ?s4"
        using g3 grows_trans by blast+
      show ?thesis unfolding encodes_def run
        by (rule outcome_some [OF 4]) (use denotes_grows [OF g4] v(1) in auto)
    qed
  qed
qed

lemma truth_may: "truth \<sigma> st e b \<Longrightarrow> may \<sigma> st e {BoolVal b}"
  by (simp add: truth_def)

lemma truth_bool_op:
  assumes "makeBinary k l r 1 st = (e, st')" "k = And \<and> f = (\<and>) \<or> k = Or \<and> f = (\<or>)"
    and "truth \<sigma> st l a" "truth \<sigma> st r b"
  shows "truth \<sigma> st' e (f a b)"
proof -
  have "may \<sigma> st' e {BoolVal (f a b)} \<and> is_node k 1 st' e"
    by (rule binary_may [OF assms(1) _ _ truth_may [OF assms(3)] truth_may [OF assms(4)]])
      (use assms(2) in \<open>auto simp: binaryKind_def leafKind_def unaryKind_def opSem_def\<close>)
  thus ?thesis using assms(2) by (auto simp: truth_def is_node_def)
qed

lemma truth_not:
  assumes "makeUnary Not l 1 st = (e, st')" "truth \<sigma> st l a"
  shows "truth \<sigma> st' e (\<not> a)"
proof -
  have "may \<sigma> st' e {BoolVal (\<not> a)} \<and> is_node Not 1 st' e"
    by (rule unary_may [OF assms(1) _ _ truth_may [OF assms(2)]])
      (auto simp: unaryKind_def opSem_def notOp_def)
  thus ?thesis by (auto simp: truth_def is_node_def)
qed

lemma truth_denotes:
  assumes "truth \<sigma> st e (x = 1)"
  shows "denotes \<sigma> st e 1 x"
  using assms by (intro denotes_intro [where k = "en_kind (nodesOf st ! e)"])
    (auto simp: truth_def may_def)

lemma select_bool_sound:
  assumes sc: "sound_step g \<rho> st0 st (\<lambda>\<sigma>. truth \<sigma> st cond (\<rho> c = 1))"
    and st': "sound_step g \<rho> st s1 (\<lambda>\<sigma>. truth \<sigma> s1 l (\<rho> t = 1) \<and> truth \<sigma> s1 r (\<rho> f = 1))"
    and a: "makeBinary And cond l 1 s1 = (onTrue, s2)" and b: "makeUnary Not cond 1 s2 = (nc, s3)"
    and d: "makeBinary And nc r 1 s3 = (onFalse, s4)" and e: "makeBinary Or onTrue onFalse 1 s4 = (x, s5)"
  shows "sound_step g \<rho> st0 s5
           (\<lambda>\<sigma>. truth \<sigma> s5 x (if \<rho> c = 1 then \<rho> t = 1 else \<rho> f = 1))"
proof -
  note ga = binary_step [OF a, THEN sound_grows] and gb = unary_step [OF b, THEN sound_grows]
    and gd = binary_step [OF d, THEN sound_grows]
  have 1: "sound_step g \<rho> st0 s1 (\<lambda>\<sigma>. truth \<sigma> s1 cond (\<rho> c = 1) \<and> truth \<sigma> s1 l (\<rho> t = 1) \<and>
             truth \<sigma> s1 r (\<rho> f = 1))"
    by (rule sound_then [OF sc st']) (auto intro: truth_grows)
  have s: "sound_step g \<rho> s1 s5 (\<lambda>_. True)"
    by (rule sound_then [OF sound_then [OF sound_then [OF binary_step [OF a] unary_step [OF b]]
      binary_step [OF d]] binary_step [OF e]]) simp_all
  show ?thesis
  proof (rule sound_then [OF 1 s])
    fix \<sigma> assume "truth \<sigma> s1 cond (\<rho> c = 1) \<and> truth \<sigma> s1 l (\<rho> t = 1) \<and> truth \<sigma> s1 r (\<rho> f = 1)"
    hence h: "truth \<sigma> s1 cond (\<rho> c = 1)" "truth \<sigma> s1 l (\<rho> t = 1)" "truth \<sigma> s1 r (\<rho> f = 1)" by auto
    have ta: "truth \<sigma> s2 onTrue (\<rho> c = 1 \<and> \<rho> t = 1)"
      by (rule truth_bool_op [OF a _ h(1,2)]) simp
    have tb: "truth \<sigma> s3 nc (\<not> \<rho> c = 1)" by (rule truth_not [OF b truth_grows [OF h(1) ga]])
    have td: "truth \<sigma> s4 onFalse (\<not> \<rho> c = 1 \<and> \<rho> f = 1)"
      by (rule truth_bool_op [OF d _ tb truth_grows [OF truth_grows [OF h(3) ga] gb]]) simp
    have "truth \<sigma> s5 x ((\<rho> c = 1 \<and> \<rho> t = 1) \<or> (\<not> \<rho> c = 1 \<and> \<rho> f = 1))"
      by (rule truth_bool_op [OF e _ truth_grows [OF truth_grows [OF ta gb] gd] td]) simp
    thus "truth \<sigma> s5 x (if \<rho> c = 1 then \<rho> t = 1 else \<rho> f = 1)"
      by (cases "\<rho> c = 1") simp_all
  qed
qed

lemma ite_value:
  assumes "a \<in> {BoolVal c}" "t \<in> valuesOf w x" "f \<in> valuesOf w y" "w \<noteq> 1"
    and "opSem Ite w' [a, t, f] = Some z"
  shows "z = BvVal w (if c then x else y)"
  using assms by (auto simp: opSem_def iteOp_def valuesOf_def split: if_splits)

lemma select_sound:
  assumes rec: "\<And>u s. u \<in> {c, t, f} \<Longrightarrow> encodes g \<rho> s u (rec u s)"
    and w: "widthOf g v = w" "0 < w" "widthOf g c = 1" "widthOf g t = w" "widthOf g f = w"
      "isBool \<longleftrightarrow> w = 1"
    and bounds: "\<And>u. u \<in> {c, t, f} \<Longrightarrow> 0 \<le> \<rho> u \<and> \<rho> u < 2 ^ widthOf g u"
    and run: "\<rho> v = (if \<rho> c = 1 then \<rho> t else \<rho> f)"
  shows "encodes g \<rho> st v (encodeSelect rec c t f isBool w st)"
proof -
  have bool: "outcome g \<rho> s (\<lambda>\<sigma> st e. truth \<sigma> st e (\<rho> u = 1)) (encodeAsBoolean rec u s)"
    if "u \<in> {c, t, f}" "widthOf g u = 1" for u s
    using bounds [OF that(1)] that rec [OF that(1)] by (intro as_boolean_sound) auto
  obtain co s0 where co: "encodeAsBoolean rec c st = (co, s0)" by force
  have 0: "sound_step g \<rho> st s0 (\<lambda>\<sigma>. \<forall>e. co = Some e \<longrightarrow> truth \<sigma> s0 e (\<rho> c = 1))"
    using bool [of c st] w(3) by (simp add: co outcome_def)
  show ?thesis
  proof (cases co)
    case None
    thus ?thesis using outcome_none [OF 0] co by (simp add: encodes_def encodeSelect_def)
  next
    case (Some cond)
    have 1: "sound_step g \<rho> st s0 (\<lambda>\<sigma>. truth \<sigma> s0 cond (\<rho> c = 1))"
      by (rule sound_weaken [OF 0]) (simp add: Some)
    show ?thesis
    proof (cases isBool)
      case True
      hence w1: "w = 1" using w(6) by simp
      obtain p s1 where p: "encodeBoth (encodeAsBoolean rec) (encodeAsBoolean rec) t f s0 = (p, s1)"
        by force
      have 2: "sound_step g \<rho> s0 s1 (\<lambda>\<sigma>. \<forall>l k. p = Some (l, k) \<longrightarrow>
                 truth \<sigma> s1 l (\<rho> t = 1) \<and> truth \<sigma> s1 k (\<rho> f = 1))"
        by (rule both_sound [OF p]) (use bool w w1 truth_grows in auto)
      show ?thesis
      proof (cases p)
        case None
        thus ?thesis using outcome_none [OF sound_trans [OF 1 2]] co Some p True
          by (simp add: encodes_def encodeSelect_def)
      next
        case (Some lr)
        then obtain l r where lr: "p = Some (l, r)" by force
        obtain x1 s2 x2 s3 x3 s4 x s5 where m: "makeBinary And cond l 1 s1 = (x1, s2)"
          "makeUnary Not cond 1 s2 = (x2, s3)" "makeBinary And x2 r 1 s3 = (x3, s4)"
          "makeBinary Or x1 x3 1 s4 = (x, s5)" by (metis surj_pair)
        have eq: "encodeSelect rec c t f isBool w st = found (x, s5)"
          using co \<open>co = Some cond\<close> p lr True m by (simp add: encodeSelect_def)
        have 3: "sound_step g \<rho> s0 s1 (\<lambda>\<sigma>. truth \<sigma> s1 l (\<rho> t = 1) \<and> truth \<sigma> s1 r (\<rho> f = 1))"
          by (rule sound_weaken [OF 2]) (simp add: lr)
        show ?thesis unfolding encodes_def eq
          by (rule outcome_found [OF select_bool_sound [OF 1 3 m]])
            (use run w(1) w1 in \<open>auto intro!: truth_denotes [unfolded One_nat_def] split: if_splits\<close>)
      qed
    next
      case False
      hence w1: "w \<noteq> 1" using w(6) by simp
      obtain p s1 where p: "encodeBoth rec rec t f s0 = (p, s1)" by force
      note 2 = encodes_both [OF p rec]
      show ?thesis
      proof (cases p)
        case None
        thus ?thesis using outcome_none [OF sound_trans [OF 1 2]] co Some p False
          by (simp add: encodes_def encodeSelect_def)
      next
        case (Some lr)
        then obtain l r where lr: "p = Some (l, r)" by force
        obtain x s2 where x: "makeTernary Ite cond l r w s1 = (x, s2)" by force
        have eq: "encodeSelect rec c t f isBool w st = found (x, s2)"
          using co \<open>co = Some cond\<close> p lr False x by (simp add: encodeSelect_def)
        have 3: "sound_step g \<rho> st s1 (\<lambda>\<sigma>. truth \<sigma> s1 cond (\<rho> c = 1) \<and>
                   denotes \<sigma> s1 l w (\<rho> t) \<and> denotes \<sigma> s1 r w (\<rho> f))"
          by (rule sound_then [OF 1 2]) (use lr w in \<open>auto intro: truth_grows\<close>)
        have 4: "sound_step g \<rho> st s2 (\<lambda>\<sigma>. denotes \<sigma> s2 x w (\<rho> v))"
        proof (rule sound_then [OF 3 ternary_step [OF x]])
          fix \<sigma> assume "truth \<sigma> s1 cond (\<rho> c = 1) \<and> denotes \<sigma> s1 l w (\<rho> t) \<and> denotes \<sigma> s1 r w (\<rho> f)"
          hence h: "may \<sigma> s1 cond {BoolVal (\<rho> c = 1)}" "may \<sigma> s1 l (valuesOf w (\<rho> t))"
            "may \<sigma> s1 r (valuesOf w (\<rho> f))"
            by (auto intro: truth_may denotes_may)
          have "may \<sigma> s2 x {BvVal w (\<rho> v)} \<and> is_node Ite w s2 x"
            by (rule ternary_may [OF x w(2) h]) (use ite_value [OF _ _ _ w1] run in auto)
          thus "denotes \<sigma> s2 x w (\<rho> v)" by (intro denotes_intro) (auto simp: is_node_def)
        qed
        show ?thesis unfolding encodes_def eq
          by (rule outcome_found [OF 4]) (simp add: w(1))
      qed
    qed
  qed
qed

subsection \<open>Values\<close>

lemma constant_bits:
  assumes "0 < w" "w \<le> 64" "ci_width c = w" "uint (ci_bits c) < 2 ^ w"
  shows "take_bit w (uint (getSExtValue c)) = uint (ci_bits c)"
proof -
  have "take_bit w (uint (getSExtValue c)) = uint (take_bit w (getSExtValue c))"
    by (simp add: unsigned_take_bit_eq)
  also have "take_bit w (getSExtValue c) = take_bit w (ci_bits c)"
    using assms by (simp add: getSExtValue_def sextBits_def take_bit_signed_take_bit)
  also have "uint (take_bit w (ci_bits c)) = uint (ci_bits c)"
    using assms by (simp add: unsigned_take_bit_eq take_bit_id)
  finally show ?thesis .
qed

lemma compare_value:
  assumes "a \<in> valuesOf w x" "b \<in> valuesOf w y" "opSem (comparisonKind p) w' [a, b] = Some c"
    and "0 \<le> x" "x < 2 ^ w" "0 \<le> y" "y < 2 ^ w"
  shows "c = BoolVal (compareInts p w x y)"
proof -
  have "w = 1 \<Longrightarrow> (x = 1 \<longleftrightarrow> y = 1) \<longleftrightarrow> x = y" using assms(4-) by auto
  thus ?thesis using assms(1-3)
    by (cases p) (auto simp: opSem_def equalOp_def valuesOf_def split: if_splits)
qed

lemma comparison_kind: "binaryKind (comparisonKind p) \<and> isBooleanExprKind (comparisonKind p)"
  by (cases p) (auto simp: binaryKind_def leafKind_def unaryKind_def)

lemma resize_value:
  assumes "a \<in> valuesOf w x" "opSem k w' [a] = Some c"
    and "k = SExt \<and> r = take_bit w' (signedOf w x) \<or> (k = ZExt \<or> k = Trunc) \<and> r = take_bit w' x"
  shows "c = BvVal w' r"
  using assms by (auto simp: opSem_def resizeOp_def valuesOf_def split: if_splits)

lemma executes_at:
  assumes "executes g b \<rho> S" "v \<in> S" "map_of g v = Some val"
  shows "set (kindOperands (v_kind val)) \<subseteq> S" "v_intType val \<noteq> Some 0" "0 \<le> \<rho> v"
    "\<rho> v < 2 ^ inferBitWidth val" "kindRuns g b \<rho> (v_kind val) (inferBitWidth val) (\<rho> v)"
    "widthOf g v = inferBitWidth val"
  using assms map_of_SomeD [OF assms(3)] unfolding executes_def widthOf_def by auto

lemma executes_bounds:
  assumes "executes g b \<rho> S" "u \<in> S" "widthOf g u \<noteq> 0"
  shows "0 \<le> \<rho> u \<and> \<rho> u < 2 ^ widthOf g u"
proof -
  obtain val where "map_of g u = Some val" using assms(3) by (auto simp: widthOf_def split: option.splits)
  thus ?thesis using executes_at [OF assms(1,2)] by auto
qed

lemma denotes_constant:
  assumes "makeConstant c w st = (e, st')" "0 < w" "take_bit w (uint c) = x"
  shows "denotes \<sigma> st' e w x"
  using constant_may [OF assms(1,2), of \<sigma>] assms(3)
  by (intro denotes_intro [where k = Constant]) (auto simp: is_node_def)

lemma cast_sound:
  assumes s: "sound_step g \<rho> st0 st (\<lambda>\<sigma>. denotes \<sigma> st l (widthOf g u) (\<rho> u))"
    and m: "makeUnary k l w st = (e, st')" "0 < w"
    and k: "k = SExt \<and> r = take_bit w (signedOf (widthOf g u) (\<rho> u)) \<or>
            (k = ZExt \<or> k = Trunc) \<and> r = take_bit w (\<rho> u)"
  shows "sound_step g \<rho> st0 st' (\<lambda>\<sigma>. denotes \<sigma> st' e w r)"
proof (rule sound_then [OF s unary_step [OF m(1)]])
  fix \<sigma> assume d: "denotes \<sigma> st l (widthOf g u) (\<rho> u)"
  have "may \<sigma> st' e {BvVal w r} \<and> is_node k w st' e"
    by (rule unary_may [OF m _ denotes_may [OF d]])
      (use k resize_value [OF _ _ k] in \<open>auto simp: unaryKind_def\<close>)
  thus "denotes \<sigma> st' e w r" using k by (intro denotes_intro [where k = k]) (auto simp: is_node_def)
qed

lemma phi_operand: "phiOperand b incoming = Some u \<Longrightarrow> u \<in> snd ` set incoming"
proof -
  assume a: "phiOperand b incoming = Some u"
  show ?thesis
  proof (cases "case b of None \<Rightarrow> None | Some b \<Rightarrow> map_of incoming b")
    case None
    then obtain c where "incoming = [(c, u)]"
      using a by (auto simp: phiOperand_def split: list.splits)
    thus ?thesis by simp
  next
    case (Some w)
    then obtain c where "map_of incoming c = Some w" by (auto split: option.splits)
    hence "(c, w) \<in> set incoming" by (rule map_of_SomeD)
    moreover have "w = u" using a Some by (simp add: phiOperand_def)
    ultimately show ?thesis by (force intro: rev_image_eqI)
  qed
qed

lemma impl_sound:
  assumes ex: "executes g b \<rho> S" "v \<in> S" "map_of g v = Some val"
    and rec: "\<And>u s. u \<in> S \<Longrightarrow> encodes g \<rho> s u (rec u s)"
  shows "encodes g \<rho> st v (encodeValueImpl rec b v val st)"
proof -
  let ?w = "inferBitWidth val"
  note at = executes_at [OF ex]
  have sym: "encodes g \<rho> st0 v (found (makeSymbol v (v_name val) ?w s))"
    if "sound_step g \<rho> st0 s P" for s P st0
  proof -
    obtain e s' where m: "makeSymbol v (v_name val) ?w s = (e, s')" by force
    have "sound_step g \<rho> s s' (\<lambda>\<sigma>. denotes \<sigma> s' e (widthOf g v) (\<rho> v))"
      by (rule symbol_sound [where \<rho> = \<rho>, OF m ex(3)]) (use at in auto)
    thus ?thesis unfolding encodes_def m
      by (intro outcome_found [OF sound_trans [OF that]]) auto
  qed
  have const: "encodes g \<rho> st v (found (makeConstant c ?w st))" if "take_bit ?w (uint c) = \<rho> v" for c
  proof -
    obtain e s where m: "makeConstant c ?w st = (e, s)" by force
    show ?thesis unfolding encodes_def m
      by (rule outcome_found [OF constant_step [OF m]])
        (simp add: denotes_constant [OF m _ that] at(6))
  qed
  have via: "encodes g \<rho> st v (rec u st)" if "u \<in> S" "widthOf g u = ?w" "\<rho> v = \<rho> u" for u
    using rec [OF that(1), of st] that(2,3) by (simp add: encodes_def at(6))
  show ?thesis
  proof (cases "v_kind val")
    case (ConstantIntV c)
    have "take_bit ?w (uint (getSExtValue c)) = uint (ci_bits c) \<and> \<rho> v = uint (ci_bits c)"
      using at(5) constant_bits [of ?w c] ConstantIntV by (simp add: kindRuns_def)
    hence "encodes g \<rho> st v (found (makeConstant (getSExtValue c) ?w st))" by (intro const) simp
    thus ?thesis using ConstantIntV by (simp add: encodeValueImpl_def)
  next
    case ConstantPointerNullV
    thus ?thesis using at(5) const [of 0] by (simp add: kindRuns_def encodeValueImpl_def)
  next
    case UndefOrPoisonV
    thus ?thesis using sym [OF sound_refl] by (simp add: encodeValueImpl_def)
  next
    case ArgumentV
    thus ?thesis using sym [OF sound_refl] by (simp add: encodeValueImpl_def)
  next
    case (PhiV incoming)
    show ?thesis
    proof (cases "phiOperand b incoming")
      case None
      thus ?thesis using PhiV sym [OF sound_refl] by (simp add: encodeValueImpl_def)
    next
      case (Some u)
      have "u \<in> S" using at(1) PhiV phi_operand [OF Some] by auto
      thus ?thesis using PhiV Some at(5) via [of u] by (simp add: encodeValueImpl_def kindRuns_def)
    qed
  next
    case (FreezeV u)
    thus ?thesis using at(1,5) via [of u] by (simp add: encodeValueImpl_def kindRuns_def)
  next
    case (SelectV c t f)
    have k: "widthOf g c = 1" "widthOf g t = ?w" "widthOf g f = ?w" "\<rho> v = (if \<rho> c = 1 then \<rho> t else \<rho> f)"
      "c \<in> S" "t \<in> S" "f \<in> S"
      using at(1,5) SelectV by (auto simp: kindRuns_def)
    have i1: "v_intType val = Some 1 \<longleftrightarrow> ?w = 1"
      using at(2) by (auto simp: inferBitWidth_def kDefaultScalarBitWidth_def split: option.splits)
    have bounds: "0 \<le> \<rho> u \<and> \<rho> u < 2 ^ widthOf g u" if "u \<in> {c, t, f}" for u
      by (rule executes_bounds [OF ex(1)]) (use that k(1-3,5-7) in auto)
    have "encodes g \<rho> st v (encodeSelect rec c t f (v_intType val = Some 1) ?w st)"
      by (rule select_sound [OF _ at(6) _ k(1-3) i1 bounds k(4)]) (use k(5-7) rec in auto)
    thus ?thesis using SelectV by (simp add: encodeValueImpl_def)
  next
    case (CastV opcode u)
    have u: "u \<in> S" using at(1) CastV by simp
    obtain r s1 where r: "rec u st = (r, s1)" by force
    have 1: "sound_step g \<rho> st s1 (\<lambda>\<sigma>. \<forall>e. r = Some e \<longrightarrow> denotes \<sigma> s1 e (widthOf g u) (\<rho> u))"
      using rec [OF u, of st] by (simp add: r encodes_def outcome_def)
    show ?thesis
    proof (cases r)
      case None
      thus ?thesis using outcome_none [OF 1] CastV r by (simp add: encodes_def encodeValueImpl_def)
    next
      case (Some l)
      have 2: "sound_step g \<rho> st s1 (\<lambda>\<sigma>. denotes \<sigma> s1 l (widthOf g u) (\<rho> u))"
        by (rule sound_weaken [OF 1]) (simp add: Some)
      have cast: "encodes g \<rho> st v (found (makeUnary k l ?w s1))"
        if "k = SExt \<and> \<rho> v = take_bit ?w (signedOf (widthOf g u) (\<rho> u)) \<or>
            (k = ZExt \<or> k = Trunc) \<and> \<rho> v = take_bit ?w (\<rho> u)" for k
      proof -
        obtain e s2 where m: "makeUnary k l ?w s1 = (e, s2)" by force
        show ?thesis unfolding encodes_def m
          by (rule outcome_found [OF cast_sound [OF 2 m _ that]]) (simp_all add: at(6))
      qed
      show ?thesis using CastV r Some at(5) cast sym [OF 2]
        by (cases opcode) (simp_all add: encodeValueImpl_def kindRuns_def)
    qed
  next
    case (ICmpV p x y)
    have k: "?w = 1" "widthOf g x = widthOf g y" "widthOf g x \<noteq> 0" "x \<in> S" "y \<in> S"
      "\<rho> v = of_bool (compareInts p (widthOf g x) (\<rho> x) (\<rho> y))"
      using at(1,5) ICmpV by (auto simp: kindRuns_def)
    obtain lr s1 where lr: "encodeBoth rec rec x y st = (lr, s1)" by force
    have 1: "sound_step g \<rho> st s1 (\<lambda>\<sigma>. \<forall>l k. lr = Some (l, k) \<longrightarrow>
               denotes \<sigma> s1 l (widthOf g x) (\<rho> x) \<and> denotes \<sigma> s1 k (widthOf g y) (\<rho> y))"
      by (rule encodes_both [OF lr]) (use rec k in auto)
    show ?thesis
    proof (cases lr)
      case None
      thus ?thesis using outcome_none [OF 1] ICmpV lr by (simp add: encodes_def encodeValueImpl_def)
    next
      case (Some ab)
      then obtain l r where ab: "lr = Some (l, r)" by force
      obtain e s2 where m: "makeBinary (comparisonKind p) l r 1 s1 = (e, s2)" by force
      have eq: "encodeValueImpl rec b v val st = found (e, s2)"
        using ICmpV lr ab m by (simp add: encodeValueImpl_def)
      have "sound_step g \<rho> st s2 (\<lambda>\<sigma>. denotes \<sigma> s2 e 1 (\<rho> v))"
      proof (rule sound_then [OF 1 binary_step [OF m]])
        fix \<sigma> assume "\<forall>l k. lr = Some (l, k) \<longrightarrow>
               denotes \<sigma> s1 l (widthOf g x) (\<rho> x) \<and> denotes \<sigma> s1 k (widthOf g y) (\<rho> y)"
        hence d: "denotes \<sigma> s1 l (widthOf g x) (\<rho> x)" "denotes \<sigma> s1 r (widthOf g x) (\<rho> y)"
          using ab k(2) by auto
        have bx: "0 \<le> \<rho> x" "\<rho> x < 2 ^ widthOf g x" using executes_bounds [OF ex(1) k(4,3)] by auto
        have "0 \<le> \<rho> y \<and> \<rho> y < 2 ^ widthOf g y"
          by (rule executes_bounds [OF ex(1) k(5)]) (use k(2,3) in simp)
        hence "0 \<le> \<rho> y" "\<rho> y < 2 ^ widthOf g x" using k(2) by auto
        note cmp = compare_value [OF _ _ _ bx this]
        have "may \<sigma> s2 e {BoolVal (compareInts p (widthOf g x) (\<rho> x) (\<rho> y))} \<and>
            is_node (comparisonKind p) 1 s2 e"
          by (rule binary_may [OF m _ _ denotes_may [OF d(1)] denotes_may [OF d(2)]])
            (use comparison_kind cmp in auto)
        thus "denotes \<sigma> s2 e 1 (\<rho> v)"
          using comparison_kind [of p] k(6)
          by (intro denotes_intro [where k = "comparisonKind p"]) (auto simp: is_node_def)
      qed
      thus ?thesis unfolding encodes_def eq
        by (rule outcome_found) (simp add: at(6) k(1))
    qed
  next
    case (BinaryV opcode nsw nuw x y)
    have k: "widthOf g x = ?w" "widthOf g y = ?w" "x \<in> S" "y \<in> S"
      "binaryRuns opcode ?w (\<rho> x) (\<rho> y) (\<rho> v)" "flagsRun opcode nsw nuw ?w (\<rho> x) (\<rho> y) (\<rho> v)"
      using at(1,5) BinaryV by (auto simp: kindRuns_def)
    have "encodes g \<rho> st v (encodeBinaryOperator rec opcode nsw nuw x y ?w st)"
      by (rule binary_operator_sound [OF _ at(6) infer_pos at(3,4) k(1,2,5,6)]) (use rec k in auto)
    thus ?thesis using BinaryV by (simp add: encodeValueImpl_def)
  next
    case OtherV
    thus ?thesis using sym [OF sound_refl] by (simp add: encodeValueImpl_def)
  qed
qed

lemma value_sound:
  assumes "executes g b \<rho> S" "v \<in> S"
  shows "encodes g \<rho> st v (encodeValue g b inP v st)"
  using assms
proof (induction g b inP v st rule: encodeValue.induct)
  case (1 g b inP v st)
  show ?case
  proof (cases "map_of g v")
    case None
    hence "encodeValue g b inP v st = (None, st)" by (simp add: encodeValue.simps)
    thus ?thesis by (simp add: encodes_def outcome_none [OF sound_refl])
  next
    case (Some val)
    note at = executes_at [OF "1.prems" Some]
    show ?thesis
    proof (cases "e_cache st v")
      case (Some e)
      hence "encodeValue g b inP v st = (Some e, st)"
        using \<open>map_of g v = Some val\<close> by (simp add: encodeValue.simps)
      moreover have "outcome g \<rho> st (\<lambda>\<sigma> st e. denotes \<sigma> st e (widthOf g v) (\<rho> v)) (Some e, st)"
        by (rule outcome_some [OF sound_refl]) (use Some in \<open>auto simp: good_def\<close>)
      ultimately show ?thesis by (simp add: encodes_def)
    next
      case None
      have rem: "encodes g \<rho> st v (remember v r)" if "encodes g \<rho> st v r" for r
        using remember_sound [of g \<rho> st r v] that by (simp add: encodes_def outcome_def)
      show ?thesis
      proof (cases "v \<in> inP")
        case True
        obtain e s where m: "makeSymbol v (v_name val) (inferBitWidth val) st = (e, s)" by force
        have "encodes g \<rho> st v (found (e, s))"
          unfolding encodes_def
          by (rule outcome_found [OF symbol_sound [where \<rho> = \<rho>, OF m Some]]) (use at in auto)
        thus ?thesis
          using rem True None Some m by (simp add: encodeValue.simps)
      next
        case False
        have "encodes g \<rho> st v (encodeValueImpl (\<lambda>u s. encodeValue g b (insert v inP) u s) b v val st)"
          by (rule impl_sound [OF "1.prems" Some])
            (rule "1.IH" [OF Some None False "1.prems"(1)])
        hence "encodes g \<rho> st v
            (remember v (encodeValueImpl (\<lambda>u s. encodeValue g b (insert v inP) u s) b v val st))"
          by (rule rem)
        thus ?thesis using False None Some by (simp add: encodeValue.simps [of g b inP v st])
      qed
    qed
  qed
qed

subsection \<open>Assertions\<close>

definition boundFits :: "nat \<Rightarrow> i64 \<Rightarrow> bool" where
  "boundFits w c \<longleftrightarrow> signedOf w (uint c) = sint c"

lemma signed_take: "0 < w \<Longrightarrow> signedOf w (take_bit w x) = signedOf w x"
  by (cases w) (simp_all add: signedOf_def signed_take_bit_take_bit)

lemma bound_value:
  assumes "a \<in> valuesOf w x" "opSem cmp 1 [a, BvVal w (take_bit w (uint c))] = Some d" "0 < w"
    and "boundFits w c" "cmp = Sge \<and> sint c \<le> signedOf w x \<or> cmp = Sle \<and> signedOf w x \<le> sint c"
  shows "d = BoolVal True"
proof -
  have "signedOf w (take_bit w (uint c)) = sint c"
    using assms(3,4) by (simp add: boundFits_def signed_take)
  thus ?thesis using assms(1,2,5)
    by (cases a) (auto simp: opSem_def valuesOf_def simp del: take_bit_Suc_0 split: if_splits)
qed

lemma constant_bv:
  assumes "makeConstant c w st = (e, st')"
  shows "may \<sigma> st' e (range (\<lambda>(a, y). BvVal a y))"
  using append_may [OF assms [unfolded makeConstant_def], of \<sigma> "range (\<lambda>(a, y). BvVal a y)"]
  by (auto simp: nodeValue_def image_iff Let_def)

lemma bool_bv_stuck:
  "cmp \<in> {Sge, Sle, Sgt} \<Longrightarrow> opSem cmp w [BoolVal p, z] = Some d \<Longrightarrow> False"
  by (cases z) (auto simp: opSem_def)

lemma bound_holds:
  assumes d: "denotes \<sigma> st e w x" "0 < w"
    and m: "makeConstant c (en_bitWidth (nodesOf st ! e)) st = (k, s1)" "makeBinary cmp e k 1 s1 = (a, s2)"
    and cmp: "cmp \<in> {Sge, Sle, Sgt}"
    and val: "\<And>y d. y \<in> valuesOf w x \<Longrightarrow>
      opSem cmp 1 [y, BvVal w (take_bit w (uint c))] = Some d \<Longrightarrow> d = BoolVal True"
  shows "holds \<sigma> s2 a"
proof -
  note gr = constant_step [OF m(1), THEN sound_grows]
  have bk: "binaryKind cmp" using cmp by (auto simp: binaryKind_def leafKind_def unaryKind_def)
  have "may \<sigma> s2 a {BoolVal True} \<and> is_node cmp 1 s2 a"
  proof (cases "isBooleanExprKind (en_kind (nodesOf st ! e))")
    case False
    hence "en_bitWidth (nodesOf st ! e) = w" using d(1) by (simp add: denotes_def)
    hence mk: "may \<sigma> s1 k {BvVal w (take_bit w (uint c))}" using constant_may [OF m(1), of \<sigma>] d(2) by simp
    show ?thesis
      by (rule binary_may [OF m(2) _ bk may_grows [OF denotes_may [OF d(1)] gr] mk]) (use val in auto)
  next
    case True
    hence mb: "may \<sigma> st e (range BoolVal)" using d(1) by (auto simp: denotes_def may_def)
    show ?thesis
      by (rule binary_may [OF m(2) _ bk may_grows [OF mb gr] constant_bv [OF m(1)]])
        (use bool_bv_stuck [OF cmp] in auto)
  qed
  thus ?thesis by (simp add: holds_may)
qed

lemma assert_bound_sound:
  assumes s: "sound_step g \<rho> st0 st (\<lambda>\<sigma>. denotes \<sigma> st e w x)" and w: "0 < w"
    and b: "present \<Longrightarrow> boundFits w c \<and>
      (cmp = Sge \<and> sint c \<le> signedOf w x \<or> cmp = Sle \<and> signedOf w x \<le> sint c)"
  shows "sound_step g \<rho> st0 (assertBound present cmp e c st)
           (\<lambda>\<sigma>. denotes \<sigma> (assertBound present cmp e c st) e w x)"
proof (cases present)
  case False
  thus ?thesis using s by (simp add: assertBound_def)
next
  case True
  obtain k s1 where k: "makeConstant c (en_bitWidth (nodesOf st ! e)) st = (k, s1)" by force
  obtain a s2 where a: "makeBinary cmp e k 1 s1 = (a, s2)" by force
  have run: "assertBound present cmp e c st = addAssertion a s2"
    using True k a by (simp add: assertBound_def)
  have step: "sound_step g \<rho> st s2 (\<lambda>_. True)"
    by (rule sound_then [OF constant_step [OF k] binary_step [OF a]]) simp
  have "sound_step g \<rho> st0 s2 (\<lambda>\<sigma>. denotes \<sigma> s2 e w x \<and> holds \<sigma> s2 a)"
  proof (rule sound_then [OF s step])
    fix \<sigma> assume d: "denotes \<sigma> st e w x" and g: "grows st s2"
    have "holds \<sigma> s2 a"
      by (rule bound_holds [OF d w k a]) (use b [OF True] bound_value [OF _ _ w] in auto)
    thus "denotes \<sigma> s2 e w x \<and> holds \<sigma> s2 a" using denotes_grows [OF g d] by simp
  qed
  from assertion_sound [OF this] have "sound_step g \<rho> st0 (addAssertion a s2)
      (\<lambda>\<sigma>. denotes \<sigma> s2 e w x \<and> holds \<sigma> s2 a)" by simp
  thus ?thesis unfolding run
    by (rule sound_weaken) (use denotes_grows [OF assertion_grows] in blast)
qed

subsection \<open>Queries\<close>

definition rangeRuns :: "('v, 'b) llvm_values \<Rightarrow> ('v \<Rightarrow> int) \<Rightarrow> 'v set \<Rightarrow> 'v \<times> IntRange \<Rightarrow> bool" where
  "rangeRuns g \<rho> S vr \<longleftrightarrow>
     (let (v, rng) = vr; w = widthOf g v; x = signedOf w (\<rho> v) in
      shouldEncodeRangeConstraint (map_of g v) rng \<longrightarrow>
        v \<in> S \<and>
        (ir_hasLower rng \<longrightarrow> boundFits w (ir_lower rng) \<and> sint (ir_lower rng) \<le> x) \<and>
        (ir_hasUpper rng \<longrightarrow> boundFits w (ir_upper rng) \<and> x \<le> sint (ir_upper rng)))"

definition conditionRuns :: "('v, 'b) llvm_values \<Rightarrow> ('v \<Rightarrow> int) \<Rightarrow> 'v set \<Rightarrow> bool \<Rightarrow> 'v \<Rightarrow> bool" where
  "conditionRuns g \<rho> S p c \<longleftrightarrow> c \<in> S \<and> widthOf g c = 1 \<and> \<rho> c = of_bool p"

definition assumesRun :: "('v, 'b) llvm_values \<Rightarrow> ('v \<Rightarrow> int) \<Rightarrow> 'v set \<Rightarrow> 'v instruction list \<Rightarrow> bool" where
  "assumesRun g \<rho> S is \<longleftrightarrow>
     (\<forall>i \<in> set is. \<forall>c. getAssumeCondition i = Some c \<longrightarrow> conditionRuns g \<rho> S True c)"

abbreviation sound :: "('v, 'b) llvm_values \<Rightarrow> ('v \<Rightarrow> int) \<Rightarrow> 'v encoder \<Rightarrow> 'v encoder \<Rightarrow> bool" where
  "sound g \<rho> st st' \<equiv> sound_step g \<rho> st st' (\<lambda>_. True)"

lemma sound_chain: "sound g \<rho> a b \<Longrightarrow> sound g \<rho> b c \<Longrightarrow> sound g \<rho> a c"
  by (rule sound_then) auto

lemma sound_fold:
  "(\<And>x st. x \<in> set xs \<Longrightarrow> sound g \<rho> st (f x st)) \<Longrightarrow> sound g \<rho> st (fold f xs st)"
proof (induction xs arbitrary: st)
  case Nil
  show ?case by (simp add: sound_refl)
next
  case (Cons x xs)
  have "sound g \<rho> (f x st) (fold f xs (f x st))" by (rule Cons.IH) (simp add: Cons.prems)
  thus ?case using sound_chain [OF Cons.prems [of x st]] by simp
qed

lemma range_sound:
  assumes ex: "executes g b \<rho> S" and r: "rangeRuns g \<rho> S (v, rng)"
  shows "sound g \<rho> st (encodeRange g b (v, rng) st)"
proof (cases "shouldEncodeRangeConstraint (map_of g v) rng")
  case False
  thus ?thesis by (simp add: encodeRange_def sound_refl)
next
  case True
  let ?w = "widthOf g v"
  have vS: "v \<in> S" and lo: "ir_hasLower rng \<Longrightarrow> boundFits ?w (ir_lower rng) \<and> sint (ir_lower rng) \<le> signedOf ?w (\<rho> v)"
    and up: "ir_hasUpper rng \<Longrightarrow> boundFits ?w (ir_upper rng) \<and> signedOf ?w (\<rho> v) \<le> sint (ir_upper rng)"
    using r True by (auto simp: rangeRuns_def Let_def)
  obtain val where val: "map_of g v = Some val"
    using True by (auto simp: shouldEncodeRangeConstraint_def split: option.splits)
  note at = executes_at [OF ex vS val]
  obtain eo s1 where e: "encodeValue g b {} v st = (eo, s1)" by force
  have 1: "sound_step g \<rho> st s1 (\<lambda>\<sigma>. \<forall>e. eo = Some e \<longrightarrow> denotes \<sigma> s1 e ?w (\<rho> v))"
    using value_sound [OF ex vS, of st "{}"] by (simp add: e encodes_def outcome_def)
  show ?thesis
  proof (cases eo)
    case None
    have "encodeRange g b (v, rng) st = s1" using True e None by (simp add: encodeRange_def)
    thus ?thesis using sound_weaken [OF 1] by simp
  next
    case (Some e0)
    obtain x s2 where x: "(if lookupSymbolId s1 v = 0 then makeSymbol v (v_name val) (inferBitWidth val) s1
                           else (e0, s1)) = (x, s2)" by force
    have 2: "sound_step g \<rho> st s2 (\<lambda>\<sigma>. denotes \<sigma> s2 x ?w (\<rho> v))"
    proof (cases "lookupSymbolId s1 v = 0")
      case True
      hence m: "makeSymbol v (v_name val) (inferBitWidth val) s1 = (x, s2)" using x by simp
      show ?thesis
        by (rule sound_then [OF 1 symbol_sound [where \<rho> = \<rho>, OF m val]]) (use at in auto)
    next
      case False
      hence "x = e0" "s2 = s1" using x by auto
      thus ?thesis using sound_weaken [OF 1] Some by simp
    qed
    let ?c = "\<lparr>iv_symbol = lookupSymbolId s2 v, iv_lower = ir_lower rng, iv_upper = ir_upper rng,
               iv_hasLower = ir_hasLower rng, iv_hasUpper = ir_hasUpper rng\<rparr>"
    let ?s3 = "pushInterval ?c s2"
    have same: "nodesOf ?s3 = nodesOf s2" by (simp add: pushInterval_def nodesOf_def)
    have "sound_step g \<rho> st ?s3 (\<lambda>\<sigma>. denotes \<sigma> s2 x ?w (\<rho> v))"
    proof (rule sound_update [OF 2 same])
      fix \<sigma> assume "good g \<rho> \<sigma> s2"
      thus "good g \<rho> \<sigma> ?s3" unfolding good_def same_nodes(1,2) [OF same]
        by (simp add: pushInterval_def)
    qed (simp_all add: pushInterval_def)
    hence 3: "sound_step g \<rho> st ?s3 (\<lambda>\<sigma>. denotes \<sigma> ?s3 x ?w (\<rho> v))"
      by (simp add: same_nodes(1) [OF same])
    have w: "0 < ?w" by (simp add: at(6))
    let ?s4 = "assertBound (ir_hasLower rng) Sge x (ir_lower rng) ?s3"
    have 4: "sound_step g \<rho> st ?s4 (\<lambda>\<sigma>. denotes \<sigma> ?s4 x ?w (\<rho> v))"
      by (rule assert_bound_sound [OF 3 w]) (use lo in auto)
    let ?s5 = "assertBound (ir_hasUpper rng) Sle x (ir_upper rng) ?s4"
    have 5: "sound_step g \<rho> st ?s5 (\<lambda>\<sigma>. denotes \<sigma> ?s5 x ?w (\<rho> v))"
      by (rule assert_bound_sound [OF 4 w]) (use up in auto)
    have "encodeRange g b (v, rng) st = ?s5"
      using True e Some x val by (simp add: encodeRange_def)
    thus ?thesis using sound_weaken [OF 5] by simp
  qed
qed

lemma condition_sound:
  assumes ex: "executes g b \<rho> S" and c: "conditionRuns g \<rho> S p c"
  shows "outcome g \<rho> st (\<lambda>\<sigma> st e. truth \<sigma> st e p) (encodeAsBoolean (encodeValue g b inP) c st)"
proof -
  have "outcome g \<rho> st (\<lambda>\<sigma> st e. truth \<sigma> st e (\<rho> c = 1)) (encodeAsBoolean (encodeValue g b inP) c st)"
    by (rule as_boolean_sound) (use c value_sound [OF ex] in \<open>auto simp: conditionRuns_def\<close>)
  moreover have "(\<rho> c = 1) = p" using c by (simp add: conditionRuns_def)
  ultimately show ?thesis by simp
qed

lemma assert_boolean_sound:
  assumes ex: "executes g b \<rho> S" and c: "conditionRuns g \<rho> S True c"
  shows "sound g \<rho> st (assertBoolean g b c st)"
proof (cases "encodeAsBoolean (encodeValue g b {}) c st")
  case (Pair r s)
  have 1: "sound_step g \<rho> st s (\<lambda>\<sigma>. \<forall>e. r = Some e \<longrightarrow> truth \<sigma> s e True)"
    using condition_sound [OF ex c, of st "{}"] by (simp add: Pair outcome_def)
  show ?thesis
  proof (cases r)
    case None
    thus ?thesis using sound_weaken [OF 1] Pair by (simp add: assertBoolean_def)
  next
    case (Some e)
    have "sound_step g \<rho> st (addAssertion e s) (\<lambda>\<sigma>. truth \<sigma> s e True)"
      by (rule assertion_sound [OF sound_weaken [OF 1]]) (auto simp: Some truth_holds)
    thus ?thesis using sound_weaken Pair Some by (fastforce simp: assertBoolean_def)
  qed
qed

lemma assumes_sound:
  assumes "executes g b \<rho> S" "assumesRun g \<rho> S is"
  shows "sound g \<rho> st (fold (encodeAssume g b) is st)"
proof (rule sound_fold)
  fix i st assume "i \<in> set is"
  thus "sound g \<rho> st (encodeAssume g b i st)"
    using assms assert_boolean_sound [OF assms(1)]
    by (auto simp: encodeAssume_def assumesRun_def sound_refl split: option.split)
qed

lemma edge_sound:
  assumes ex: "executes g b \<rho> S" and c: "\<And>c. cond = Some c \<Longrightarrow> conditionRuns g \<rho> S taken c"
  shows "sound g \<rho> st (encodeEdgeCondition g b cond taken st)"
proof (cases cond)
  case None
  thus ?thesis by (simp add: encodeEdgeCondition_def sound_refl)
next
  case (Some c0)
  obtain r s where r: "encodeAsBoolean (encodeValue g b {}) c0 st = (r, s)" by force
  have 1: "sound_step g \<rho> st s (\<lambda>\<sigma>. \<forall>e. r = Some e \<longrightarrow> truth \<sigma> s e taken)"
    using condition_sound [OF ex c [OF Some], of st "{}"] by (simp add: r outcome_def)
  show ?thesis
  proof (cases r)
    case None
    thus ?thesis using sound_weaken [OF 1] Some r by (simp add: encodeEdgeCondition_def)
  next
    case e: (Some e)
    have 2: "sound_step g \<rho> st s (\<lambda>\<sigma>. truth \<sigma> s e taken)"
      by (rule sound_weaken [OF 1]) (simp add: e)
    obtain x s2 where x: "(if \<not> taken then makeUnary Not e 1 s else (e, s)) = (x, s2)" by force
    have 3: "sound_step g \<rho> st s2 (\<lambda>\<sigma>. truth \<sigma> s2 x True)"
    proof (cases taken)
      case True
      thus ?thesis using x 2 by simp
    next
      case False
      hence m: "makeUnary Not e 1 s = (x, s2)" using x by simp
      show ?thesis
        by (rule sound_then [OF 2 unary_step [OF m]]) (use truth_not [OF m] False in force)
    qed
    have "sound_step g \<rho> st (addAssertion x s2) (\<lambda>\<sigma>. truth \<sigma> s2 x True)"
      by (rule assertion_sound [OF 3]) (simp add: truth_holds)
    hence "sound g \<rho> st (addAssertion x s2)" by (rule sound_weaken) simp
    thus ?thesis using Some r e x by (simp add: encodeEdgeCondition_def)
  qed
qed

text \<open>An assignment of the symbols satisfies a query when no assertion is false under it.\<close>

definition assertionValue :: "(nat \<Rightarrow> int) \<Rightarrow> 'v ConstraintIR \<Rightarrow> nat \<Rightarrow> smt_value option" where
  "assertionValue \<sigma> ir a = operandValue (evalNodes \<sigma> (ir_nodes ir)) a"

definition satisfies :: "(nat \<Rightarrow> int) \<Rightarrow> 'v ConstraintIR \<Rightarrow> bool" where
  "satisfies \<sigma> ir \<longleftrightarrow>
     (\<forall>a \<in> set (ir_assertions ir). assertionValue \<sigma> ir a \<in> {None, Some (BoolVal True)})"

text \<open>The symbols of a query take the values of the run.\<close>

definition follows :: "('v \<Rightarrow> int) \<Rightarrow> (nat \<Rightarrow> int) \<Rightarrow> 'v ConstraintIR \<Rightarrow> bool" where
  "follows \<rho> \<sigma> ir \<longleftrightarrow> (\<forall>s \<in> set (ir_symbols ir). \<sigma> (si_id s) = \<rho> (si_sourceToken s))"

lemma initial_ok: "symbols_ok initialEncoder" "good g \<rho> \<sigma> initialEncoder"
  by (simp_all add: symbols_ok_def good_def initialEncoder_def emptyIR_def)

lemma sound_satisfies:
  assumes "sound g \<rho> initialEncoder st"
  shows "\<exists>\<sigma>. satisfies \<sigma> (e_ir st) \<and> follows \<rho> \<sigma> (e_ir st)"
proof -
  let ?\<sigma> = "\<lambda>i. \<rho> (THE v. e_symbolByValue st v = Some i)"
  have ok: "symbols_ok st"
    and step: "\<And>\<sigma>. agrees \<rho> \<sigma> st \<Longrightarrow> good g \<rho> \<sigma> st"
    using assms initial_ok unfolding sound_step_def by blast+
  have inj: "e_symbolByValue st u = Some i \<Longrightarrow> e_symbolByValue st v = Some i \<Longrightarrow> u = v" for u v i
    using ok unfolding symbols_ok_def by blast
  have "(THE v. e_symbolByValue st v = Some i) = v" if "e_symbolByValue st v = Some i" for v i
    using that inj by (intro the_equality) auto
  hence a: "agrees \<rho> ?\<sigma> st" by (simp add: agrees_def)
  have "satisfies ?\<sigma> (e_ir st)"
    using step [OF a] unfolding good_def satisfies_def assertionValue_def holds_def
    by (auto simp: operandValue_def valueAt_def nodesOf_def)
  moreover have "follows \<rho> ?\<sigma> (e_ir st)"
    unfolding follows_def
  proof
    fix s assume "s \<in> set (ir_symbols (e_ir st))"
    hence "e_symbolByValue st (si_sourceToken s) = Some (si_id s)"
      using ok unfolding symbols_ok_def by blast
    thus "?\<sigma> (si_id s) = \<rho> (si_sourceToken s)" using a by (simp add: agrees_def)
  qed
  ultimately show ?thesis by blast
qed

lemma ranges_sound:
  assumes "executes g b \<rho> S" "\<forall>vr \<in> set ranges. rangeRuns g \<rho> S vr"
  shows "sound g \<rho> st (encodeRangeAssertions g b ranges st)"
  unfolding encodeRangeAssertions_def
  by (rule sound_fold) (use assms range_sound in \<open>force simp: split_paired_all\<close>)

lemma custom_sound:
  assumes ex: "executes g b \<rho> S" and r: "\<forall>vr \<in> set ranges. rangeRuns g \<rho> S vr"
    and as: "\<And>is. block = Some is \<Longrightarrow> assumesRun g \<rho> S is"
    and c: "\<And>c. cond = Some c \<Longrightarrow> conditionRuns g \<rho> S taken c"
    and post: "\<And>st. sound g \<rho> st (postEncode st)"
  shows "\<exists>\<sigma>. satisfies \<sigma> (encodeWithCustomAssertions g ranges cond taken block b postEncode) \<and>
             follows \<rho> \<sigma> (encodeWithCustomAssertions g ranges cond taken block b postEncode)"
proof -
  have blk: "sound g \<rho> st (encodeAssumeAssertions g b block st)" for st
    by (cases block) (auto simp: encodeAssumeAssertions_def sound_refl as assumes_sound [OF ex])
  show ?thesis
    unfolding encodeWithCustomAssertions_def Let_def
    by (rule sound_satisfies [OF sound_chain [OF sound_chain [OF sound_chain [OF
      ranges_sound [OF ex r] blk] edge_sound [OF ex c]] post]])
qed

lemma before_sound:
  assumes ex: "executes g b \<rho> S"
    and as: "\<And>i blk. ctx = Some (i, blk) \<Longrightarrow> assumesRun g \<rho> S (map snd (takeWhile (\<lambda>(j, _). j \<noteq> i) blk))"
  shows "sound g \<rho> st (encodeAssumesBeforeInstruction g b ctx st)"
proof (cases ctx)
  case None
  thus ?thesis by (simp add: encodeAssumesBeforeInstruction_def sound_refl)
next
  case (Some p)
  obtain i blk where p: "p = (i, blk)" by force
  show ?thesis using assumes_sound [OF ex as [OF Some [unfolded p]], of st]
    by (simp add: encodeAssumesBeforeInstruction_def Some p)
qed

subsection \<open>Overflow\<close>

text \<open>The mathematical result does not fit the width: signed for \<open>SExt\<close>, unsigned for \<open>ZExt\<close>.\<close>

definition overflows :: "ExprKind \<Rightarrow> BinaryOpcode \<Rightarrow> nat \<Rightarrow> int \<Rightarrow> int \<Rightarrow> bool" where
  "overflows ext opcode w x y \<longleftrightarrow>
     (if ext = SExt
      then arithInt opcode (signedOf w x) (signedOf w y) < - (2 ^ (w - 1)) \<or>
           2 ^ (w - 1) \<le> arithInt opcode (signedOf w x) (signedOf w y)
      else arithInt opcode x y < 0 \<or> 2 ^ w \<le> arithInt opcode x y)"

lemma signed_range: "0 < w \<Longrightarrow> - (2 ^ (w - 1)) \<le> signedOf w x \<and> signedOf w x < 2 ^ (w - 1)"
  by (simp add: signedOf_def signed_take_bit_int_greater_eq_minus_exp signed_take_bit_int_less_exp)

lemma take_bit_inj:
  assumes "take_bit n (a :: int) = take_bit n b" "\<bar>a - b\<bar> < 2 ^ n"
  shows "a = b"
proof -
  have "2 ^ n dvd a - b" using assms(1) by (simp add: take_bit_eq_mod mod_eq_dvd_iff)
  thus ?thesis using assms(2) by (metis abs_of_nonneg dvd_imp_le_int eq_iff_diff_eq_0 not_less zero_le_numeral zero_le_power)
qed

lemma signed_of_arith:
  "0 < w \<Longrightarrow> signedOf w (take_bit w (arithInt opcode x y)) =
     signedOf w (arithInt opcode (signedOf w x) (signedOf w y))"
proof -
  assume w: "0 < w"
  have "take_bit w (arithInt opcode x y) = take_bit w (arithInt opcode (signedOf w x) (signedOf w y))"
    using w take_bit_arith [of w opcode x y] take_bit_arith [of w opcode "signedOf w x" "signedOf w y"]
    by (simp add: signedOf_def take_bit_signed_take_bit)
  thus ?thesis using signed_take [OF w] by metis
qed

lemma extended_overflow:
  assumes "opcode = AddOp \<or> opcode = SubOp" "0 < w" "0 \<le> x" "x < 2 ^ w" "0 \<le> y" "y < 2 ^ w"
    and "ext = SExt \<or> ext = ZExt"
  shows "extended_exact ext opcode w x y (take_bit w (arithInt opcode x y)) \<longleftrightarrow> \<not> overflows ext opcode w x y"
proof -
  obtain n where n: "w = Suc n" using assms(2) by (cases w) auto
  have p: "(2 :: int) ^ w = 2 * 2 ^ n" "(2 :: int) ^ (w + 1) = 4 * 2 ^ n" "w - 1 = n" by (simp_all add: n)
  show ?thesis
  proof (cases "ext = SExt")
    case True
    let ?z = "arithInt opcode (signedOf w x) (signedOf w y)"
    let ?s = "signedOf w ?z"
    have z: "- (2 * 2 ^ n) \<le> ?z" "?z \<le> 2 * 2 ^ n"
      using signed_range [OF assms(2), of x] signed_range [OF assms(2), of y] assms(1) p(3) by auto
    have s: "- (2 ^ n) \<le> ?s" "?s < 2 ^ n" using signed_range [OF assms(2), of ?z] p(3) by auto
    have "extended_exact ext opcode w x y (take_bit w (arithInt opcode x y)) \<longleftrightarrow>
        take_bit (w + 1) ?s = take_bit (w + 1) ?z"
      using True signed_of_arith [OF assms(2), of opcode x y]
      by (simp add: extended_exact_def extOf_def del: take_bit_Suc)
    also have "\<dots> \<longleftrightarrow> ?s = ?z"
    proof
      assume eq: "take_bit (w + 1) ?s = take_bit (w + 1) ?z"
      show "?s = ?z" by (rule take_bit_inj [OF eq]) (use z s p(2) in linarith)
    qed simp
    also have "\<dots> \<longleftrightarrow> - (2 ^ n) \<le> ?z \<and> ?z < 2 ^ n"
    proof
      assume "?s = ?z"
      thus "- (2 ^ n) \<le> ?z \<and> ?z < 2 ^ n" using s by linarith
    qed (simp add: signedOf_def n signed_take_bit_int_eq_self)
    also have "\<dots> \<longleftrightarrow> \<not> overflows ext opcode w x y"
      using True p(3) by (auto simp: overflows_def)
    finally show ?thesis .
  next
    case False
    let ?z = "arithInt opcode x y"
    let ?r = "take_bit w ?z"
    have z: "- (2 * 2 ^ n) < ?z" "?z < 4 * 2 ^ n" using assms p(1) by auto
    have r: "0 \<le> ?r" "?r < 2 * 2 ^ n" using take_bit_int_less_exp [of w ?z] p(1) by auto
    have "extended_exact ext opcode w x y ?r \<longleftrightarrow> take_bit (w + 1) ?r = take_bit (w + 1) ?z"
      using False by (simp add: extended_exact_def extOf_def del: take_bit_Suc)
    also have "\<dots> \<longleftrightarrow> ?r = ?z"
    proof
      assume eq: "take_bit (w + 1) ?r = take_bit (w + 1) ?z"
      show "?r = ?z" by (rule take_bit_inj [OF eq]) (use z r p(2) in linarith)
    qed simp
    also have "\<dots> \<longleftrightarrow> 0 \<le> ?z \<and> ?z < 2 ^ w"
    proof
      assume "?r = ?z"
      thus "0 \<le> ?z \<and> ?z < 2 ^ w" using r p(1) by linarith
    qed (simp add: take_bit_int_eq_self)
    also have "\<dots> \<longleftrightarrow> \<not> overflows ext opcode w x y"
      using False by (auto simp: overflows_def)
    finally show ?thesis .
  qed
qed

lemma overflow_sound:
  assumes ex: "executes g None \<rho> S" and op: "map_of g v = Some val"
      "v_kind val = BinaryV opcode nsw nuw x y" "opcode = AddOp \<or> opcode = SubOp"
    and xy: "x \<in> S" "y \<in> S" "widthOf g x = inferBitWidth val" "widthOf g y = inferBitWidth val"
    and over: "overflows ext opcode (inferBitWidth val) (\<rho> x) (\<rho> y)" "ext = SExt \<or> ext = ZExt"
  shows "sound g \<rho> st (assertOverflow ext g v st)"
proof -
  let ?w = "inferBitWidth val" and ?r = "take_bit (inferBitWidth val) (arithInt opcode (\<rho> x) (\<rho> y))"
  have arith: "opcode \<in> {AddOp, SubOp, MulOp}" using op(3) by auto
  obtain k where k: "arithKind opcode = Some k" "getArithmeticExprKind opcode = Some k"
    using op(3) by auto
  obtain lr s1 where lr: "encodeBoth (encodeValue g None {}) (encodeValue g None {}) x y st = (lr, s1)"
    by force
  have 1: "sound_step g \<rho> st s1 (\<lambda>\<sigma>. \<forall>l k. lr = Some (l, k) \<longrightarrow>
             denotes \<sigma> s1 l (widthOf g x) (\<rho> x) \<and> denotes \<sigma> s1 k (widthOf g y) (\<rho> y))"
    by (rule encodes_both [OF lr]) (use value_sound [OF ex] xy in auto)
  show ?thesis
  proof (cases "lr = None \<or> tooWide ?w")
    case True
    hence "assertOverflow ext g v st = s1"
      using op k lr by (auto simp: assertOverflow_def split: option.split)
    thus ?thesis using sound_weaken [OF 1] by simp
  next
    case False
    then obtain l r where ab: "lr = Some (l, r)" by auto
    obtain e s2 where e: "makeBinary k l r ?w s1 = (e, s2)" by force
    obtain c s3 where c: "extendedArith Ne ext k l r e (?w + 1) s2 = (c, s3)" by force
    have run: "assertOverflow ext g v st = addAssertion c s3"
      using False op k lr ab e c by (simp add: assertOverflow_def)
    have bnd: "0 \<le> \<rho> x \<and> \<rho> x < 2 ^ ?w" "0 \<le> \<rho> y \<and> \<rho> y < 2 ^ ?w"
      using executes_bounds [OF ex xy(1)] executes_bounds [OF ex xy(2)] xy(3,4) by auto
    have runs: "binaryRuns opcode ?w (\<rho> x) (\<rho> y) ?r" using op(3) by auto
    have r: "0 \<le> ?r" "?r < 2 ^ ?w" using take_bit_int_less_exp by auto
    have not_exact: "\<not> extended_exact ext opcode ?w (\<rho> x) (\<rho> y) ?r"
      using extended_overflow [OF op(3) infer_pos _ _ _ _ over(2)] bnd over(1) by blast
    note ext = extended_sound [OF c _ over(2) k(1) arith]
    have 2: "sound_step g \<rho> st s2 (\<lambda>\<sigma>. may \<sigma> s2 l (valuesOf ?w (\<rho> x)) \<and>
        may \<sigma> s2 r (valuesOf ?w (\<rho> y)) \<and> may \<sigma> s2 e (valuesOf ?w ?r))"
    proof (rule sound_then [OF 1 binary_step [OF e]])
      fix \<sigma> assume "\<forall>l k. lr = Some (l, k) \<longrightarrow>
             denotes \<sigma> s1 l (widthOf g x) (\<rho> x) \<and> denotes \<sigma> s1 k (widthOf g y) (\<rho> y)"
        and gr: "grows s1 s2"
      hence m: "may \<sigma> s1 l (valuesOf ?w (\<rho> x))" "may \<sigma> s1 r (valuesOf ?w (\<rho> y))"
        using ab xy(3,4) by (auto dest: denotes_may)
      have "may \<sigma> s2 e {BvVal ?w ?r} \<and> is_node k ?w s2 e"
        by (rule binary_may [OF e _ _ m])
          (use arith_binaryKind [OF k(1)] arith_value [OF k(1) runs r] in auto)
      hence "may \<sigma> s2 e (valuesOf ?w ?r)" by (auto intro: may_mono simp: valuesOf_def)
      thus "may \<sigma> s2 l (valuesOf ?w (\<rho> x)) \<and> may \<sigma> s2 r (valuesOf ?w (\<rho> y)) \<and>
          may \<sigma> s2 e (valuesOf ?w ?r)" using m gr by (blast intro: may_grows)
    qed
    have "sound_step g \<rho> st s3 (\<lambda>\<sigma>. holds \<sigma> s3 c)"
    proof (rule sound_then [OF 2 ext(1)])
      fix \<sigma> assume "may \<sigma> s2 l (valuesOf ?w (\<rho> x)) \<and> may \<sigma> s2 r (valuesOf ?w (\<rho> y)) \<and>
          may \<sigma> s2 e (valuesOf ?w ?r)"
      hence "truth \<sigma> s3 c ((Ne = Eq) = extended_exact ext opcode ?w (\<rho> x) (\<rho> y) ?r)"
        by (intro ext(2)) auto
      thus "holds \<sigma> s3 c" using not_exact by (simp add: truth_holds)
    qed simp
    from assertion_sound [OF this] have "sound_step g \<rho> st (addAssertion c s3) (\<lambda>\<sigma>. holds \<sigma> s3 c)"
      by simp
    thus ?thesis unfolding run by (rule sound_weaken) simp
  qed
qed

lemma comparison_sound:
  assumes ex: "executes g None \<rho> S" and v: "v \<in> S" "widthOf g v = w" "0 < w"
    and c: "boundFits w c" "if gt then sint c < signedOf w (\<rho> v) else signedOf w (\<rho> v) \<le> sint c"
  shows "sound g \<rho> st (assertComparison g v c gt st)"
proof -
  let ?k = "if gt then Sgt else Sle"
  obtain eo s1 where e: "encodeValue g None {} v st = (eo, s1)" by force
  have 1: "sound_step g \<rho> st s1 (\<lambda>\<sigma>. \<forall>e. eo = Some e \<longrightarrow> denotes \<sigma> s1 e w (\<rho> v))"
    using value_sound [OF ex v(1), of st "{}"] v(2) by (simp add: e encodes_def outcome_def)
  show ?thesis
  proof (cases eo)
    case None
    thus ?thesis using sound_weaken [OF 1] e by (simp add: assertComparison_def)
  next
    case (Some x)
    obtain k s2 where k: "makeConstant c (en_bitWidth (nodesOf s1 ! x)) s1 = (k, s2)" by force
    obtain a s3 where a: "makeBinary ?k x k 1 s2 = (a, s3)" by force
    have run: "assertComparison g v c gt st = addAssertion a s3"
      using e Some k a by (simp add: assertComparison_def)
    have step: "sound g \<rho> s1 s3" by (rule sound_chain [OF constant_step [OF k] binary_step [OF a]])
    have sc: "signedOf w (take_bit w (uint c)) = sint c"
      using c(1) v(3) by (simp add: boundFits_def signed_take)
    have val: "d = BoolVal True" if "y \<in> valuesOf w (\<rho> v)"
      "opSem ?k 1 [y, BvVal w (take_bit w (uint c))] = Some d" for y d
      using that c(2) sc by (cases y) (auto simp: opSem_def valuesOf_def simp del: take_bit_Suc_0 split: if_splits)
    have "sound_step g \<rho> st s3 (\<lambda>\<sigma>. holds \<sigma> s3 a)"
    proof (rule sound_then [OF 1 step])
      fix \<sigma> assume "\<forall>e. eo = Some e \<longrightarrow> denotes \<sigma> s1 e w (\<rho> v)"
      hence "denotes \<sigma> s1 x w (\<rho> v)" using Some by simp
      thus "holds \<sigma> s3 a" by (rule bound_holds [OF _ v(3) k a]) (use val in auto)
    qed
    from assertion_sound [OF this] have "sound_step g \<rho> st (addAssertion a s3) (\<lambda>\<sigma>. holds \<sigma> s3 a)"
      by simp
    thus ?thesis unfolding run by (rule sound_weaken) simp
  qed
qed

section \<open>Properties\<close>

text \<open>An argument \<open>x\<close>, the test \<open>x < 10\<close> and the sum \<open>x + 10\<close>, all of 32 bits.\<close>

definition sample_values :: "(nat, nat) llvm_values" where
  "sample_values =
     [(0, \<lparr>v_kind = ArgumentV, v_intType = Some 32, v_name = ''x''\<rparr>),
      (1, \<lparr>v_kind = ConstantIntV \<lparr>ci_width = 32, ci_bits = 10\<rparr>, v_intType = Some 32, v_name = []\<rparr>),
      (2, \<lparr>v_kind = ICmpV ICMP_SLT 0 1, v_intType = Some 1, v_name = ''cmp''\<rparr>),
      (3, \<lparr>v_kind = BinaryV AddOp True False 0 1, v_intType = Some 32, v_name = ''sum''\<rparr>)]"

definition sample_run :: "int \<Rightarrow> nat \<Rightarrow> int" where
  "sample_run x = (\<lambda>v. if v = 0 then x else if v = 1 then 10 else if v = 2 then 1 else x + 10)"

definition sample_ranges :: "(nat \<times> IntRange) list" where
  "sample_ranges = [(0, \<lparr>ir_lower = 1, ir_upper = 5, ir_hasLower = True, ir_hasUpper = True\<rparr>)]"

definition sample_context :: "(nat \<times> (nat \<times> nat instruction) list) option" where
  "sample_context = Some (9, [(7, AssumeCall [2]), (8, OtherInst), (9, OtherInst), (10, AssumeCall [])])"

lemmas sample_defs = sample_values_def sample_run_def sample_ranges_def sample_context_def
lemmas run_defs = executes_def inferBitWidth_def kDefaultScalarBitWidth_def kindRuns_def widthOf_def
  flagsRun_def rangeRuns_def boundFits_def conditionRuns_def assumesRun_def
  shouldEncodeRangeConstraint_def

lemma sample_executes:
  "executes sample_values None (sample_run 3) {0, 1, 2, 3}"
  by (simp add: run_defs sample_defs signedOf_def)

lemma sample_holds:
  "\<forall>vr \<in> set sample_ranges. rangeRuns sample_values (sample_run 3) {0, 1, 2, 3} vr"
  "conditionRuns sample_values (sample_run 3) {0, 1, 2, 3} True 2"
  by (simp_all add: run_defs sample_defs signedOf_def Let_def)

lemma path_query:
  assumes "executes g b \<rho> S" "\<forall>vr \<in> set ranges. rangeRuns g \<rho> S vr"
    and "\<forall>is. block = Some is \<longrightarrow> assumesRun g \<rho> S is"
    and "\<forall>c. cond = Some c \<longrightarrow> conditionRuns g \<rho> S taken c"
  shows "\<exists>\<sigma>. satisfies \<sigma> (encode g ranges cond taken block b) \<and>
             follows \<rho> \<sigma> (encode g ranges cond taken block b)"
  unfolding encode_def
  by (rule custom_sound [OF assms(1,2)]) (use assms(3,4) in \<open>auto intro: sound_refl\<close>)

lemma overflow_query:
  assumes ex: "executes g None \<rho> S" and r: "\<forall>vr \<in> set ranges. rangeRuns g \<rho> S vr"
    and as: "\<forall>i blk. ctx = Some (i, blk) \<longrightarrow> assumesRun g \<rho> S (map snd (takeWhile (\<lambda>(j, _). j \<noteq> i) blk))"
    and op: "map_of g v = Some val" "v_kind val = BinaryV opcode nsw nuw x y"
      "opcode = AddOp \<or> opcode = SubOp"
      "x \<in> S" "y \<in> S" "widthOf g x = inferBitWidth val" "widthOf g y = inferBitWidth val"
    and over: "overflows ext opcode (inferBitWidth val) (\<rho> x) (\<rho> y)" "ext = SExt \<or> ext = ZExt"
  shows "\<exists>\<sigma>. satisfies \<sigma> (if ext = SExt then encodeSignedOverflowFeasibility g ranges v ctx
                           else encodeUnsignedOverflowFeasibility g ranges v ctx)"
proof -
  have "sound g \<rho> st (assertOverflow ext g v (encodeAssumesBeforeInstruction g None ctx st))" for st
    by (rule sound_chain [OF before_sound [OF ex] overflow_sound [OF ex op over]]) (use as in auto)
  from custom_sound [OF ex r, of None None, OF _ _ this]
  show ?thesis using over(2)
    unfolding encodeSignedOverflowFeasibility_def encodeUnsignedOverflowFeasibility_def by auto
qed

lemma comparison_query:
  assumes ex: "executes g None \<rho> S" and r: "\<forall>vr \<in> set ranges. rangeRuns g \<rho> S vr"
    and as: "\<forall>i blk. ctx = Some (i, blk) \<longrightarrow> assumesRun g \<rho> S (map snd (takeWhile (\<lambda>(j, _). j \<noteq> i) blk))"
    and v: "v \<in> S" "widthOf g v = w" "0 < w" "boundFits w c"
      "if gt then sint c < signedOf w (\<rho> v) else signedOf w (\<rho> v) \<le> sint c"
  shows "\<exists>\<sigma>. satisfies \<sigma> (encodeSignedComparisonFeasibility g ranges v c gt ctx)"
proof -
  have "sound g \<rho> st (assertComparison g v c gt (encodeAssumesBeforeInstruction g None ctx st))" for st
    by (rule sound_chain [OF before_sound [OF ex] comparison_sound [OF ex v]]) (use as in auto)
  from custom_sound [OF ex r, of None None, OF _ _ this]
  show ?thesis unfolding encodeSignedComparisonFeasibility_def by auto
qed



text \<open>
  The overflow query of an addition or subtraction admits every overflow. If the operands
  of a run that meets the ranges and the assumptions before the instruction have a sum or
  difference outside the width (signed or unsigned, as asked), the query is satisfied by that
  run, so a sound solver cannot refute the overflow.
\<close>

theorem overflow_queries_admit_every_overflow:
  assumes "executes g None \<rho> S" "\<forall>vr \<in> set ranges. rangeRuns g \<rho> S vr"
    and "\<forall>i blk. ctx = Some (i, blk) \<longrightarrow> assumesRun g \<rho> S (map snd (takeWhile (\<lambda>(j, _). j \<noteq> i) blk))"
    and "map_of g v = Some val" "v_kind val = BinaryV opcode nsw nuw x y"
      "opcode = AddOp \<or> opcode = SubOp"
      "x \<in> S" "y \<in> S" "widthOf g x = inferBitWidth val" "widthOf g y = inferBitWidth val"
    and "overflows ext opcode (inferBitWidth val) (\<rho> x) (\<rho> y)" "ext = SExt \<or> ext = ZExt"
  shows "\<exists>\<sigma>. satisfies \<sigma> (if ext = SExt then encodeSignedOverflowFeasibility g ranges v ctx
                           else encodeUnsignedOverflowFeasibility g ranges v ctx)"
  by (rule overflow_query [OF assms])

text \<open>The sum of the largest 32-bit number and 10.\<close>

definition overflow_values :: "(nat, nat) llvm_values" where
  "overflow_values =
     [(0, \<lparr>v_kind = ArgumentV, v_intType = Some 32, v_name = ''x''\<rparr>),
      (1, \<lparr>v_kind = ConstantIntV \<lparr>ci_width = 32, ci_bits = 10\<rparr>, v_intType = Some 32, v_name = []\<rparr>),
      (3, \<lparr>v_kind = BinaryV AddOp True False 0 1, v_intType = Some 32, v_name = ''sum''\<rparr>)]"

theorem overflow_queries_admit_every_overflow_witness:
  "\<exists>\<sigma>. satisfies \<sigma> (if SExt = SExt then encodeSignedOverflowFeasibility overflow_values [] 3
                       (Some (4 :: nat, [(3, OtherInst), (4, OtherInst)]))
                     else encodeUnsignedOverflowFeasibility overflow_values [] 3
                       (Some (4 :: nat, [(3, OtherInst), (4, OtherInst)])))"
proof (rule overflow_queries_admit_every_overflow [where \<rho> = "\<lambda>v. if v = 0 then 2147483647 else 10"
      and S = "{0, 1}" and opcode = AddOp and nsw = True and nuw = False and x = 0 and y = 1])
  show "executes overflow_values None (\<lambda>v. if v = 0 then 2147483647 else 10) {0, 1}"
    by (simp add: run_defs overflow_values_def signedOf_def)
  show "overflows SExt AddOp
      (inferBitWidth \<lparr>v_kind = BinaryV AddOp True False 0 1, v_intType = Some 32, v_name = ''sum''\<rparr>)
      (if (0 :: nat) = 0 then 2147483647 else 10) (if (1 :: nat) = 0 then 2147483647 else 10)"
    by (simp add: overflows_def inferBitWidth_def signedOf_def)
qed (auto simp: overflow_values_def assumesRun_def widthOf_def inferBitWidth_def)

text \<open>The product of the bytes 16 and 32.\<close>

definition product_values :: "(nat, nat) llvm_values" where
  "product_values =
     [(0, \<lparr>v_kind = ConstantIntV \<lparr>ci_width = 8, ci_bits = 16\<rparr>, v_intType = Some 8, v_name = []\<rparr>),
      (1, \<lparr>v_kind = ConstantIntV \<lparr>ci_width = 8, ci_bits = 32\<rparr>, v_intType = Some 8, v_name = []\<rparr>),
      (2, \<lparr>v_kind = BinaryV MulOp False False 0 1, v_intType = Some 8, v_name = ''product''\<rparr>)]"

definition product_query :: "nat ConstraintIR" where
  "product_query = encodeUnsignedOverflowFeasibility product_values [] 2
     (None :: (nat \<times> (nat \<times> nat instruction) list) option)"

lemma product_false: "assertionValue \<sigma> product_query 7 = Some (BoolVal False)"
  by code_simp

lemma product_assertions: "ir_assertions product_query = [7]"
  by code_simp

text \<open>
  One bit more is not enough for a product. 16 times 32 overflows a byte, but modulo
  \<open>2 ^ 9\<close> it is the product the byte holds, so the overflow query is false under every
  assignment and a sound solver refutes an overflow that happens.
\<close>

theorem product_overflow_is_refuted:
  "overflows ZExt MulOp 8 16 32 \<and>
   \<not> (\<exists>\<sigma>. satisfies \<sigma> (encodeUnsignedOverflowFeasibility product_values [] 2
            (None :: (nat \<times> (nat \<times> nat instruction) list) option)))"
  by (simp add: satisfies_def product_assertions product_false overflows_def flip: product_query_def)

text \<open>
  A loop body: \<open>i\<close> is a phi of the entry value and of \<open>next = i + 1\<close>; \<open>next \<le> 5\<close> is assumed
  and \<open>next = 5\<close> is the branch condition. Block 11 is the latch.
\<close>

definition loop_values :: "(nat, nat) llvm_values" where
  "loop_values =
     [(0, \<lparr>v_kind = ConstantIntV \<lparr>ci_width = 8, ci_bits = 0\<rparr>, v_intType = Some 8, v_name = []\<rparr>),
      (1, \<lparr>v_kind = PhiV [(10, 0), (11, 2)], v_intType = Some 8, v_name = ''i''\<rparr>),
      (2, \<lparr>v_kind = BinaryV AddOp False False 1 3, v_intType = Some 8, v_name = ''next''\<rparr>),
      (3, \<lparr>v_kind = ConstantIntV \<lparr>ci_width = 8, ci_bits = 1\<rparr>, v_intType = Some 8, v_name = []\<rparr>),
      (4, \<lparr>v_kind = ICmpV ICMP_SLE 2 5, v_intType = Some 1, v_name = ''small''\<rparr>),
      (5, \<lparr>v_kind = ConstantIntV \<lparr>ci_width = 8, ci_bits = 5\<rparr>, v_intType = Some 8, v_name = []\<rparr>),
      (6, \<lparr>v_kind = ICmpV ICMP_EQ 2 5, v_intType = Some 1, v_name = ''last''\<rparr>)]"

definition loop_run :: "nat \<Rightarrow> int" where
  "loop_run v = (if v = 0 then 0 else if v = 1 then 4 else if v = 3 then 1
                 else if v = 2 \<or> v = 5 then 5 else 1)"

definition loop_query :: "nat ConstraintIR" where
  "loop_query = encode loop_values [] (Some 6) True (Some [AssumeCall [4]]) (Some 11)"

lemmas eval_defs = assertionValue_def evalNodes_def nodeValue_def operandsOf_def operandValue_def
  opSem_def equalOp_def resizeOp_def normalizeBitWidth_def Let_def

lemma loop_nodes: "ir_nodes loop_query =
  [\<lparr>en_kind = Symbol, en_symbol = 1, en_constant = 0, en_bitWidth = 8, en_lhs = 0, en_rhs = 0, en_extra = 0\<rparr>,
   \<lparr>en_kind = Constant, en_symbol = 0, en_constant = 1, en_bitWidth = 8, en_lhs = 0, en_rhs = 0, en_extra = 0\<rparr>,
   \<lparr>en_kind = Add, en_symbol = 0, en_constant = 0, en_bitWidth = 8, en_lhs = 0, en_rhs = 1, en_extra = 0\<rparr>,
   \<lparr>en_kind = Constant, en_symbol = 0, en_constant = 5, en_bitWidth = 8, en_lhs = 0, en_rhs = 0, en_extra = 0\<rparr>,
   \<lparr>en_kind = Sle, en_symbol = 0, en_constant = 0, en_bitWidth = 1, en_lhs = 2, en_rhs = 3, en_extra = 0\<rparr>,
   \<lparr>en_kind = Eq, en_symbol = 0, en_constant = 0, en_bitWidth = 1, en_lhs = 0, en_rhs = 3, en_extra = 0\<rparr>,
   \<lparr>en_kind = And, en_symbol = 0, en_constant = 0, en_bitWidth = 1, en_lhs = 4, en_rhs = 5, en_extra = 0\<rparr>]"
  by code_simp

lemma loop_assertions: "ir_assertions loop_query = [4, 5]"
  by code_simp

lemma loop_small: "assertionValue \<sigma> loop_query 4 =
    Some (BoolVal (signedOf 8 (take_bit 8 (take_bit 8 (\<sigma> 1) + 1)) \<le> signedOf 8 5))"
  by (simp add: eval_defs loop_nodes)

lemma loop_last: "assertionValue \<sigma> loop_query 5 = Some (BoolVal (take_bit 8 (\<sigma> 1) = 5))"
  by (simp add: eval_defs loop_nodes)

lemma loop_unsatisfiable: "\<not> satisfies \<sigma> loop_query"
proof
  assume "satisfies \<sigma> loop_query"
  hence "signedOf 8 (take_bit 8 (take_bit 8 (\<sigma> 1) + 1)) \<le> signedOf 8 5" "take_bit 8 (\<sigma> 1) = 5"
    by (auto simp: satisfies_def loop_assertions loop_small loop_last)
  thus False by (simp add: signedOf_def)
qed

text \<open>
  A phi that is resolved to its incoming value while that value is being encoded gives the
  same expression two meanings. For the second iteration of the loop above (\<open>i = 4\<close>,
  \<open>next = 5\<close>) the assumption and the branch condition hold, but the query for the back edge
  reads \<open>next\<close> first as \<open>t + 1\<close> and then as \<open>t\<close>: no assignment satisfies it, and a
  feasible path is pruned.
\<close>

theorem loop_iteration_is_pruned:
  "executes loop_values None loop_run UNIV \<and>
   assumesRun loop_values loop_run UNIV [AssumeCall [4]] \<and>
   conditionRuns loop_values loop_run UNIV True 6 \<and>
   \<not> (\<exists>\<sigma>. satisfies \<sigma> (encode loop_values [] (Some 6) True (Some [AssumeCall [4]]) (Some 11)))"
proof -
  have "executes loop_values None loop_run UNIV"
    by (simp add: run_defs loop_values_def loop_run_def phiOperand_def signedOf_def)
  moreover have "assumesRun loop_values loop_run UNIV [AssumeCall [4]]"
    "conditionRuns loop_values loop_run UNIV True 6"
    by (simp_all add: run_defs loop_values_def loop_run_def)
  ultimately show ?thesis
    using loop_unsatisfiable unfolding loop_query_def by blast
qed

text \<open>
  A range on a sum that is marked \<open>nsw\<close> brings the assertion that the sum does not wrap into
  its own overflow query.
\<close>

definition nsw_values :: "(nat, nat) llvm_values" where
  "nsw_values =
     [(0, \<lparr>v_kind = ArgumentV, v_intType = Some 8, v_name = ''x''\<rparr>),
      (1, \<lparr>v_kind = ConstantIntV \<lparr>ci_width = 8, ci_bits = 1\<rparr>, v_intType = Some 8, v_name = []\<rparr>),
      (2, \<lparr>v_kind = BinaryV AddOp True False 0 1, v_intType = Some 8, v_name = ''sum''\<rparr>)]"

definition nsw_query :: "nat ConstraintIR" where
  "nsw_query = encodeSignedOverflowFeasibility nsw_values
     [(2, \<lparr>ir_lower = 0, ir_upper = 100, ir_hasLower = False, ir_hasUpper = True\<rparr>)] 2
     (None :: (nat \<times> (nat \<times> nat instruction) list) option)"

lemma nsw_nodes: "ir_nodes nsw_query =
  [\<lparr>en_kind = Symbol, en_symbol = 1, en_constant = 0, en_bitWidth = 8, en_lhs = 0, en_rhs = 0, en_extra = 0\<rparr>,
   \<lparr>en_kind = Constant, en_symbol = 0, en_constant = 1, en_bitWidth = 8, en_lhs = 0, en_rhs = 0, en_extra = 0\<rparr>,
   \<lparr>en_kind = Add, en_symbol = 0, en_constant = 0, en_bitWidth = 8, en_lhs = 0, en_rhs = 1, en_extra = 0\<rparr>,
   \<lparr>en_kind = SExt, en_symbol = 0, en_constant = 0, en_bitWidth = 9, en_lhs = 0, en_rhs = 0, en_extra = 0\<rparr>,
   \<lparr>en_kind = SExt, en_symbol = 0, en_constant = 0, en_bitWidth = 9, en_lhs = 1, en_rhs = 0, en_extra = 0\<rparr>,
   \<lparr>en_kind = SExt, en_symbol = 0, en_constant = 0, en_bitWidth = 9, en_lhs = 2, en_rhs = 0, en_extra = 0\<rparr>,
   \<lparr>en_kind = Add, en_symbol = 0, en_constant = 0, en_bitWidth = 9, en_lhs = 3, en_rhs = 4, en_extra = 0\<rparr>,
   \<lparr>en_kind = Eq, en_symbol = 0, en_constant = 0, en_bitWidth = 1, en_lhs = 5, en_rhs = 6, en_extra = 0\<rparr>,
   \<lparr>en_kind = Symbol, en_symbol = 2, en_constant = 0, en_bitWidth = 8, en_lhs = 0, en_rhs = 0, en_extra = 0\<rparr>,
   \<lparr>en_kind = Constant, en_symbol = 0, en_constant = 100, en_bitWidth = 8, en_lhs = 0, en_rhs = 0, en_extra = 0\<rparr>,
   \<lparr>en_kind = Sle, en_symbol = 0, en_constant = 0, en_bitWidth = 1, en_lhs = 8, en_rhs = 9, en_extra = 0\<rparr>,
   \<lparr>en_kind = And, en_symbol = 0, en_constant = 0, en_bitWidth = 1, en_lhs = 7, en_rhs = 10, en_extra = 0\<rparr>,
   \<lparr>en_kind = Add, en_symbol = 0, en_constant = 0, en_bitWidth = 8, en_lhs = 0, en_rhs = 1, en_extra = 0\<rparr>,
   \<lparr>en_kind = SExt, en_symbol = 0, en_constant = 0, en_bitWidth = 9, en_lhs = 0, en_rhs = 0, en_extra = 0\<rparr>,
   \<lparr>en_kind = SExt, en_symbol = 0, en_constant = 0, en_bitWidth = 9, en_lhs = 1, en_rhs = 0, en_extra = 0\<rparr>,
   \<lparr>en_kind = SExt, en_symbol = 0, en_constant = 0, en_bitWidth = 9, en_lhs = 12, en_rhs = 0, en_extra = 0\<rparr>,
   \<lparr>en_kind = Add, en_symbol = 0, en_constant = 0, en_bitWidth = 9, en_lhs = 13, en_rhs = 14, en_extra = 0\<rparr>,
   \<lparr>en_kind = Ne, en_symbol = 0, en_constant = 0, en_bitWidth = 1, en_lhs = 15, en_rhs = 16, en_extra = 0\<rparr>,
   \<lparr>en_kind = And, en_symbol = 0, en_constant = 0, en_bitWidth = 1, en_lhs = 11, en_rhs = 17, en_extra = 0\<rparr>]"
  by code_simp

lemma nsw_assertions: "ir_assertions nsw_query = [7, 10, 17]"
  by code_simp

text \<open>The overflow of 127 meets the range of the sum, and the query refutes it.\<close>

lemma ranged_sum_refutes_its_overflow:
  "overflows SExt AddOp 8 127 1 \<and> signedOf 8 (take_bit 8 (127 + 1)) \<le> 100 \<and> \<not> satisfies \<sigma> nsw_query"
proof -
  obtain p where "assertionValue \<sigma> nsw_query 7 = Some (BoolVal p)"
    "assertionValue \<sigma> nsw_query 17 = Some (BoolVal (\<not> p))"
    by (simp add: eval_defs nsw_nodes)
  hence "\<not> satisfies \<sigma> nsw_query" by (cases p) (auto simp: satisfies_def nsw_assertions)
  thus ?thesis by (simp add: overflows_def signedOf_def)
qed

end
