(* ===== verification/SmtWellFormed.thy ===== *)
theory SmtWellFormed
  imports SmtSoundness
begin

text \<open>
  The shape of what the encoder builds: every node comes after its operands, every
  identifier it hands out, caches or asserts is the identifier of a node, and the intervals it
  records are never contradictory.
\<close>

definition ordered :: "ExprNode list \<Rightarrow> bool" where
  "ordered ns \<longleftrightarrow> (\<forall>i < length ns. \<forall>j \<in> set (operandsOf (ns ! i)). j < i)"

definition size_of :: "'v encoder \<Rightarrow> nat" where
  "size_of st = length (nodesOf st)"

definition wfe :: "'v encoder \<Rightarrow> bool" where
  "wfe st \<longleftrightarrow>
     ordered (nodesOf st) \<and>
     (\<forall>v e. e_cache st v = Some e \<longrightarrow> e < size_of st) \<and>
     (\<forall>v i. e_symbolByValue st v = Some i \<longrightarrow> (\<exists>e. e_symbolExprById st i = Some e \<and> e < size_of st)) \<and>
     (\<forall>a \<in> set (ir_assertions (e_ir st)). a < size_of st) \<and>
     (\<forall>a. ir_entryCondition (e_ir st) = Some a \<longrightarrow> a < size_of st) \<and>
     \<not> list_ex contradictory (ir_intervals (e_ir st))"

text \<open>A step from \<open>st\<close> to \<open>st'\<close> keeps the shape and leaves the identifiers \<open>es\<close> valid.\<close>

definition keeps :: "'v encoder \<Rightarrow> 'v encoder \<Rightarrow> nat list \<Rightarrow> bool" where
  "keeps st st' es \<longleftrightarrow>
     wfe st' \<and> size_of st \<le> size_of st' \<and> (\<forall>e \<in> set es. e < size_of st') \<and>
     ir_intervals (e_ir st') = ir_intervals (e_ir st) \<and>
     (ir_assertions (e_ir st) \<noteq> [] \<longrightarrow> ir_assertions (e_ir st') \<noteq> [])"

lemma keepsD: "keeps st st' es \<Longrightarrow> wfe st'" "keeps st st' es \<Longrightarrow> size_of st \<le> size_of st'"
  "keeps st st' es \<Longrightarrow> e \<in> set es \<Longrightarrow> e < size_of st'"
  by (auto simp: keeps_def)

lemma keeps_trans: "keeps a b es \<Longrightarrow> keeps b c fs \<Longrightarrow> set gs \<subseteq> set es \<union> set fs \<Longrightarrow> keeps a c gs"
  by (fastforce simp: keeps_def)

lemma keeps_refl: "wfe st \<Longrightarrow> (\<And>e. e \<in> set es \<Longrightarrow> e < size_of st) \<Longrightarrow> keeps st st es"
  by (auto simp: keeps_def)

lemma keeps_append:
  assumes "appendNode n st = (e, st')" "wfe st" "\<And>j. j \<in> set (operandsOf n) \<Longrightarrow> j < size_of st"
  shows "keeps st st' [e]"
proof -
  have e: "e = length (nodesOf st)" "st' = snd (appendNode n st)"
    using assms(1) append_fields(2) [of n st] by auto
  have "ordered (nodesOf st')"
    using assms(2,3) unfolding ordered_def wfe_def size_of_def
    by (auto simp: e less_Suc_eq nth_append)
  hence "wfe st'" using assms(2) unfolding wfe_def
    by (fastforce simp: e size_of_def less_SucI)
  thus ?thesis unfolding keeps_def by (simp add: e size_of_def)
qed

lemma operands_of [simp]:
  "operandsOf \<lparr>en_kind = Constant, en_symbol = s, en_constant = c, en_bitWidth = w, en_lhs = l, en_rhs = r, en_extra = x\<rparr> = []"
  "operandsOf \<lparr>en_kind = Symbol, en_symbol = s, en_constant = c, en_bitWidth = w, en_lhs = l, en_rhs = r, en_extra = x\<rparr> = []"
  by (simp_all add: operandsOf_def)

lemma operands_sub:
  "set (operandsOf \<lparr>en_kind = k, en_symbol = s, en_constant = c, en_bitWidth = w, en_lhs = l, en_rhs = r, en_extra = x\<rparr>) \<subseteq> {l, r, x}"
  "unaryKind k \<Longrightarrow> operandsOf \<lparr>en_kind = k, en_symbol = s, en_constant = c, en_bitWidth = w, en_lhs = l, en_rhs = r, en_extra = x\<rparr> = [l]"
  "binaryKind k \<Longrightarrow> operandsOf \<lparr>en_kind = k, en_symbol = s, en_constant = c, en_bitWidth = w, en_lhs = l, en_rhs = r, en_extra = x\<rparr> = [l, r]"
  by (auto simp: operandsOf_def unaryKind_def binaryKind_def leafKind_def)

lemma keeps_constant: "makeConstant c w st = (e, st') \<Longrightarrow> wfe st \<Longrightarrow> keeps st st' [e]"
  unfolding makeConstant_def by (erule keeps_append) simp_all

lemma keeps_binary:
  "makeBinary k l r w st = (e, st') \<Longrightarrow> wfe st \<Longrightarrow> binaryKind k \<Longrightarrow> l < size_of st \<Longrightarrow> r < size_of st \<Longrightarrow>
   keeps st st' [e]"
  unfolding makeBinary_def by (erule keeps_append) (auto simp: operands_sub(3))

lemma keeps_unary:
  "makeUnary k l w st = (e, st') \<Longrightarrow> wfe st \<Longrightarrow> unaryKind k \<Longrightarrow> l < size_of st \<Longrightarrow> keeps st st' [e]"
  unfolding makeUnary_def by (erule keeps_append) (auto simp: operands_sub(2))

lemma keeps_ternary:
  "makeTernary k l r x w st = (e, st') \<Longrightarrow> wfe st \<Longrightarrow> l < size_of st \<Longrightarrow> r < size_of st \<Longrightarrow>
   x < size_of st \<Longrightarrow> keeps st st' [e]"
  unfolding makeTernary_def by (erule keeps_append) (use operands_sub(1) in fastforce)+

lemma wfe_same:
  assumes "wfe st" "nodesOf st' = nodesOf st"
    "\<And>v e. e_cache st' v = Some e \<Longrightarrow> e_cache st v = Some e \<or> e < size_of st"
    "e_symbolByValue st' = e_symbolByValue st" "e_symbolExprById st' = e_symbolExprById st"
    "\<And>a. a \<in> set (ir_assertions (e_ir st')) \<Longrightarrow> a \<in> set (ir_assertions (e_ir st)) \<or> a < size_of st"
    "\<And>a. ir_entryCondition (e_ir st') = Some a \<Longrightarrow> ir_entryCondition (e_ir st) = Some a \<or> a < size_of st"
    "list_ex contradictory (ir_intervals (e_ir st')) \<Longrightarrow> list_ex contradictory (ir_intervals (e_ir st))"
  shows "wfe st'"
  using assms unfolding wfe_def size_of_def by metis

lemma keeps_symbol:
  assumes "makeSymbol v nm w st = (e, st')" "wfe st"
  shows "keeps st st' [e]"
proof (cases "e_symbolByValue st v")
  case (Some i)
  thus ?thesis using assms unfolding keeps_def wfe_def by (force simp: makeSymbol_def)
next
  case None
  let ?n = "\<lparr>en_kind = Symbol, en_symbol = e_nextSymbolId st, en_constant = 0,
              en_bitWidth = normalizeBitWidth w, en_lhs = 0, en_rhs = 0, en_extra = 0\<rparr>"
  obtain st1 where a: "appendNode ?n st = (e, st1)" and f: "nodesOf st' = nodesOf st1"
    "e_cache st' = e_cache st1" "e_symbolByValue st' = (e_symbolByValue st1)(v \<mapsto> e_nextSymbolId st)"
    "e_symbolExprById st' = (e_symbolExprById st1)(e_nextSymbolId st \<mapsto> e)"
    "ir_assertions (e_ir st') = ir_assertions (e_ir st1)"
    "ir_entryCondition (e_ir st') = ir_entryCondition (e_ir st1)"
    "ir_intervals (e_ir st') = ir_intervals (e_ir st1)"
    using assms(1) None by (auto simp: makeSymbol_def Let_def nodesOf_def split: prod.splits)
  have k: "keeps st st1 [e]" by (rule keeps_append [OF a assms(2)]) simp
  show ?thesis using k unfolding keeps_def wfe_def size_of_def f by (auto simp: fun_upd_apply)
qed

lemma keeps_assertion:
  assumes "wfe st" "a < size_of st"
  shows "keeps st (addAssertion a st) [] \<and> ir_assertions (e_ir (addAssertion a st)) \<noteq> []"
proof -
  let ?u = "st \<lparr>e_ir := (e_ir st) \<lparr>ir_assertions := ir_assertions (e_ir st) @ [a]\<rparr>\<rparr>"
  have u: "wfe ?u" "size_of ?u = size_of st"
    using assms by (auto simp: size_of_def nodesOf_def intro!: wfe_same [OF assms(1)])
  show ?thesis
  proof (cases "ir_entryCondition (e_ir st)")
    case None
    let ?t = "?u \<lparr>e_ir := (e_ir ?u) \<lparr>ir_entryCondition := Some a\<rparr>\<rparr>"
    have "wfe ?t" by (rule wfe_same [OF u(1)]) (use assms(2) u(2) in \<open>auto simp: nodesOf_def\<close>)
    moreover have "addAssertion a st = ?t" using None by (simp add: addAssertion_def)
    moreover have "size_of ?t = size_of st" by (simp add: size_of_def nodesOf_def)
    ultimately show ?thesis by (simp add: keeps_def)
  next
    case (Some c)
    obtain e w where mk: "makeBinary And c a 1 ?u = (e, w)" by force
    have "c < size_of st" using assms(1) Some by (auto simp: wfe_def)
    hence k: "keeps ?u w [e]"
      by (intro keeps_binary [OF mk u(1)]) (use u(2) assms(2) in \<open>auto simp: binaryKind_def leafKind_def unaryKind_def\<close>)
    let ?t = "w \<lparr>e_ir := (e_ir w) \<lparr>ir_entryCondition := Some e\<rparr>\<rparr>"
    have "wfe ?t" by (rule wfe_same [OF keepsD(1) [OF k]]) (use k in \<open>auto simp: nodesOf_def keeps_def\<close>)
    moreover have "addAssertion a st = ?t" using Some mk by (simp add: addAssertion_def)
    moreover have "size_of ?t = size_of w" by (simp add: size_of_def nodesOf_def)
    ultimately show ?thesis using k u(2) by (simp add: keeps_def)
  qed
qed

section \<open>The expression encoder\<close>

definition out_ok :: "'v encoder \<Rightarrow> 'v encode_result \<Rightarrow> bool" where
  "out_ok st r \<longleftrightarrow> keeps st (snd r) (case fst r of None \<Rightarrow> [] | Some e \<Rightarrow> [e])"

lemma out_none: "keeps st st' es \<Longrightarrow> out_ok st (None, st')"
  by (auto simp: out_ok_def keeps_def)

lemma out_some: "keeps st st' es \<Longrightarrow> e \<in> set es \<Longrightarrow> out_ok st (Some e, st')"
  by (auto simp: out_ok_def keeps_def)

lemma out_found: "keeps st0 st es \<Longrightarrow> keeps st st' [e] \<Longrightarrow> out_ok st0 (found (e, st'))"
  by (auto simp: out_ok_def keeps_def found_def)

lemma out_cases:
  assumes "out_ok st (r, st')"
  shows "wfe st'" "size_of st \<le> size_of st'" "r = Some e \<Longrightarrow> e < size_of st'"
    "keeps st st' (case r of None \<Rightarrow> [] | Some e \<Rightarrow> [e])"
  using assms by (auto simp: out_ok_def keeps_def)

lemma both_keeps:
  assumes run: "encodeBoth rec1 rec2 a b st = (r, st')" and wf: "wfe st"
    and rec: "\<And>s. wfe s \<Longrightarrow> out_ok s (rec1 a s)" "\<And>s. wfe s \<Longrightarrow> out_ok s (rec2 b s)"
  shows "keeps st st' (case r of None \<Rightarrow> [] | Some (l, k) \<Rightarrow> [l, k])"
proof -
  obtain lo s1 ro s2 where m: "rec1 a st = (lo, s1)" "rec2 b s1 = (ro, s2)" by force
  have 1: "out_ok st (lo, s1)" using rec(1) [OF wf] m by simp
  have 2: "out_ok s1 (ro, s2)" using rec(2) [OF out_cases(1) [OF 1]] m by simp
  have r: "st' = s2" "r = Some (l, k) \<Longrightarrow> lo = Some l \<and> ro = Some k" for l k
    using run by (auto simp: encodeBoth_def m split: option.splits)
  show ?thesis unfolding r(1)
    by (rule keeps_trans [OF out_cases(4) [OF 1] out_cases(4) [OF 2]])
      (use r(2) in \<open>auto split: option.split\<close>)
qed

lemma as_boolean_keeps:
  assumes wf: "wfe st" and rec: "\<And>s. wfe s \<Longrightarrow> out_ok s (rec v s)"
  shows "out_ok st (encodeAsBoolean rec v st)"
proof (cases "rec v st")
  case (Pair r s1)
  have 1: "out_ok st (r, s1)" using rec [OF wf] Pair by simp
  show ?thesis
  proof (cases r)
    case None
    thus ?thesis using 1 Pair by (simp add: encodeAsBoolean_def)
  next
    case (Some e)
    let ?n = "nodesOf s1 ! e"
    obtain z s2 where z: "makeConstant 0 (en_bitWidth ?n) s1 = (z, s2)" by force
    obtain ne s3 where ne: "makeBinary Ne e z 1 s2 = (ne, s3)" by force
    have k2: "keeps s1 s2 [z]" by (rule keeps_constant [OF z out_cases(1) [OF 1]])
    have "e < size_of s1" using out_cases(3) [OF 1 Some] .
    hence "keeps s2 s3 [ne]"
      using k2 by (intro keeps_binary [OF ne]) (auto simp: keeps_def binaryKind_def leafKind_def unaryKind_def)
    hence "out_ok st (Some ne, s3)"
      by (intro out_some [OF keeps_trans [OF keeps_trans [OF out_cases(4) [OF 1] k2], of "[]"]]) auto
    thus ?thesis using 1 Pair Some z ne
      by (simp add: encodeAsBoolean_def Let_def del: isBooleanExprKind.simps)
  qed
qed

lemma extended_keeps:
  assumes run: "extendedArith cmp ext k l r e w st = (x, st')" and wf: "wfe st"
    and ids: "l < size_of st" "r < size_of st" "e < size_of st"
    and kinds: "binaryKind cmp" "unaryKind ext" "binaryKind k"
  shows "keeps st st' [x]"
proof -
  obtain a s1 where a: "makeUnary ext l w st = (a, s1)" by force
  obtain b s2 where b: "makeUnary ext r w s1 = (b, s2)" by force
  obtain c s3 where c: "makeUnary ext e w s2 = (c, s3)" by force
  obtain d s4 where d: "makeBinary k a b w s3 = (d, s4)" by force
  have e: "makeBinary cmp c d 1 s4 = (x, st')" using run by (simp add: extendedArith_def a b c d)
  have 1: "keeps st s1 [a]" by (rule keeps_unary [OF a wf kinds(2) ids(1)])
  have 2: "keeps s1 s2 [b]" by (rule keeps_unary [OF b _ kinds(2)]) (use 1 ids in \<open>auto simp: keeps_def\<close>)
  have 3: "keeps s2 s3 [c]" by (rule keeps_unary [OF c _ kinds(2)]) (use 1 2 ids in \<open>auto simp: keeps_def\<close>)
  have 4: "keeps s3 s4 [d]" by (rule keeps_binary [OF d _ kinds(3)]) (use 1 2 3 in \<open>auto simp: keeps_def\<close>)
  have 5: "keeps s4 st' [x]" by (rule keeps_binary [OF e _ kinds(1)]) (use 3 4 in \<open>auto simp: keeps_def\<close>)
  show ?thesis using 1 2 3 4 5 by (auto simp: keeps_def)
qed

lemma no_wrap_keeps:
  assumes wf: "wfe st" and ids: "l < size_of st" "r < size_of st" "e < size_of st"
    and kinds: "unaryKind ext" "binaryKind k"
  shows "keeps st (assertNoWrap flag ext k l r e w st) []"
proof (cases flag)
  case True
  obtain x s1 where x: "extendedArith Eq ext k l r e w st = (x, s1)" by force
  have 1: "keeps st s1 [x]"
    by (rule extended_keeps [OF x wf ids _ kinds]) (simp add: binaryKind_def leafKind_def unaryKind_def)
  have "keeps s1 (addAssertion x s1) []"
    by (rule keeps_assertion [THEN conjunct1]) (use 1 in \<open>auto simp: keeps_def\<close>)
  thus ?thesis using True x keeps_trans [OF 1, of _ "[]" "[]"] by (simp add: assertNoWrap_def)
qed (use wf in \<open>auto simp: assertNoWrap_def intro: keeps_refl\<close>)

lemma binary_operator_keeps:
  assumes wf: "wfe st" and rec: "\<And>u s. wfe s \<Longrightarrow> out_ok s (rec u s)"
  shows "out_ok st (encodeBinaryOperator rec opcode nsw nuw a b w st)"
proof (cases "encodeBoth rec rec a b st")
  case (Pair lr s1)
  note 1 = both_keeps [OF Pair wf rec rec]
  show ?thesis
  proof (cases "lr = None \<or> arithKind opcode = None")
    case True
    hence "encodeBinaryOperator rec opcode nsw nuw a b w st = (None, s1)"
      by (auto simp: encodeBinaryOperator_def Pair split: option.split)
    thus ?thesis using out_none [OF 1] by simp
  next
    case False
    then obtain l r k where lr: "lr = Some (l, r)" and k: "arithKind opcode = Some k" by auto
    have bk: "binaryKind k" using arith_binaryKind [OF k] by simp
    obtain e s2 where e: "makeBinary k l r w s1 = (e, s2)" by force
    have 2: "keeps s1 s2 [e]" by (rule keeps_binary [OF e _ bk]) (use 1 lr in \<open>auto simp: keeps_def\<close>)
    let ?s3 = "assertNoWrap nsw SExt k l r e (w + 1) s2"
    let ?s4 = "assertNoWrap nuw ZExt k l r e (w + 1) ?s3"
    have 3: "keeps s2 ?s3 []"
      by (rule no_wrap_keeps) (use 1 2 lr bk in \<open>auto simp: keeps_def unaryKind_def\<close>)
    have 4: "keeps ?s3 ?s4 []"
      by (rule no_wrap_keeps) (use 1 2 3 lr bk in \<open>auto simp: keeps_def unaryKind_def\<close>)
    have "out_ok st (Some e, s2)" "out_ok st (Some e, ?s4)"
      using 1 2 3 4 by (auto simp: out_ok_def keeps_def)
    thus ?thesis by (simp add: encodeBinaryOperator_def Pair lr k e)
  qed
qed

lemma select_keeps:
  assumes wf: "wfe st" and rec: "\<And>u s. wfe s \<Longrightarrow> out_ok s (rec u s)"
  shows "out_ok st (encodeSelect rec c t f isBool w st)"
proof -
  obtain co s0 where co: "encodeAsBoolean rec c st = (co, s0)" by force
  have 0: "out_ok st (co, s0)" using as_boolean_keeps [where v = c and rec = rec, OF wf rec] co by simp
  show ?thesis
  proof (cases co)
    case None
    thus ?thesis using 0 co by (simp add: encodeSelect_def)
  next
    case (Some cond)
    let ?r = "if isBool then encodeAsBoolean rec else rec"
    obtain p s1 where p: "encodeBoth ?r ?r t f s0 = (p, s1)" by force
    have "out_ok s (?r u s)" if "wfe s" for u s
      using as_boolean_keeps [where v = u and rec = rec, OF that rec] rec [OF that] by simp
    hence 1: "keeps s0 s1 (case p of None \<Rightarrow> [] | Some (l, k) \<Rightarrow> [l, k])"
      using both_keeps [OF p out_cases(1) [OF 0]] by blast
    have c0: "cond < size_of s0" using out_cases(3) [OF 0 Some] .
    show ?thesis
    proof (cases p)
      case None
      have "out_ok st (None, s1)" using 1 out_cases(4) [OF 0] None by (auto simp: out_ok_def keeps_def)
      thus ?thesis using co Some p None by (simp add: encodeSelect_def split: if_splits)
    next
      case lr: (Some lr)
      then obtain l r where l: "p = Some (l, r)" by force
      obtain x1 s2 x2 s3 x3 s4 x s5 where m: "makeBinary And cond l 1 s1 = (x1, s2)"
        "makeUnary Not cond 1 s2 = (x2, s3)" "makeBinary And x2 r 1 s3 = (x3, s4)"
        "makeBinary Or x1 x3 1 s4 = (x, s5)" by (metis surj_pair)
      obtain y s6 where y: "makeTernary Ite cond l r w s1 = (y, s6)" by force
      have bk: "binaryKind And" "binaryKind Or" "unaryKind Not"
        by (simp_all add: binaryKind_def leafKind_def unaryKind_def)
      have i: "wfe s1" "l < size_of s1" "r < size_of s1" "cond < size_of s1" "size_of st \<le> size_of s1"
        using 1 c0 out_cases(2) [OF 0] l by (auto simp: keeps_def)
      have 2: "keeps s1 s2 [x1]" by (rule keeps_binary [OF m(1) i(1) bk(1) i(4,2)])
      have 3: "keeps s2 s3 [x2]" by (rule keeps_unary [OF m(2) _ bk(3)]) (use 2 i in \<open>auto simp: keeps_def\<close>)
      have 4: "keeps s3 s4 [x3]" by (rule keeps_binary [OF m(3) _ bk(1)]) (use 2 3 i in \<open>auto simp: keeps_def\<close>)
      have 5: "keeps s4 s5 [x]" by (rule keeps_binary [OF m(4) _ bk(2)]) (use 2 3 4 in \<open>auto simp: keeps_def\<close>)
      have 6: "keeps s1 s6 [y]" by (rule keeps_ternary [OF y i(1,4,2,3)])
      have "keeps st s1 []" using out_cases(4) [OF 0] 1 by (auto simp: keeps_def)
      hence "out_ok st (found (x, s5))" "out_ok st (found (y, s6))"
        using 2 3 4 5 6 by (auto simp: out_ok_def keeps_def found_def)
      thus ?thesis using co Some p l m y by (simp add: encodeSelect_def split: if_splits)
    qed
  qed
qed

lemma emplace_keeps: "out_ok st r \<Longrightarrow> out_ok st (remember v r)"
proof (cases "fst r")
  case None
  thus "out_ok st r \<Longrightarrow> out_ok st (remember v r)" by (cases r) (simp add: remember_def)
next
  case (Some e)
  assume k: "out_ok st r"
  obtain s where r: "r = (Some e, s)" using Some by (cases r) simp
  have e: "e < size_of s" "wfe s" using k r by (auto simp: out_ok_def keeps_def)
  have "nodesOf (emplaceCache v e s) = nodesOf s"
    by (simp add: emplaceCache_def nodesOf_def split: option.split)
  hence sz: "size_of (emplaceCache v e s) = size_of s" by (simp add: size_of_def)
  have "wfe (emplaceCache v e s)"
    by (rule wfe_same [OF e(2)])
      (use e(1) in \<open>auto simp: emplaceCache_def nodesOf_def split: option.splits if_splits\<close>)
  moreover have "e_ir (emplaceCache v e s) = e_ir s"
    by (simp add: emplaceCache_def split: option.split)
  ultimately show ?thesis using k sz by (simp add: r remember_def out_ok_def keeps_def)
qed

lemma impl_keeps:
  assumes wf: "wfe st" and rec: "\<And>u s. wfe s \<Longrightarrow> out_ok s (rec u s)"
  shows "out_ok st (encodeValueImpl rec b v val st)"
proof -
  let ?w = "inferBitWidth val"
  have sym: "out_ok st (found (makeSymbol v (v_name val) ?w s))" if "keeps st s es" for s es
  proof -
    obtain e s' where m: "makeSymbol v (v_name val) ?w s = (e, s')" by force
    show ?thesis unfolding m by (rule out_found [OF that keeps_symbol [OF m keepsD(1) [OF that]]])
  qed
  have const: "out_ok st (found (makeConstant c ?w st))" for c
  proof -
    obtain e s where m: "makeConstant c ?w st = (e, s)" by force
    show ?thesis unfolding m
      by (rule out_found [OF keeps_refl [OF wf, of "[]"] keeps_constant [OF m wf]]) simp
  qed
  have cast: "out_ok st (found (makeUnary k l ?w s))" if "out_ok st (Some l, s)" "unaryKind k" for l s k
  proof -
    obtain e s' where m: "makeUnary k l ?w s = (e, s')" by force
    show ?thesis unfolding m
      by (rule out_found [OF out_cases(4) [OF that(1)]
          keeps_unary [OF m out_cases(1) [OF that(1)] that(2) out_cases(3) [OF that(1) refl]]])
  qed
  have sym0: "out_ok st (found (makeSymbol v (v_name val) ?w st))"
    by (rule sym [OF keeps_refl [OF wf, of "[]"]]) simp
  show ?thesis
  proof (cases "v_kind val")
    case (PhiV incoming)
    thus ?thesis using sym0 rec [OF wf] by (simp add: encodeValueImpl_def split: option.split)
  next
    case (SelectV c t f)
    thus ?thesis using select_keeps [where rec = rec, OF wf rec] by (simp add: encodeValueImpl_def)
  next
    case (CastV opcode u)
    obtain r s where r: "rec u st = (r, s)" by force
    have 1: "out_ok st (r, s)" using rec [OF wf, of u] r by simp
    show ?thesis
    proof (cases r)
      case None
      thus ?thesis using 1 CastV r by (simp add: encodeValueImpl_def)
    next
      case (Some l)
      have u: "unaryKind SExt" "unaryKind ZExt" "unaryKind Trunc" by (simp_all add: unaryKind_def)
      note k = cast [OF 1 [unfolded Some]]
      show ?thesis using CastV r Some k u sym [OF out_cases(4) [OF 1]]
        by (cases opcode) (simp_all add: encodeValueImpl_def)
    qed
  next
    case (ICmpV p x y)
    obtain lr s where lr: "encodeBoth rec rec x y st = (lr, s)" by force
    note 1 = both_keeps [OF lr wf rec rec]
    show ?thesis
    proof (cases lr)
      case None
      thus ?thesis using out_none [OF 1] ICmpV lr by (simp add: encodeValueImpl_def)
    next
      case (Some ab)
      then obtain l k where ab: "lr = Some (l, k)" by force
      obtain e s' where m: "makeBinary (comparisonKind p) l k 1 s = (e, s')" by force
      have "keeps s s' [e]"
        by (rule keeps_binary [OF m]) (use 1 ab comparison_kind [of p] in \<open>auto simp: keeps_def\<close>)
      thus ?thesis using out_found [OF 1] ICmpV lr ab m by (simp add: encodeValueImpl_def)
    qed
  next
    case (BinaryV opcode nsw nuw x y)
    thus ?thesis using binary_operator_keeps [where rec = rec, OF wf rec] by (simp add: encodeValueImpl_def)
  qed (use sym0 const rec [OF wf] in \<open>simp_all add: encodeValueImpl_def\<close>)
qed

lemma value_keeps: "wfe st \<Longrightarrow> out_ok st (encodeValue g b inP v st)"
proof (induction g b inP v st rule: encodeValue.induct)
  case (1 g b inP v st)
  show ?case
  proof (cases "map_of g v")
    case None
    hence "encodeValue g b inP v st = (None, st)" by (simp add: encodeValue.simps)
    thus ?thesis by (auto intro!: out_none [of _ _ "[]"] keeps_refl "1.prems")
  next
    case val: (Some val)
    show ?thesis
    proof (cases "e_cache st v")
      case (Some e)
      hence "encodeValue g b inP v st = (Some e, st)" using val by (simp add: encodeValue.simps)
      moreover have "e < size_of st" using "1.prems" Some by (auto simp: wfe_def)
      ultimately show ?thesis using "1.prems" by (auto intro!: out_some [of _ _ "[e]"] keeps_refl)
    next
      case None
      show ?thesis
      proof (cases "v \<in> inP")
        case True
        obtain e s where m: "makeSymbol v (v_name val) (inferBitWidth val) st = (e, s)" by force
        have "out_ok st (found (e, s))"
          by (rule out_found [OF keeps_refl [OF "1.prems", of "[]"] keeps_symbol [OF m "1.prems"]]) simp
        thus ?thesis using emplace_keeps True None val m by (simp add: encodeValue.simps)
      next
        case False
        have "out_ok st (encodeValueImpl (\<lambda>u s. encodeValue g b (insert v inP) u s) b v val st)"
          by (rule impl_keeps [OF "1.prems"]) (rule "1.IH" [OF val None False])
        hence "out_ok st (remember v (encodeValueImpl (\<lambda>u s. encodeValue g b (insert v inP) u s) b v val st))"
          by (rule emplace_keeps)
        thus ?thesis using False None val by (simp add: encodeValue.simps [of g b inP v st])
      qed
    qed
  qed
qed

section \<open>Queries\<close>

text \<open>Between two ranges, assumptions or conditions every interval is backed by an assertion.\<close>

definition shaped :: "'v encoder \<Rightarrow> bool" where
  "shaped st \<longleftrightarrow> wfe st \<and> (ir_intervals (e_ir st) \<noteq> [] \<longrightarrow> ir_assertions (e_ir st) \<noteq> [])"

lemma keeps_shaped: "keeps st st' es \<Longrightarrow> shaped st \<Longrightarrow> shaped st'"
  by (auto simp: shaped_def keeps_def)

lemma shaped_wfe: "shaped st \<Longrightarrow> wfe st"
  by (simp add: shaped_def)

lemma boolean_keeps: "wfe st \<Longrightarrow> out_ok st (encodeAsBoolean (encodeValue g b inP) c st)"
  by (rule as_boolean_keeps) (auto intro: value_keeps)

lemma assert_keeps: "keeps st s (e # es) \<Longrightarrow> keeps st (addAssertion e s) [] \<and> ir_assertions (e_ir (addAssertion e s)) \<noteq> []"
  using keeps_assertion [of s e] by (auto simp: keeps_def)

lemma bound_keeps:
  assumes wf: "wfe st" and e: "e < size_of st" and cmp: "binaryKind cmp"
  shows "keeps st (assertBound present cmp e c st) [] \<and>
         (present \<longrightarrow> ir_assertions (e_ir (assertBound present cmp e c st)) \<noteq> [])"
proof (cases present)
  case True
  obtain k s1 where k: "makeConstant c (en_bitWidth (nodesOf st ! e)) st = (k, s1)" by force
  obtain a s2 where a: "makeBinary cmp e k 1 s1 = (a, s2)" by force
  have 1: "keeps st s1 [k]" by (rule keeps_constant [OF k wf])
  have 2: "keeps s1 s2 [a]" by (rule keeps_binary [OF a _ cmp]) (use 1 e in \<open>auto simp: keeps_def\<close>)
  have "keeps st s2 [a]" using 1 2 by (auto simp: keeps_def)
  thus ?thesis using True k a assert_keeps by (simp add: assertBound_def)
qed (use wf in \<open>auto simp: assertBound_def intro: keeps_refl\<close>)

lemma range_keeps: "shaped st \<Longrightarrow> shaped (encodeRange g b vr st)"
proof -
  assume shaped: "shaped st"
  note wf = shaped_wfe [OF shaped]
  obtain v rng where vr: "vr = (v, rng)" by force
  show ?thesis
  proof (cases "shouldEncodeRangeConstraint (map_of g v) rng")
    case False
    thus ?thesis using shaped vr by (simp add: encodeRange_def)
  next
    case True
    obtain eo s1 where e: "encodeValue g b {} v st = (eo, s1)" by force
    have 1: "out_ok st (eo, s1)" using value_keeps [OF wf, of g b "{}" v] e by simp
    show ?thesis
    proof (cases eo)
      case None
      thus ?thesis using True e vr keeps_shaped [OF out_cases(4) [OF 1] shaped] by (simp add: encodeRange_def)
    next
      case (Some e0)
      let ?val = "the (map_of g v)"
      obtain x s2 where x: "(if lookupSymbolId s1 v = 0 then makeSymbol v (v_name ?val) (inferBitWidth ?val) s1
                             else (e0, s1)) = (x, s2)" by force
      have 2: "keeps s1 s2 [x]"
      proof (cases "lookupSymbolId s1 v = 0")
        case False
        hence "x = e0" "s2 = s1" using x by auto
        thus ?thesis using out_cases(1,3) [OF 1] Some by (auto intro: keeps_refl)
      qed (use x keeps_symbol out_cases(1) [OF 1] in auto)
      let ?c = "\<lparr>iv_symbol = lookupSymbolId s2 v, iv_lower = ir_lower rng, iv_upper = ir_upper rng,
                 iv_hasLower = ir_hasLower rng, iv_hasUpper = ir_hasUpper rng\<rparr>"
      let ?s3 = "pushInterval ?c s2"
      let ?s4 = "assertBound (ir_hasLower rng) Sge x (ir_lower rng) ?s3"
      let ?s5 = "assertBound (ir_hasUpper rng) Sle x (ir_upper rng) ?s4"
      have "\<not> contradictory ?c" and some: "ir_hasLower rng \<or> ir_hasUpper rng"
        using True by (auto simp: shouldEncodeRangeConstraint_def contradictory_def split: option.splits if_splits)
      hence "wfe ?s3"
        by (intro wfe_same [OF keepsD(1) [OF 2]]) (auto simp: pushInterval_def nodesOf_def)
      moreover have sz: "x < size_of ?s3" using 2 by (simp add: keeps_def size_of_def pushInterval_def nodesOf_def)
      moreover have bk: "binaryKind Sge" "binaryKind Sle" by (simp_all add: binaryKind_def leafKind_def unaryKind_def)
      ultimately have 4: "keeps ?s3 ?s4 []" "ir_hasLower rng \<Longrightarrow> ir_assertions (e_ir ?s4) \<noteq> []"
        using bound_keeps by blast+
      have w4: "wfe ?s4" "x < size_of ?s4" using 4(1) sz by (auto simp: keeps_def)
      have 5: "keeps ?s4 ?s5 []" "ir_hasUpper rng \<Longrightarrow> ir_assertions (e_ir ?s5) \<noteq> []"
        using bound_keeps [OF w4 bk(2)] by blast+
      have "ir_assertions (e_ir ?s5) \<noteq> []" using some 4(2) 5 by (auto simp: keeps_def)
      hence "shaped ?s5" using keepsD(1) [OF 5(1)] by (simp add: shaped_def)
      thus ?thesis using True e vr Some x by (simp add: encodeRange_def)
    qed
  qed
qed

lemma fold_shaped: "(\<And>x st. shaped st \<Longrightarrow> shaped (f x st)) \<Longrightarrow> shaped st \<Longrightarrow> shaped (fold f xs st)"
  by (induction xs arbitrary: st) auto

lemma found_shaped: "out_ok st (Some e, s) \<Longrightarrow> shaped (addAssertion e s)"
  using assert_keeps [of st s e "[]"] by (simp add: out_ok_def keeps_def shaped_def)

lemma out_shaped: "out_ok st (r, s) \<Longrightarrow> shaped st \<Longrightarrow> shaped s"
  by (rule keeps_shaped [OF out_cases(4)])

lemma assert_boolean_keeps: "shaped st \<Longrightarrow> shaped (assertBoolean g b c st)"
proof -
  assume sh: "shaped st"
  obtain r s where r: "encodeAsBoolean (encodeValue g b {}) c st = (r, s)" by force
  have "out_ok st (r, s)" using boolean_keeps [OF shaped_wfe [OF sh], of g b "{}" c] r by simp
  thus ?thesis using r sh out_shaped found_shaped by (cases r) (auto simp: assertBoolean_def)
qed

lemma assume_keeps: "shaped st \<Longrightarrow> shaped (encodeAssume g b i st)"
  by (simp add: encodeAssume_def assert_boolean_keeps split: option.split)

lemma edge_keeps: "shaped st \<Longrightarrow> shaped (encodeEdgeCondition g b cond taken st)"
proof (cases cond)
  case (Some c)
  assume sh: "shaped st"
  obtain r s where r: "encodeAsBoolean (encodeValue g b {}) c st = (r, s)" by force
  have 1: "out_ok st (r, s)" using boolean_keeps [OF shaped_wfe [OF sh], of g b "{}" c] r by simp
  show ?thesis
  proof (cases r)
    case None
    thus ?thesis using Some r out_shaped [OF 1 sh] by (simp add: encodeEdgeCondition_def)
  next
    case e: (Some e)
    obtain x s2 where m: "makeUnary Not e 1 s = (x, s2)" by force
    have "keeps s s2 [x]"
      by (rule keeps_unary [OF m out_cases(1) [OF 1] _ out_cases(3) [OF 1 e]]) (simp add: unaryKind_def)
    hence "shaped (addAssertion x s2)" using assert_keeps [of s s2 x "[]"] by (simp add: keeps_def shaped_def)
    moreover have "shaped (addAssertion e s)" using found_shaped 1 e by blast
    ultimately show ?thesis using Some r e m by (simp add: encodeEdgeCondition_def)
  qed
qed (simp add: encodeEdgeCondition_def)

lemma initial_shaped: "shaped initialEncoder"
  by (simp add: shaped_def wfe_def initialEncoder_def emptyIR_def ordered_def nodesOf_def)

lemma custom_keeps:
  assumes "\<And>st. shaped st \<Longrightarrow> shaped (postEncode st)"
  shows "\<exists>st. shaped st \<and> e_ir st = encodeWithCustomAssertions g ranges cond taken block b postEncode"
proof -
  have "shaped (encodeRangeAssertions g b ranges initialEncoder)"
    unfolding encodeRangeAssertions_def by (rule fold_shaped [OF range_keeps initial_shaped])
  moreover have "shaped st \<Longrightarrow> shaped (encodeAssumeAssertions g b block st)" for st
    by (cases block) (simp_all add: encodeAssumeAssertions_def fold_shaped assume_keeps)
  ultimately show ?thesis
    unfolding encodeWithCustomAssertions_def Let_def using edge_keeps assms by blast
qed

lemma overflow_keeps:
  assumes sh: "shaped st" and ext: "unaryKind ext"
  shows "shaped (assertOverflow ext g v st)"
proof (cases "map_of g v")
  case (Some val)
  show ?thesis
  proof (cases "v_kind val")
    case (BinaryV opcode nsw nuw x y)
    show ?thesis
    proof (cases "getArithmeticExprKind opcode")
      case None
      thus ?thesis using sh Some BinaryV by (simp add: assertOverflow_def)
    next
      case k: (Some k)
      have bk: "binaryKind k" using k by (cases opcode) (auto simp: binaryKind_def leafKind_def unaryKind_def)
      let ?w = "inferBitWidth (the (map_of g v))"
      obtain lr s1 where lr: "encodeBoth (encodeValue g None {}) (encodeValue g None {}) x y st = (lr, s1)"
        by force
      note 1 = both_keeps [OF lr shaped_wfe [OF sh] value_keeps value_keeps]
      show ?thesis
      proof (cases lr)
        case None
        thus ?thesis using keeps_shaped [OF 1 sh] Some BinaryV k lr by (simp add: assertOverflow_def)
      next
        case ab: (Some ab)
        then obtain l r where l: "lr = Some (l, r)" by force
        obtain e s2 where e: "makeBinary k l r ?w s1 = (e, s2)" by force
        obtain c s3 where c: "extendedArith Ne ext k l r e (?w + 1) s2 = (c, s3)" by force
        have 2: "keeps s1 s2 [e]" by (rule keeps_binary [OF e _ bk]) (use 1 l in \<open>auto simp: keeps_def\<close>)
        have 3: "keeps s2 s3 [c]"
          by (rule extended_keeps [OF c _ _ _ _ _ ext bk])
            (use 1 2 l in \<open>auto simp: keeps_def binaryKind_def leafKind_def unaryKind_def\<close>)
        have "shaped (addAssertion c s3)" using assert_keeps [OF 3] by (simp add: shaped_def keeps_def)
        thus ?thesis using keeps_shaped [OF 1 sh] Some BinaryV k lr l e c by (simp add: assertOverflow_def Let_def)
      qed
    qed
  qed (use sh Some in \<open>simp_all add: assertOverflow_def\<close>)
qed (use sh in \<open>simp add: assertOverflow_def\<close>)

lemma comparison_keeps:
  assumes sh: "shaped st"
  shows "shaped (assertComparison g v c gt st)"
proof -
  obtain eo s1 where e: "encodeValue g None {} v st = (eo, s1)" by force
  have 1: "out_ok st (eo, s1)" using value_keeps [OF shaped_wfe [OF sh], of g None "{}" v] e by simp
  show ?thesis
  proof (cases eo)
    case None
    thus ?thesis using out_shaped [OF 1 sh] e by (simp add: assertComparison_def)
  next
    case (Some x)
    obtain k s2 where k: "makeConstant c (en_bitWidth (nodesOf s1 ! x)) s1 = (k, s2)" by force
    obtain a s3 where a: "makeBinary (if gt then Sgt else Sle) x k 1 s2 = (a, s3)" by force
    have 2: "keeps s1 s2 [k]" by (rule keeps_constant [OF k out_cases(1) [OF 1]])
    have "keeps s2 s3 [a]"
      by (rule keeps_binary [OF a])
        (use 2 out_cases(3) [OF 1 Some] in \<open>auto simp: keeps_def binaryKind_def leafKind_def unaryKind_def\<close>)
    hence "shaped (addAssertion a s3)" using assert_keeps [of s2 s3 a "[]"] by (simp add: shaped_def keeps_def)
    thus ?thesis using e Some k a by (simp add: assertComparison_def)
  qed
qed

lemma before_keeps: "shaped st \<Longrightarrow> shaped (encodeAssumesBeforeInstruction g b ctx st)"
  by (cases ctx) (auto simp: encodeAssumesBeforeInstruction_def intro: fold_shaped assume_keeps)

text \<open>The shape of a finished query, and that each of the four queries has it.\<close>

definition query_ok :: "'v ConstraintIR \<Rightarrow> bool" where
  "query_ok ir \<longleftrightarrow>
     ordered (ir_nodes ir) \<and> (\<forall>a \<in> set (ir_assertions ir). a < length (ir_nodes ir)) \<and>
     \<not> list_ex contradictory (ir_intervals ir) \<and>
     (ir_intervals ir \<noteq> [] \<longrightarrow> ir_assertions ir \<noteq> [])"

lemma shaped_query: "shaped st \<Longrightarrow> query_ok (e_ir st)"
  by (simp add: query_ok_def shaped_def wfe_def size_of_def nodesOf_def)

lemma custom_ok:
  "(\<And>st. shaped st \<Longrightarrow> shaped (postEncode st)) \<Longrightarrow>
   query_ok (encodeWithCustomAssertions g ranges cond taken block b postEncode)"
  using custom_keeps [of postEncode g ranges cond taken block b] shaped_query by metis

lemma encode_ok: "query_ok (encode g ranges cond taken block b)"
  unfolding encode_def by (rule custom_ok)

lemma overflow_ok:
  "query_ok (encodeSignedOverflowFeasibility g ranges op ctx)"
  "query_ok (encodeUnsignedOverflowFeasibility g ranges op ctx)"
  unfolding encodeSignedOverflowFeasibility_def encodeUnsignedOverflowFeasibility_def
  by (rule custom_ok, simp add: overflow_keeps before_keeps unaryKind_def)+

lemma comparison_ok: "query_ok (encodeSignedComparisonFeasibility g ranges v c gt ctx)"
  unfolding encodeSignedComparisonFeasibility_def
  by (rule custom_ok) (simp add: comparison_keeps before_keeps)

section \<open>The interval backend\<close>

lemma interval_first_never_refutes:
  assumes orch: "evaluatorConfig config ruleId = Some orch"
    and first: "toLowerAscii (oc_primaryBackend orch) \<in> {[], ''interval''}"
    and ok: "\<not> list_ex contradictory (ir_intervals ir)"
  shows "evaluateQuery z3 config ruleId ir \<noteq> Infeasible"
proof (cases "oc_mode orch = Portfolio \<or> oc_mode orch = DualConsensus")
  case True
  thus ?thesis by (rule interval_keeps_feasible [OF orch _ ok])
next
  case False
  let ?q = "runtimeQuery orch \<lparr>q_ir = ir, q_ruleId = ruleId,
              q_budgetNodes = ac_smtBudgetNodes config, q_timeoutMs = ac_smtTimeoutMs config\<rparr>"
  obtain b rest where b: "resolveBackends z3 orch = b # rest"
    using resolve_ne [of z3 orch] by (cases "resolveBackends z3 orch") auto
  have "b = IntervalBackend"
    using resolve_hd [of z3 orch] b first by (auto simp: createBackend_def)
  hence "answerOf ?q b = SmtSat"
    using ok by (simp add: answerOf_def interval_status runtimeQuery_def)
  hence "\<not> refutes (oc_mode orch) (map (answerOf ?q) (resolveBackends z3 orch))"
    using False b by (cases "oc_mode orch") (auto simp: inconclusive_def)
  thus ?thesis unfolding evaluate_infeasible using orch by auto
qed

lemma interval_config_never_refutes:
  assumes "evaluatorConfig config ruleId = Some orch"
    and "oc_mode orch \<in> {Portfolio, DualConsensus} \<or>
         toLowerAscii (oc_primaryBackend orch) \<in> {[], ''interval''}"
    and "query_ok ir"
  shows "evaluateQuery z3 config ruleId ir \<noteq> Infeasible"
  using assms interval_first_never_refutes interval_keeps_feasible unfolding query_ok_def by blast

section \<open>Properties\<close>

text \<open>
  C17: where the interval backend takes part, the SMT refinement never suppresses anything. The
  encoder drops contradictory ranges, so no query it builds is refuted by intervals alone; in
  the portfolio and the dual-consensus mode, and with the interval backend as the primary one
  (the default), no query of the four kinds is ever \<open>Infeasible\<close>, whatever Z3 answers.
\<close>

theorem interval_backend_blocks_refutation:
  assumes "evaluatorConfig config ruleId = Some orch"
    and "oc_mode orch \<in> {Portfolio, DualConsensus} \<or>
         toLowerAscii (oc_primaryBackend orch) \<in> {[], ''interval''}"
  shows "evaluateQuery z3 config ruleId (encode g ranges cond taken block b) \<noteq> Infeasible \<and>
    evaluateQuery z3 config ruleId (encodeSignedOverflowFeasibility g ranges v ctx) \<noteq> Infeasible \<and>
    evaluateQuery z3 config ruleId (encodeUnsignedOverflowFeasibility g ranges v ctx) \<noteq> Infeasible \<and>
    evaluateQuery z3 config ruleId (encodeSignedComparisonFeasibility g ranges v c gt ctx) \<noteq> Infeasible"
  by (intro conjI interval_config_never_refutes [OF assms] encode_ok overflow_ok comparison_ok)

text \<open>A portfolio of a Z3 that refutes everything and the interval backend.\<close>

definition portfolio_config :: AnalysisConfig where
  "portfolio_config =
     \<lparr>ac_smtEnabled = True, ac_smtRules = [''Recursion''], ac_smtBackend = ''z3'',
      ac_smtSecondaryBackend = [], ac_smtMode = Portfolio, ac_smtBudgetNodes = 10000,
      ac_smtTimeoutMs = 50\<rparr>"

definition refute_all :: "(nat SmtQuery \<Rightarrow> SmtAnswer) option" where
  "refute_all = Some (\<lambda>_. \<lparr>ans_backendName = ''z3'', ans_reason = None, ans_status = SmtUnsat\<rparr>)"

lemma portfolio_orch: "evaluatorConfig portfolio_config ''recursion'' =
  Some \<lparr>oc_primaryBackend = ''z3'', oc_secondaryBackend = [], oc_mode = Portfolio,
        oc_budgetNodes = 10000, oc_timeoutMs = 50\<rparr>"
  by code_simp

theorem interval_backend_blocks_refutation_witness:
  "evaluateQuery refute_all portfolio_config ''recursion''
     (encode sample_values sample_ranges (Some 2) True (Some [AssumeCall [2]]) None) \<noteq> Infeasible"
  using interval_backend_blocks_refutation [OF portfolio_orch, of refute_all sample_values
      sample_ranges "Some 2" True "Some [AssumeCall [2]]" None 3 "None :: (nat \<times> (nat \<times> nat instruction) list) option" 0 True]
  by simp

end
