(* ===== verification/Z3Backend.thy ===== *)
theory Z3Backend
  imports SmtWellFormed
begin

text \<open>
  The Z3 backend, \<open>src/analysis/smt/backends/Z3Backend.cpp\<close>. The Z3 library is a parameter:
  a record of the functions of its C++ interface the backend calls, on expressions of a type
  of their own. A call that throws returns its message on the left; the handler of
  \<open>solve\<close> turns it into an answer. \<open>buildExpr\<close> recurses over the node graph without a check for
  cycles, so it takes fuel: \<open>None\<close> is a recursion that did not return, and
  \<open>z3_solve_returns\<close> shows that it always returns when operands come before their users.
\<close>

section \<open>The interface of Z3\<close>

datatype check_result = Z3Sat | Z3Unsat | Z3Unknown string  \<comment> \<open>with \<open>reason_unknown\<close>\<close>

record 'e z3_api =
  z_bv_val :: "string \<Rightarrow> nat \<Rightarrow> 'e"
  z_bv_const :: "string \<Rightarrow> nat \<Rightarrow> 'e"
  z_apply :: "ExprKind \<Rightarrow> 'e list \<Rightarrow> string + 'e"  \<comment> \<open>\<open>ite\<close>, the operators and comparisons\<close>
  z_zext :: "'e \<Rightarrow> nat \<Rightarrow> string + 'e"
  z_sext :: "'e \<Rightarrow> nat \<Rightarrow> string + 'e"
  z_extract :: "'e \<Rightarrow> nat \<Rightarrow> nat \<Rightarrow> string + 'e"
  z_is_bool :: "'e \<Rightarrow> bool"
  z_bv_size :: "'e \<Rightarrow> string + nat"
  z_check :: "u32 \<Rightarrow> 'e list \<Rightarrow> string + check_result"  \<comment> \<open>timeout (0: none), the added constraints\<close>

section \<open>Tables\<close>

definition makeBvConstant :: "'e z3_api \<Rightarrow> i64 \<Rightarrow> nat \<Rightarrow> 'e" where
  "makeBvConstant z c bitWidth = z_bv_val z (to_string (unat c)) (normalizeBitWidth bitWidth)"

text \<open>\<open>emplace\<close>: the first node of a symbol decides its width.\<close>

definition collectBitWidths :: "'v ConstraintIR \<Rightarrow> nat \<rightharpoonup> nat" where
  "collectBitWidths ir =
     map_of (map (\<lambda>n. (en_symbol n, normalizeBitWidth (en_bitWidth n)))
       (filter (\<lambda>n. en_kind n = Symbol \<and> en_symbol n \<noteq> 0) (ir_nodes ir)))"

text \<open>\<open>names[id] = ...\<close>: the last named symbol wins.\<close>

definition collectNames :: "'v ConstraintIR \<Rightarrow> nat \<rightharpoonup> string" where
  "collectNames ir =
     fold (\<lambda>s names. if si_id s = 0 \<or> si_debugName s = [] then names
                     else names(si_id s \<mapsto> si_debugName s)) (ir_symbols ir) Map.empty"

record 'e build_state =
  b_cache :: "nat \<rightharpoonup> 'e"
  b_symbols :: "nat \<rightharpoonup> nat \<times> 'e"  \<comment> \<open>width and constant\<close>
  b_error :: string

definition symbolName :: "(nat \<rightharpoonup> string) \<Rightarrow> nat \<Rightarrow> string" where
  "symbolName names i = (case names i of Some nm \<Rightarrow> nm | None \<Rightarrow> ''sym_'' @ to_string i)"

definition getOrCreateSymbol ::
    "'e z3_api \<Rightarrow> (nat \<rightharpoonup> string) \<Rightarrow> nat \<Rightarrow> nat \<Rightarrow> 'e build_state \<Rightarrow> 'e option \<times> 'e build_state" where
  "getOrCreateSymbol z names i bitWidth st =
     (if i = 0 then (None, st \<lparr>b_error := ''invalid symbol id 0''\<rparr>)
      else case b_symbols st i of
        Some (w, e) \<Rightarrow>
          if w \<noteq> normalizeBitWidth bitWidth
          then (None, st \<lparr>b_error := ''symbol width mismatch for symbol id '' @ to_string i\<rparr>)
          else (Some e, st)
      | None \<Rightarrow>
          let w = normalizeBitWidth bitWidth; e = z_bv_const z (symbolName names i) w
          in (Some e, st \<lparr>b_symbols := (b_symbols st)(i \<mapsto> (w, e))\<rparr>))"

section \<open>Building expressions\<close>

text \<open>
  The result of a build: out of fuel, an exception, or an optional expression with the state.
\<close>

type_synonym ('e, 'a) build = "(string + 'a \<times> 'e build_state) option"

fun buildAll ::
    "(nat \<Rightarrow> 'e build_state \<Rightarrow> ('e, 'e option) build) \<Rightarrow> nat list \<Rightarrow> 'e build_state \<Rightarrow>
     ('e, 'e option list) build" where
  "buildAll rec [] st = Some (Inr ([], st))"
| "buildAll rec (i # is) st =
     (case rec i st of
        None \<Rightarrow> None
      | Some (Inl msg) \<Rightarrow> Some (Inl msg)
      | Some (Inr (x, st)) \<Rightarrow>
          (case buildAll rec is st of
             None \<Rightarrow> None
           | Some (Inl msg) \<Rightarrow> Some (Inl msg)
           | Some (Inr (xs, st)) \<Rightarrow> Some (Inr (x # xs, st))))"

definition memoize :: "nat \<Rightarrow> 'e build_state \<Rightarrow> string + 'e \<Rightarrow> string + 'e option \<times> 'e build_state" where
  "memoize i st r =
     (case r of Inl msg \<Rightarrow> Inl msg
      | Inr e \<Rightarrow> Inr (Some e, st \<lparr>b_cache := (b_cache st)(i \<mapsto> e)\<rparr>))"

definition failWith :: "string \<Rightarrow> 'e build_state \<Rightarrow> string + 'e option \<times> 'e build_state" where
  "failWith msg st = Inr (None, st \<lparr>b_error := msg\<rparr>)"

text \<open>The node itself, once its operands are built.\<close>

definition applyNode ::
    "'e z3_api \<Rightarrow> nat \<Rightarrow> ExprKind \<Rightarrow> nat \<Rightarrow> 'e list \<Rightarrow> 'e build_state \<Rightarrow> string + 'e option \<times> 'e build_state" where
  "applyNode z i kind bitWidth es st =
     (if kind \<in> {ZExt, SExt, Trunc}
      then (case z_bv_size z (hd es) of
              Inl msg \<Rightarrow> Inl msg
            | Inr srcWidth \<Rightarrow>
                if kind = ZExt
                then (if bitWidth < srcWidth then failWith ''invalid zext width'' st
                      else memoize i st (z_zext z (hd es) (bitWidth - srcWidth)))
                else if kind = SExt
                then (if bitWidth < srcWidth then failWith ''invalid sext width'' st
                      else memoize i st (z_sext z (hd es) (bitWidth - srcWidth)))
                else if bitWidth > srcWidth then failWith ''invalid trunc width'' st
                else if bitWidth = srcWidth then memoize i st (Inr (hd es))
                else memoize i st (z_extract z (hd es) (bitWidth - 1) 0))
      else if kind = Ite \<and> \<not> z_is_bool z (hd es)
      then failWith ''ite condition must be boolean'' st
      else memoize i st (z_apply z kind es))"

definition buildNode ::
    "'e z3_api \<Rightarrow> (nat \<rightharpoonup> string) \<Rightarrow> (nat \<Rightarrow> 'e build_state \<Rightarrow> ('e, 'e option) build) \<Rightarrow> nat \<Rightarrow>
     ExprNode \<Rightarrow> 'e build_state \<Rightarrow> ('e, 'e option) build" where
  "buildNode z names rec i n st =
     (let bitWidth = normalizeBitWidth (en_bitWidth n) in
      if en_kind n = Symbol
      then (case getOrCreateSymbol z names (en_symbol n) bitWidth st of
              (None, st) \<Rightarrow> Some (Inr (None, st))
            | (Some e, st) \<Rightarrow> Some (memoize i st (Inr e)))
      else if en_kind n = Constant
      then Some (memoize i st (Inr (makeBvConstant z (en_constant n) bitWidth)))
      else case buildAll rec (operandsOf n) st of
        None \<Rightarrow> None
      | Some (Inl msg) \<Rightarrow> Some (Inl msg)
      | Some (Inr (xs, st)) \<Rightarrow>
          (case those xs of
             None \<Rightarrow> Some (Inr (None, st))
           | Some es \<Rightarrow> Some (applyNode z i (en_kind n) bitWidth es st)))"

fun buildExpr ::
    "nat \<Rightarrow> 'e z3_api \<Rightarrow> 'v ConstraintIR \<Rightarrow> (nat \<rightharpoonup> string) \<Rightarrow> nat \<Rightarrow> 'e build_state \<Rightarrow>
     ('e, 'e option) build" where
  "buildExpr 0 z ir names i st = None"
| "buildExpr (Suc fuel) z ir names i st =
     (case b_cache st i of
        Some e \<Rightarrow> Some (Inr (Some e, st))
      | None \<Rightarrow>
          if i \<ge> length (ir_nodes ir) then Some (failWith ''expression id out of bounds'' st)
          else buildNode z names (buildExpr fuel z ir names) i (ir_nodes ir ! i) st)"

section \<open>Solving\<close>

definition z3Answer :: "string option \<Rightarrow> SmtStatus \<Rightarrow> SmtAnswer" where
  "z3Answer reason status = \<lparr>ans_backendName = ''z3'', ans_reason = reason, ans_status = status\<rparr>"

text \<open>A step of \<open>solve\<close> gives an answer at once or goes on; its exceptions reach the handler.\<close>

type_synonym 'a stage = "SmtAnswer + 'a"

definition throwAnswer :: "string \<Rightarrow> SmtAnswer" where
  "throwAnswer msg = z3Answer (Some msg) SmtError"

definition addBound ::
    "'e z3_api \<Rightarrow> bool \<Rightarrow> ExprKind \<Rightarrow> 'e \<Rightarrow> i64 \<Rightarrow> nat \<Rightarrow> 'e list \<Rightarrow> 'e list stage" where
  "addBound z present cmp e c w added =
     (if present
      then (case z_apply z cmp [e, makeBvConstant z c w] of
              Inl msg \<Rightarrow> Inl (throwAnswer msg) | Inr b \<Rightarrow> Inr (added @ [b]))
      else Inr added)"

fun addIntervals ::
    "'e z3_api \<Rightarrow> (nat \<rightharpoonup> nat) \<Rightarrow> (nat \<rightharpoonup> string) \<Rightarrow> IntervalConstraint list \<Rightarrow> 'e list \<Rightarrow>
     'e build_state \<Rightarrow> ('e list \<times> 'e build_state) stage" where
  "addIntervals z widths names [] added st = Inr (added, st)"
| "addIntervals z widths names (c # cs) added st =
     (let w = (case widths (iv_symbol c) of Some w \<Rightarrow> w | None \<Rightarrow> 64) in
      case getOrCreateSymbol z names (iv_symbol c) w (st \<lparr>b_error := []\<rparr>) of
        (None, st) \<Rightarrow> Inl (z3Answer (Some (b_error st)) SmtUnknown)
      | (Some e, st) \<Rightarrow>
          (case addBound z (iv_hasLower c) Sge e (iv_lower c) w added of
             Inl a \<Rightarrow> Inl a
           | Inr added \<Rightarrow>
               (case addBound z (iv_hasUpper c) Sle e (iv_upper c) w added of
                  Inl a \<Rightarrow> Inl a
                | Inr added \<Rightarrow> addIntervals z widths names cs added st)))"

fun addAssertions ::
    "nat \<Rightarrow> 'e z3_api \<Rightarrow> 'v ConstraintIR \<Rightarrow> (nat \<rightharpoonup> string) \<Rightarrow> nat list \<Rightarrow> 'e list \<Rightarrow> 'e build_state \<Rightarrow>
     'e list stage option" where
  "addAssertions fuel z ir names [] added st = Some (Inr added)"
| "addAssertions fuel z ir names (a # as) added st =
     (case buildExpr fuel z ir names a (st \<lparr>b_error := []\<rparr>) of
        None \<Rightarrow> None
      | Some (Inl msg) \<Rightarrow> Some (Inl (throwAnswer msg))
      | Some (Inr (None, st)) \<Rightarrow> Some (Inl (z3Answer (Some (b_error st)) SmtUnknown))
      | Some (Inr (Some e, st)) \<Rightarrow>
          if \<not> z_is_bool z e then Some (Inl (z3Answer (Some ''non-boolean assertion'') SmtUnknown))
          else addAssertions fuel z ir names as (added @ [e]) st)"

definition checkAnswer :: "'e z3_api \<Rightarrow> u32 \<Rightarrow> 'e list \<Rightarrow> SmtAnswer" where
  "checkAnswer z timeout added =
     (case z_check z timeout added of
        Inl msg \<Rightarrow> throwAnswer msg
      | Inr Z3Sat \<Rightarrow> z3Answer None SmtSat
      | Inr Z3Unsat \<Rightarrow> z3Answer None SmtUnsat
      | Inr (Z3Unknown reason) \<Rightarrow>
          z3Answer (Some reason) (if reason = ''timeout'' then SmtTimeout else SmtUnknown))"

definition z3Solve :: "nat \<Rightarrow> 'e z3_api \<Rightarrow> 'v SmtQuery \<Rightarrow> SmtAnswer option" where
  "z3Solve fuel z query =
     (let ir = q_ir query in
      if q_budgetNodes query \<noteq> 0 \<and> length (ir_nodes ir) > unat (q_budgetNodes query)
      then Some (z3Answer (Some ''query budget exceeded before solver invocation'') SmtTimeout)
      else
        let names = collectNames ir;
            st = \<lparr>b_cache = Map.empty, b_symbols = Map.empty, b_error = []\<rparr>
        in case (if ir_assertions ir = []
                 then addIntervals z (collectBitWidths ir) names (ir_intervals ir) [] st
                 else Inr ([], st)) of
             Inl a \<Rightarrow> Some a
           | Inr (added, st) \<Rightarrow>
               (case addAssertions fuel z ir names (ir_assertions ir) added st of
                  None \<Rightarrow> None
                | Some (Inl a) \<Rightarrow> Some a
                | Some (Inr added) \<Rightarrow> Some (checkAnswer z (q_timeoutMs query) added)))"

section \<open>The recursion returns\<close>

lemma build_all_returns: "(\<And>j st. j \<in> set is \<Longrightarrow> \<exists>r. rec j st = Some r) \<Longrightarrow> \<exists>r. buildAll rec is st = Some r"
proof (induction "is" arbitrary: st)
  case (Cons i js)
  obtain r where r: "rec i st = Some r" using Cons.prems by force
  show ?case
  proof (cases r)
    case (Inr p)
    obtain x st' where p: "p = (x, st')" by force
    obtain r2 where "buildAll rec js st' = Some r2" using Cons by force
    thus ?thesis using r Inr p by (auto split: sum.split)
  qed (simp add: r)
qed simp

lemma build_returns:
  "ordered (ir_nodes ir) \<Longrightarrow> i < fuel \<Longrightarrow> \<exists>r. buildExpr fuel z ir names i st = Some r"
proof (induction fuel arbitrary: i st)
  case (Suc fuel)
  show ?case
  proof (cases "b_cache st i")
    case None
    show ?thesis
    proof (cases "i \<ge> length (ir_nodes ir)")
      case False
      have "\<exists>r. buildAll (buildExpr fuel z ir names) (operandsOf (ir_nodes ir ! i)) s = Some r" for s
      proof (rule build_all_returns)
        fix j s assume "j \<in> set (operandsOf (ir_nodes ir ! i))"
        hence "j < i" using Suc.prems(1) False by (simp add: ordered_def)
        thus "\<exists>r. buildExpr fuel z ir names j s = Some r" using Suc by simp
      qed
      then obtain r where "buildAll (buildExpr fuel z ir names) (operandsOf (ir_nodes ir ! i)) st = Some r"
        by blast
      hence "\<exists>r. buildNode z names (buildExpr fuel z ir names) i (ir_nodes ir ! i) st = Some r"
        by (simp add: buildNode_def Let_def split: prod.split option.split sum.split)
      thus ?thesis using None False by simp
    qed (simp add: None)
  qed simp
qed simp

lemma assertions_return:
  assumes "ordered (ir_nodes ir)" "\<forall>a \<in> set as. a < fuel"
  shows "\<exists>r. addAssertions fuel z ir names as added st = Some r"
  using assms(2)
proof (induction "as" arbitrary: added st)
  case (Cons a as)
  obtain r where r: "buildExpr fuel z ir names a (st \<lparr>b_error := []\<rparr>) = Some r"
    using build_returns [OF assms(1), of a fuel z names "st \<lparr>b_error := []\<rparr>"] Cons.prems by auto
  show ?case
  proof (cases r)
    case (Inr p)
    obtain x st' where p: "p = (x, st')" by force
    show ?thesis
    proof (cases x)
      case (Some e)
      have "\<exists>r. addAssertions fuel z ir names as (added @ [e]) st' = Some r"
        by (rule Cons.IH) (use Cons.prems in simp)
      thus ?thesis using r Inr p Some by simp
    qed (use r Inr p in simp)
  qed (use r in simp)
qed simp

lemma z3_solve_returns:
  assumes "query_ok (q_ir q)" "length (ir_nodes (q_ir q)) \<le> fuel"
  shows "\<exists>a. z3Solve fuel z q = Some a"
proof -
  have "\<exists>r. addAssertions fuel z (q_ir q) names (ir_assertions (q_ir q)) added st = Some r"
    for names added st
    using assms by (intro assertions_return) (auto simp: query_ok_def)
  hence some: "(addAssertions fuel z (q_ir q) names (ir_assertions (q_ir q)) added st = None) = False"
    for names added st
    by (metis option.distinct(1))
  show ?thesis
    by (simp add: z3Solve_def Let_def some split: sum.split option.split prod.split)
qed

section \<open>Soundness\<close>

text \<open>
  What Z3 documents of these functions: an expression has a value in every assignment of the
  constants (by name and width); a bit vector is within its width; the functions compute the
  operations of SMT-LIB on well-sorted arguments and throw otherwise; \<open>unsat\<close> is said only of
  constraints that no assignment satisfies.
\<close>

locale z3_laws =
  fixes z :: "'e z3_api"
    and value_of :: "(string \<times> nat \<Rightarrow> int) \<Rightarrow> 'e \<Rightarrow> smt_value"
  assumes in_width: "value_of m e = BvVal a x \<Longrightarrow> 0 \<le> x \<and> x < 2 ^ a"
    and numeral_value: "value_of m (z_bv_val z (to_string n) w) = BvVal w (take_bit w (int n))"
    and constant_value: "value_of m (z_bv_const z s w) = BvVal w (take_bit w (m (s, w)))"
    and apply_value: "z_apply z kind es = Inr e \<Longrightarrow> kind \<notin> {Symbol, Constant, ZExt, SExt, Trunc} \<Longrightarrow>
      opSem kind w (map (value_of m) es) = Some (value_of m e)"
    and bool_sort: "z_is_bool z e \<longleftrightarrow> (\<exists>b. value_of m e = BoolVal b)"
    and bv_sort: "z_bv_size z e = Inr a \<Longrightarrow> \<exists>x. value_of m e = BvVal a x"
    and zext_value: "z_zext z e n = Inr e' \<Longrightarrow> value_of m e = BvVal a x \<Longrightarrow>
      value_of m e' = BvVal (a + n) x"
    and sext_value: "z_sext z e n = Inr e' \<Longrightarrow> value_of m e = BvVal a x \<Longrightarrow>
      value_of m e' = BvVal (a + n) (take_bit (a + n) (signedOf a x))"
    and extract_value: "z_extract z e hi 0 = Inr e' \<Longrightarrow> value_of m e = BvVal a x \<Longrightarrow>
      value_of m e' = BvVal (hi + 1) (take_bit (hi + 1) x)"
    and check_unsat: "z_check z t cs = Inr Z3Unsat \<Longrightarrow> \<not> (\<forall>c \<in> set cs. value_of m c = BoolVal True)"
begin

lemma resize_node:
  assumes "applyNode z i kind w [x] st = Inr (Some e, st')" "kind \<in> {ZExt, SExt, Trunc}" "0 < w"
  shows "opSem kind w [value_of m x] = Some (value_of m e)"
proof -
  obtain a where a: "z_bv_size z x = Inr a"
    using assms by (auto simp: applyNode_def split: sum.splits)
  obtain y where y: "value_of m x = BvVal a y" using bv_sort [OF a] by blast
  have yw: "0 \<le> y" "y < 2 ^ a" using in_width [OF y] by auto
  hence t: "take_bit a y = y" by (simp add: take_bit_id)
  have ext: "take_bit (a + (w - a)) y = y"
  proof -
    have "(2 :: int) ^ a \<le> 2 ^ (a + (w - a))" by (rule power_increasing) simp_all
    hence "y < 2 ^ (a + (w - a))" using yw(2) by linarith
    thus ?thesis by (rule take_bit_id [OF yw(1)])
  qed
  consider "kind = ZExt" | "kind = SExt" | "kind = Trunc" using assms(2) by blast
  thus ?thesis
  proof cases
    case 1
    hence z: "\<not> w < a" "z_zext z x (w - a) = Inr e"
      using assms(1) a by (auto simp: applyNode_def failWith_def memoize_def split: if_splits sum.splits)
    have "take_bit w y = y" using ext z(1) by simp
    thus ?thesis using zext_value [OF z(2) y] z(1) 1 by (simp add: opSem_def resizeOp_def y)
  next
    case 2
    hence z: "\<not> w < a" "z_sext z x (w - a) = Inr e"
      using assms(1) a by (auto simp: applyNode_def failWith_def memoize_def split: if_splits sum.splits)
    show ?thesis using sext_value [OF z(2) y] z(1) 2 by (simp add: opSem_def resizeOp_def y)
  next
    case 3
    show ?thesis
    proof (cases "w = a")
      case True
      hence "e = x" using 3 assms(1) a
        by (auto simp: applyNode_def failWith_def memoize_def split: if_splits)
      thus ?thesis using 3 True t by (simp add: opSem_def resizeOp_def y)
    next
      case False
      hence z: "\<not> a < w" "z_extract z x (w - 1) 0 = Inr e"
        using 3 assms(1) a by (auto simp: applyNode_def failWith_def memoize_def split: if_splits sum.splits)
      show ?thesis using extract_value [OF z(2) y] z(1) 3 assms(3) by (simp add: opSem_def resizeOp_def y)
    qed
  qed
qed

lemma node_value:
  assumes "applyNode z i kind w es st = Inr (Some e, st')" "kind \<notin> {Symbol, Constant}" "0 < w"
    and "kind \<in> {ZExt, SExt, Trunc} \<Longrightarrow> \<exists>x. es = [x]"
  shows "opSem kind w (map (value_of m) es) = Some (value_of m e) \<and>
         st' = st \<lparr>b_cache := (b_cache st)(i \<mapsto> e)\<rparr>"
proof (cases "kind \<in> {ZExt, SExt, Trunc}")
  case True
  then obtain x where x: "es = [x]" using assms(4) by blast
  have "st' = st \<lparr>b_cache := (b_cache st)(i \<mapsto> e)\<rparr>"
    using True assms(1) by (auto simp: applyNode_def failWith_def memoize_def split: if_splits sum.splits)
  thus ?thesis using resize_node [OF assms(1) [unfolded x] True assms(3)] x by simp
next
  case False
  hence a: "z_apply z kind es = Inr e" "st' = st \<lparr>b_cache := (b_cache st)(i \<mapsto> e)\<rparr>"
    using assms(1) by (auto simp: applyNode_def failWith_def memoize_def split: if_splits sum.splits)
  thus ?thesis using apply_value [OF a(1)] False assms(2) by blast
qed

lemma node_none:
  "applyNode z i kind w es st = Inr (None, st') \<Longrightarrow> b_cache st' = b_cache st \<and> b_symbols st' = b_symbols st"
  by (auto simp: applyNode_def failWith_def memoize_def split: if_splits sum.splits)

end

lemma eval_at:
  assumes "ordered ns" "i < length ns"
  shows "evalNodes \<sigma> ns ! i = nodeValue \<sigma> (evalNodes \<sigma> ns) (ns ! i)"
proof -
  let ?p = "take i ns"
  have split: "ns = (?p @ [ns ! i]) @ drop (Suc i) ns"
    using assms(2) by (simp add: id_take_nth_drop [symmetric])
  have len: "length ?p = i" using assms(2) by simp
  have "evalNodes \<sigma> ns ! i = evalNodes \<sigma> (?p @ [ns ! i]) ! i"
    using evalNodes_stable [of i "?p @ [ns ! i]" \<sigma> "drop (Suc i) ns"] split len by simp
  also have "\<dots> = nodeValue \<sigma> (evalNodes \<sigma> ?p) (ns ! i)"
    using len by (simp add: evalNodes_snoc nth_append)
  also have "\<dots> = nodeValue \<sigma> (evalNodes \<sigma> ns) (ns ! i)"
  proof -
    have "operandValue (evalNodes \<sigma> ?p) j = operandValue (evalNodes \<sigma> ns) j"
      if "j \<in> set (operandsOf (ns ! i))" for j
    proof -
      have "j < i" using that assms by (simp add: ordered_def)
      thus ?thesis using evalNodes_stable [of j ?p \<sigma> "drop i ns"] len assms(2)
        by (simp add: operandValue_def)
    qed
    hence eq: "map (operandValue (evalNodes \<sigma> ?p)) (operandsOf (ns ! i)) =
        map (operandValue (evalNodes \<sigma> ns)) (operandsOf (ns ! i))" by (intro map_cong) auto
    show ?thesis by (simp only: nodeValue_def eq)
  qed
  finally show ?thesis .
qed

definition symbolIds :: "'v ConstraintIR \<Rightarrow> nat set" where
  "symbolIds ir = en_symbol ` {n \<in> set (ir_nodes ir). en_kind n = Symbol} \<union> iv_symbol ` set (ir_intervals ir)"

text \<open>No two symbols of a query have the same name.\<close>

definition distinctNames :: "'v ConstraintIR \<Rightarrow> bool" where
  "distinctNames ir \<longleftrightarrow> inj_on (symbolName (collectNames ir)) (symbolIds ir)"

definition built :: "('m \<Rightarrow> 'e \<Rightarrow> smt_value) \<Rightarrow> 'm \<Rightarrow> (nat \<Rightarrow> int) \<Rightarrow> 'v ConstraintIR \<Rightarrow> nat \<Rightarrow> 'e \<Rightarrow> bool" where
  "built value_of m \<sigma> ir i e \<longleftrightarrow>
     i < length (ir_nodes ir) \<and> evalNodes \<sigma> (ir_nodes ir) ! i = Some (value_of m e)"

definition state_ok ::
    "('m \<Rightarrow> 'e \<Rightarrow> smt_value) \<Rightarrow> 'm \<Rightarrow> (nat \<Rightarrow> int) \<Rightarrow> 'v ConstraintIR \<Rightarrow> 'e build_state \<Rightarrow> bool" where
  "state_ok value_of m \<sigma> ir st \<longleftrightarrow>
     (\<forall>i e. b_cache st i = Some e \<longrightarrow> built value_of m \<sigma> ir i e) \<and>
     (\<forall>i w e. b_symbols st i = Some (w, e) \<longrightarrow> value_of m e = BvVal w (take_bit w (\<sigma> i)))"

lemma state_cache:
  "state_ok value_of m \<sigma> ir st \<Longrightarrow> built value_of m \<sigma> ir i e \<Longrightarrow>
   state_ok value_of m \<sigma> ir (st \<lparr>b_cache := (b_cache st)(i \<mapsto> e)\<rparr>)"
  by (simp add: state_ok_def)

lemma state_error: "state_ok value_of m \<sigma> ir (st \<lparr>b_error := msg\<rparr>) = state_ok value_of m \<sigma> ir st"
  by (simp add: state_ok_def)

lemma state_same:
  "state_ok value_of m \<sigma> ir st \<Longrightarrow> b_cache st' = b_cache st \<Longrightarrow> b_symbols st' = b_symbols st \<Longrightarrow>
   state_ok value_of m \<sigma> ir st'"
  by (simp add: state_ok_def)

definition build_sound ::
    "('m \<Rightarrow> 'e \<Rightarrow> smt_value) \<Rightarrow> 'm \<Rightarrow> (nat \<Rightarrow> int) \<Rightarrow> 'v ConstraintIR \<Rightarrow>
     (nat \<Rightarrow> 'e build_state \<Rightarrow> ('e, 'e option) build) \<Rightarrow> nat set \<Rightarrow> bool" where
  "build_sound value_of m \<sigma> ir rec I \<longleftrightarrow>
     (\<forall>i \<in> I. \<forall>st r st'. rec i st = Some (Inr (r, st')) \<longrightarrow> state_ok value_of m \<sigma> ir st \<longrightarrow>
        state_ok value_of m \<sigma> ir st' \<and> (\<forall>e. r = Some e \<longrightarrow> built value_of m \<sigma> ir i e))"

lemma build_all_sound:
  assumes "build_sound value_of m \<sigma> ir rec (set is)"
    and "buildAll rec is st = Some (Inr (xs, st'))" "state_ok value_of m \<sigma> ir st"
  shows "state_ok value_of m \<sigma> ir st' \<and>
         (\<forall>es. those xs = Some es \<longrightarrow> list_all2 (built value_of m \<sigma> ir) is es)"
  using assms
proof (induction "is" arbitrary: st xs)
  case (Cons i js)
  obtain x st1 ys where 1: "rec i st = Some (Inr (x, st1))" and 2: "buildAll rec js st1 = Some (Inr (ys, st'))"
    and xs: "xs = x # ys"
    using Cons.prems(2) by (auto split: option.splits sum.splits prod.splits)
  have s1: "state_ok value_of m \<sigma> ir st1" and x: "\<And>e. x = Some e \<Longrightarrow> built value_of m \<sigma> ir i e"
    using Cons.prems(1,3) 1 unfolding build_sound_def by fastforce+
  have "build_sound value_of m \<sigma> ir rec (set js)" using Cons.prems(1) by (simp add: build_sound_def)
  from Cons.IH [OF this 2 s1] show ?case
    using x by (auto simp: xs split: option.splits)
qed simp

lemma built_operands:
  assumes "list_all2 (built value_of m \<sigma> ir) is es"
  shows "those (map (operandValue (evalNodes \<sigma> (ir_nodes ir))) is) = Some (map (value_of m) es)"
  using assms by (induction rule: list_all2_induct) (simp_all add: built_def operandValue_def)

context z3_laws begin

lemma symbol_value:
  assumes "getOrCreateSymbol z names i w st = (r, st')" "state_ok value_of m \<sigma> ir st" "0 < w"
    and "\<And>w. m (symbolName names i, w) = \<sigma> i"
  shows "state_ok value_of m \<sigma> ir st' \<and> (\<forall>e. r = Some e \<longrightarrow> value_of m e = BvVal w (take_bit w (\<sigma> i)))"
proof (cases "i = 0")
  case True
  thus ?thesis using assms(1,2) by (auto simp: getOrCreateSymbol_def state_error)
next
  case False
  show ?thesis
  proof (cases "b_symbols st i")
    case None
    hence r: "r = Some (z_bv_const z (symbolName names i) w)"
      "st' = st \<lparr>b_symbols := (b_symbols st)(i \<mapsto> (w, z_bv_const z (symbolName names i) w))\<rparr>"
      using assms(1,3) False by (auto simp: getOrCreateSymbol_def normalize_pos Let_def)
    have "value_of m (z_bv_const z (symbolName names i) w) = BvVal w (take_bit w (\<sigma> i))"
      by (simp add: constant_value assms(4))
    thus ?thesis using assms(2) by (simp add: r state_ok_def)
  next
    case (Some p)
    obtain w' e' where p: "p = (w', e')" by force
    have v: "value_of m e' = BvVal w' (take_bit w' (\<sigma> i))"
      using assms(2) Some p by (simp add: state_ok_def)
    show ?thesis using assms(1,2,3) False Some p v
      by (auto simp: getOrCreateSymbol_def normalize_pos state_error split: if_splits)
  qed
qed

lemma node_sound:
  assumes ord: "ordered (ir_nodes ir)" and i: "i < length (ir_nodes ir)"
    and rec: "build_sound value_of m \<sigma> ir rec (set (operandsOf (ir_nodes ir ! i)))"
    and run: "buildNode z names rec i (ir_nodes ir ! i) st = Some (Inr (r, st'))"
    and ok: "state_ok value_of m \<sigma> ir st"
    and nm: "\<And>w. en_kind (ir_nodes ir ! i) = Symbol \<Longrightarrow>
               m (symbolName names (en_symbol (ir_nodes ir ! i)), w) = \<sigma> (en_symbol (ir_nodes ir ! i))"
  shows "state_ok value_of m \<sigma> ir st' \<and> (\<forall>e. r = Some e \<longrightarrow> built value_of m \<sigma> ir i e)"
proof -
  let ?n = "ir_nodes ir ! i"
  let ?w = "normalizeBitWidth (en_bitWidth ?n)"
  have w: "0 < ?w" by (simp add: normalizeBitWidth_def)
  note ev = eval_at [OF ord i, of \<sigma>]
  have fin: "?thesis" if "state_ok value_of m \<sigma> ir s" "r = Some e"
      "st' = s \<lparr>b_cache := (b_cache s)(i \<mapsto> e)\<rparr>" "nodeValue \<sigma> (evalNodes \<sigma> (ir_nodes ir)) ?n = Some (value_of m e)" for s e
  proof -
    have "built value_of m \<sigma> ir i e" using that(4) ev i by (simp add: built_def)
    thus ?thesis using state_cache [OF that(1)] that(2,3) by simp
  qed
  consider "en_kind ?n = Symbol" | "en_kind ?n = Constant" | "en_kind ?n \<notin> {Symbol, Constant}" by blast
  thus ?thesis
  proof cases
    case 1
    obtain q s where q: "getOrCreateSymbol z names (en_symbol ?n) ?w st = (q, s)" by force
    note sv = symbol_value [OF q ok w nm [OF 1]]
    show ?thesis
    proof (cases q)
      case None
      hence "r = None" "st' = s" using run 1 q by (simp_all add: buildNode_def Let_def)
      thus ?thesis using sv by simp
    next
      case (Some e)
      hence "r = Some e" "st' = s \<lparr>b_cache := (b_cache s)(i \<mapsto> e)\<rparr>"
        using run 1 q by (auto simp: buildNode_def Let_def memoize_def)
      thus ?thesis using sv Some 1 by (intro fin [of s e]) (simp_all add: nodeValue_def Let_def)
    qed
  next
    case 2
    let ?e = "makeBvConstant z (en_constant ?n) ?w"
    have "r = Some ?e" "st' = st \<lparr>b_cache := (b_cache st)(i \<mapsto> ?e)\<rparr>"
      using run 2 by (auto simp: buildNode_def Let_def memoize_def)
    thus ?thesis using ok 2 w
      by (intro fin [of st ?e]) (simp_all add: nodeValue_def Let_def makeBvConstant_def normalize_pos numeral_value)
  next
    case 3
    obtain xs s where xs: "buildAll rec (operandsOf ?n) st = Some (Inr (xs, s))"
      using run 3 by (auto simp: buildNode_def Let_def split: option.splits sum.splits prod.splits)
    have s: "state_ok value_of m \<sigma> ir s"
      and es: "\<And>es. those xs = Some es \<Longrightarrow> list_all2 (built value_of m \<sigma> ir) (operandsOf ?n) es"
      using build_all_sound [OF rec xs ok] by auto
    show ?thesis
    proof (cases "those xs")
      case None
      hence "r = None" "st' = s" using run 3 xs by (simp_all add: buildNode_def Let_def)
      thus ?thesis using s by simp
    next
      case (Some es)
      have ap: "applyNode z i (en_kind ?n) ?w es s = Inr (r, st')"
        using run 3 xs Some by (simp add: buildNode_def Let_def)
      show ?thesis
      proof (cases r)
        case None
        thus ?thesis using state_same [OF s] node_none [OF ap [unfolded None]] by simp
      next
        case e: (Some e)
        have len: "length es = length (operandsOf ?n)" using es [OF Some] by (simp add: list_all2_lengthD)
        have one: "\<exists>x. es = [x]" if "en_kind ?n \<in> {ZExt, SExt, Trunc}"
          using that len by (cases es) (auto simp: operandsOf_def)
        have "opSem (en_kind ?n) ?w (map (value_of m) es) = Some (value_of m e) \<and>
            st' = s \<lparr>b_cache := (b_cache s)(i \<mapsto> e)\<rparr>"
          by (rule node_value [OF ap [unfolded e] 3 w one])
        thus ?thesis using s e 3 built_operands [OF es [OF Some]]
          by (intro fin [of s e]) (simp_all add: nodeValue_def Let_def)
      qed
    qed
  qed
qed

lemma expr_sound:
  assumes ord: "ordered (ir_nodes ir)"
    and nm: "\<And>i w. i \<in> symbolIds ir \<Longrightarrow> m (symbolName names i, w) = \<sigma> i"
  shows "build_sound value_of m \<sigma> ir (buildExpr fuel z ir names) UNIV"
proof (induction fuel)
  case 0
  show ?case by (simp add: build_sound_def)
next
  case (Suc fuel)
  show ?case unfolding build_sound_def
  proof (intro ballI allI impI)
    fix i st r st'
    assume run: "buildExpr (Suc fuel) z ir names i st = Some (Inr (r, st'))"
      and ok: "state_ok value_of m \<sigma> ir st"
    show "state_ok value_of m \<sigma> ir st' \<and> (\<forall>e. r = Some e \<longrightarrow> built value_of m \<sigma> ir i e)"
    proof (cases "b_cache st i")
      case (Some e)
      thus ?thesis using run ok by (auto simp: state_ok_def)
    next
      case None
      show ?thesis
      proof (cases "i < length (ir_nodes ir)")
        case False
        thus ?thesis using run ok None by (auto simp: failWith_def state_error)
      next
        case True
        have rec: "build_sound value_of m \<sigma> ir (buildExpr fuel z ir names) (set (operandsOf (ir_nodes ir ! i)))"
          using Suc.IH by (simp add: build_sound_def)
        have "buildNode z names (buildExpr fuel z ir names) i (ir_nodes ir ! i) st = Some (Inr (r, st'))"
          using run None True by simp
        thus ?thesis
          by (rule node_sound [OF ord True rec _ ok])
            (use True in \<open>auto simp: symbolIds_def intro!: nm\<close>)
      qed
    qed
  qed
qed

end

definition z3Backend :: "'e z3_api \<Rightarrow> 'v SmtQuery \<Rightarrow> SmtAnswer" where
  "z3Backend z q = the (z3Solve (Suc (length (ir_nodes (q_ir q)))) z q)"

text \<open>A query a run can meet: of the encoder's shape, with names of its own for its symbols.\<close>

definition meetable :: "'v ConstraintIR \<Rightarrow> bool" where
  "meetable ir \<longleftrightarrow> query_ok ir \<and> distinctNames ir \<and> (\<exists>\<sigma>. satisfies \<sigma> ir)"

lemma assertions_stop:
  "addAssertions fuel z ir names as added st = Some (Inl a) \<Longrightarrow> ans_status a \<noteq> SmtUnsat"
  by (induction fuel z ir names as added st rule: addAssertions.induct)
    (auto simp: throwAnswer_def z3Answer_def split: option.splits sum.splits prod.splits if_splits)

lemma build_soundD:
  assumes "build_sound value_of m \<sigma> ir rec I" "i \<in> I" "rec i st = Some (Inr (r, st'))"
    and "state_ok value_of m \<sigma> ir st"
  shows "state_ok value_of m \<sigma> ir st' \<and> (\<forall>e. r = Some e \<longrightarrow> built value_of m \<sigma> ir i e)"
  using assms unfolding build_sound_def by metis

lemma assertions_step:
  assumes "addAssertions fuel z ir names (a # as) added st = Some (Inr res)"
  shows "\<exists>e st'. buildExpr fuel z ir names a (st \<lparr>b_error := []\<rparr>) = Some (Inr (Some e, st')) \<and>
    z_is_bool z e \<and> addAssertions fuel z ir names as (added @ [e]) st' = Some (Inr res)"
proof (cases "buildExpr fuel z ir names a (st \<lparr>b_error := []\<rparr>)")
  case (Some r)
  show ?thesis
  proof (cases r)
    case (Inr p)
    obtain x st' where p: "p = (x, st')" by force
    show ?thesis using assms Some Inr p by (cases x) (simp_all split: if_splits)
  qed (use assms Some in simp)
qed (use assms in simp)

context z3_laws begin

lemma assertions_hold:
  assumes "build_sound value_of m \<sigma> ir (buildExpr fuel z ir names) UNIV"
    and "addAssertions fuel z ir names as added st = Some (Inr res)"
    and "state_ok value_of m \<sigma> ir st"
    and "\<forall>c \<in> set added. value_of m c = BoolVal True"
    and "\<forall>a \<in> set as. assertionValue \<sigma> ir a \<in> {None, Some (BoolVal True)}"
  shows "\<forall>c \<in> set res. value_of m c = BoolVal True"
  using assms(2-)
proof (induction "as" arbitrary: added st)
  case (Cons a as)
  from assertions_step [OF Cons.prems(1)] obtain e st'
    where b: "buildExpr fuel z ir names a (st \<lparr>b_error := []\<rparr>) = Some (Inr (Some e, st'))"
    and bool: "z_is_bool z e" and go: "addAssertions fuel z ir names as (added @ [e]) st' = Some (Inr res)"
    by blast
  have st: "state_ok value_of m \<sigma> ir (st \<lparr>b_error := []\<rparr>)" using Cons.prems(2) by (simp only: state_error)
  note be = build_soundD [OF assms(1) UNIV_I b st]
  hence s: "state_ok value_of m \<sigma> ir st'" and e: "built value_of m \<sigma> ir a e" by auto
  obtain p where p: "value_of m e = BoolVal p" using bool bool_sort by blast
  have "assertionValue \<sigma> ir a = Some (BoolVal p)"
    using e p by (simp add: built_def assertionValue_def operandValue_def)
  hence v: "value_of m e = BoolVal True" using Cons.prems(4) p by simp
  have "\<forall>c \<in> set (added @ [e]). value_of m c = BoolVal True" using Cons.prems(3) v by simp
  moreover have "\<forall>a \<in> set as. assertionValue \<sigma> ir a \<in> {None, Some (BoolVal True)}"
    using Cons.prems(4) by (simp only: set_simps insert_iff) blast
  ultimately show ?case by (rule Cons.IH [OF go s])
qed simp

lemma solve_unsat:
  assumes run: "z3Solve fuel z q = Some a" "ans_status a = SmtUnsat"
    and ok: "query_ok (q_ir q)" "distinctNames (q_ir q)"
  shows "\<not> satisfies \<sigma> (q_ir q)"
proof
  assume sat: "satisfies \<sigma> (q_ir q)"
  let ?ir = "q_ir q"
  let ?names = "collectNames ?ir"
  let ?st = "\<lparr>b_cache = Map.empty, b_symbols = Map.empty, b_error = []\<rparr> :: 'e build_state"
  let ?m = "\<lambda>(s, w :: nat). \<sigma> (the_inv_into (symbolIds ?ir) (symbolName ?names) s)"
  have m: "?m (symbolName ?names i, w) = \<sigma> i" if "i \<in> symbolIds ?ir" for i w
    using that ok(2) by (simp add: distinctNames_def the_inv_into_f_f)
  have ord: "ordered (ir_nodes ?ir)" using ok(1) by (simp add: query_ok_def)
  note sound = expr_sound [OF ord, of ?m ?names \<sigma> fuel, OF m]
  have empty: "ir_assertions ?ir = [] \<Longrightarrow> ir_intervals ?ir = []" using ok(1) by (auto simp: query_ok_def)
  obtain res where res: "addAssertions fuel z ?ir ?names (ir_assertions ?ir) [] ?st = Some (Inr res)"
    and a: "a = checkAnswer z (q_timeoutMs q) res"
    using run empty
    by (auto simp: z3Solve_def Let_def z3Answer_def dest: assertions_stop
        split: if_splits sum.splits option.splits prod.splits)
  have "\<forall>c \<in> set res. value_of ?m c = BoolVal True"
    by (rule assertions_hold [OF sound res]) (use sat in \<open>auto simp: state_ok_def satisfies_def\<close>)
  moreover have "z_check z (q_timeoutMs q) res = Inr Z3Unsat"
    using run(2) a by (auto simp: checkAnswer_def throwAnswer_def z3Answer_def split: sum.splits check_result.splits if_splits)
  ultimately show False using check_unsat by blast
qed

lemma backend_unsat:
  assumes "ans_status (z3Backend z q) = SmtUnsat"
  shows "\<not> meetable (q_ir q)"
proof
  assume a: "meetable (q_ir q)"
  hence ok: "query_ok (q_ir q)" by (simp add: meetable_def)
  obtain r where "z3Solve (Suc (length (ir_nodes (q_ir q)))) z q = Some r"
    using z3_solve_returns [OF ok, of "Suc (length (ir_nodes (q_ir q)))" z] by auto
  hence "z3Solve (Suc (length (ir_nodes (q_ir q)))) z q = Some (z3Backend z q)" by (simp add: z3Backend_def)
  thus False using solve_unsat [OF _ assms] a by (auto simp: meetable_def)
qed

end

sublocale z3_laws \<subseteq> refinement "Some (z3Backend z)" meetable
proof (unfold_locales, goal_cases)
  case (1 ir)
  thus ?case by (simp add: meetable_def query_ok_def)
next
  case (2 solve q)
  thus ?case using backend_unsat by blast
qed

context z3_laws begin

lemma verdict_not_meetable:
  "evaluateQuery (Some (z3Backend z)) config ruleId ir = Infeasible \<Longrightarrow> \<not> meetable ir"
  by (rule infeasible_sound)

end

end
