(* ===== verification/Z3Terms.thy ===== *)
theory Z3Terms
  imports Z3Backend
begin

text \<open>
  A solver that satisfies the contract \<open>z3_laws\<close> of the Z3 backend: terms of the bit-vector
  theory with sort checks, decided when they contain no constant symbol and \<open>unknown\<close>
  otherwise. It shows that the contract can be met, and it is the concrete function on which
  the properties of the refinement are evaluated.
\<close>

section \<open>Terms\<close>

datatype zterm = ZVal nat nat | ZConst string nat | ZApp ExprKind nat "zterm list"

definition orElse :: "smt_value option \<Rightarrow> smt_value" where
  "orElse r = (case r of Some v \<Rightarrow> v | None \<Rightarrow> BoolVal False)"

fun termValue :: "(string \<times> nat \<Rightarrow> int) \<Rightarrow> zterm \<Rightarrow> smt_value" where
  "termValue m (ZVal w n) = BvVal w (take_bit w (int n))"
| "termValue m (ZConst s w) = BvVal w (take_bit w (m (s, w)))"
| "termValue m (ZApp k w ts) = orElse (opSem k w (map (termValue m) ts))"

fun ground :: "zterm \<Rightarrow> bool" where
  "ground (ZVal _ _) = True"
| "ground (ZConst _ _) = False"
| "ground (ZApp _ _ ts) = list_all ground ts"

definition mkApp :: "ExprKind \<Rightarrow> nat \<Rightarrow> zterm list \<Rightarrow> string + zterm" where
  "mkApp k w ts =
     (case opSem k w (map (termValue (\<lambda>_. 0)) ts) of
        None \<Rightarrow> Inl ''sort mismatch'' | Some _ \<Rightarrow> Inr (ZApp k w ts))"

definition termWidth :: "zterm \<Rightarrow> string + nat" where
  "termWidth t = (case termValue (\<lambda>_. 0) t of BvVal w _ \<Rightarrow> Inr w | BoolVal _ \<Rightarrow> Inl ''not a bit vector'')"

definition mkResize :: "ExprKind \<Rightarrow> (nat \<Rightarrow> nat) \<Rightarrow> zterm \<Rightarrow> string + zterm" where
  "mkResize k f t = (case termWidth t of Inl msg \<Rightarrow> Inl msg | Inr a \<Rightarrow> mkApp k (f a) [t])"

definition termApi :: "zterm z3_api" where
  "termApi =
     \<lparr>z_bv_val = (\<lambda>s w. ZVal w (digitsValue 0 s)),
      z_bv_const = ZConst,
      z_apply = (\<lambda>k ts. mkApp k 0 ts),
      z_zext = (\<lambda>t n. mkResize ZExt (\<lambda>a. a + n) t),
      z_sext = (\<lambda>t n. mkResize SExt (\<lambda>a. a + n) t),
      z_extract = (\<lambda>t hi lo. if lo = 0 then mkResize Trunc (\<lambda>_. hi + 1) t else Inl ''unsupported''),
      z_is_bool = (\<lambda>t. case termValue (\<lambda>_. 0) t of BoolVal _ \<Rightarrow> True | BvVal _ _ \<Rightarrow> False),
      z_bv_size = termWidth,
      z_check = (\<lambda>_ ts.
        if list_ex (\<lambda>t. ground t \<and> termValue (\<lambda>_. 0) t \<noteq> BoolVal True) ts then Inr Z3Unsat
        else if list_all ground ts then Inr Z3Sat else Inr (Z3Unknown ''incomplete''))\<rparr>"

section \<open>The contract\<close>

lemma sameSort_sym: "sameSort a b \<Longrightarrow> sameSort b a"
  by (cases a; cases b) auto

lemma sameSort_trans: "sameSort a b \<Longrightarrow> sameSort b c \<Longrightarrow> sameSort a c"
  by (cases a; cases b; cases c) auto

text \<open>The sort of a result depends on the sorts of the arguments only.\<close>

definition optSort :: "smt_value option \<Rightarrow> smt_value option \<Rightarrow> bool" where
  "optSort a b = (case (a, b) of (None, None) \<Rightarrow> True | (Some x, Some y) \<Rightarrow> sameSort x y | _ \<Rightarrow> False)"

lemma bvOp_sort: "sameSort a c \<Longrightarrow> sameSort b d \<Longrightarrow> optSort (bvOp f [a, b]) (bvOp f [c, d])"
  by (cases a; cases b; cases c; cases d) (auto simp: optSort_def)

lemma bvCmp_sort: "sameSort a c \<Longrightarrow> sameSort b d \<Longrightarrow> optSort (bvCmp f [a, b]) (bvCmp f [c, d])"
  by (cases a; cases b; cases c; cases d) (auto simp: optSort_def)

lemma boolOp_sort: "sameSort a c \<Longrightarrow> sameSort b d \<Longrightarrow> optSort (boolOp f [a, b]) (boolOp f [c, d])"
  by (cases a; cases b; cases c; cases d) (auto simp: optSort_def)

lemma equal_sort: "sameSort a c \<Longrightarrow> sameSort b d \<Longrightarrow> optSort (equalOp f [a, b]) (equalOp f [c, d])"
  by (cases a; cases b; cases c; cases d) (auto simp: optSort_def equalOp_def)

lemma ite_sort: "sameSort a a' \<Longrightarrow> sameSort b b' \<Longrightarrow> sameSort c c' \<Longrightarrow>
    optSort (iteOp [a, b, c]) (iteOp [a', b', c'])"
  by (cases a; cases a'; cases b; cases b'; cases c; cases c') (auto simp: optSort_def iteOp_def)

lemma unary_sort: "sameSort a b \<Longrightarrow> optSort (notOp [a]) (notOp [b])"
  "sameSort a b \<Longrightarrow> optSort (resizeOp v f w [a]) (resizeOp v f w [b])"
  by (cases a; cases b; auto simp: optSort_def notOp_def resizeOp_def)+

lemma wrong_arity:
  "length xs \<noteq> 2 \<Longrightarrow> bvOp f xs = None" "length xs \<noteq> 2 \<Longrightarrow> bvCmp g xs = None"
  "length xs \<noteq> 2 \<Longrightarrow> boolOp h xs = None" "length xs \<noteq> 2 \<Longrightarrow> equalOp e xs = None"
  "length xs \<noteq> 3 \<Longrightarrow> iteOp xs = None" "length xs \<noteq> 1 \<Longrightarrow> notOp xs = None"
  "length xs \<noteq> 1 \<Longrightarrow> resizeOp v r w xs = None"
  by (cases "(f, xs)" rule: bvOp.cases, auto)
    (cases "(g, xs)" rule: bvCmp.cases, auto, cases "(h, xs)" rule: boolOp.cases, auto,
      auto simp: equalOp_def iteOp_def notOp_def resizeOp_def split: list.splits smt_value.splits)

lemma opSem_sort:
  assumes "list_all2 sameSort xs ys"
  shows "optSort (opSem k w xs) (opSem k w ys)"
proof -
  have len: "length xs = length ys" using assms by (rule list_all2_lengthD)
  have none: "optSort None None" by (simp add: optSort_def)
  consider a b where "xs = [a]" "ys = [b]" "sameSort a b"
    | a b c d where "xs = [a, b]" "ys = [c, d]" "sameSort a c" "sameSort b d"
    | a b c a' b' c' where "xs = [a, b, c]" "ys = [a', b', c']" "sameSort a a'" "sameSort b b'" "sameSort c c'"
    | "length xs \<notin> {1, 2, 3}"
  proof -
    have one: "\<exists>a b. xs = [a] \<and> ys = [b] \<and> sameSort a b" if "length xs = Suc 0"
      using assms that by (auto simp: length_Suc_conv list_all2_Cons1)
    have two: "\<exists>a b c d. xs = [a, b] \<and> ys = [c, d] \<and> sameSort a c \<and> sameSort b d"
      if "length xs = Suc (Suc 0)"
      using assms that by (auto simp: length_Suc_conv list_all2_Cons1)
    have three: "\<exists>a b c a' b' c'. xs = [a, b, c] \<and> ys = [a', b', c'] \<and>
        sameSort a a' \<and> sameSort b b' \<and> sameSort c c'" if "length xs = Suc (Suc (Suc 0))"
      using assms that by (auto simp: length_Suc_conv list_all2_Cons1)
    consider "length xs = Suc 0" | "length xs = Suc (Suc 0)" | "length xs = Suc (Suc (Suc 0))"
      | "length xs \<notin> {1, 2, 3}" by fastforce
    thus thesis using one two three that by (cases; blast)
  qed
  thus ?thesis
  proof cases
    case 1
    thus ?thesis by (cases k) (auto simp: opSem_def wrong_arity none unary_sort)
  next
    case 2
    thus ?thesis by (cases k)
      (auto simp: opSem_def wrong_arity none bvOp_sort bvCmp_sort boolOp_sort equal_sort)
  next
    case 3
    thus ?thesis by (cases k) (auto simp: opSem_def wrong_arity none ite_sort)
  next
    case 4
    thus ?thesis using len by (cases k) (auto simp: opSem_def wrong_arity none)
  qed
qed

lemma orElse_sort: "optSort a b \<Longrightarrow> sameSort (orElse a) (orElse b)"
  by (auto simp: optSort_def orElse_def split: option.splits)

lemma term_sort: "sameSort (termValue m t) (termValue m' t)"
proof (induction t)
  case (ZApp k w ts)
  hence "list_all2 sameSort (map (termValue m) ts) (map (termValue m') ts)"
    by (simp add: list_all2_map1 list_all2_map2 list_all2_same)
  thus ?case by (simp add: orElse_sort opSem_sort)
qed simp_all

definition inWidth :: "smt_value \<Rightarrow> bool" where
  "inWidth v = (case v of BvVal a x \<Rightarrow> 0 \<le> x \<and> x < 2 ^ a | BoolVal _ \<Rightarrow> True)"

lemma take_in_width [simp]: "inWidth (BvVal a (take_bit a x))"
  using take_bit_int_less_exp [of a x] by (simp add: inWidth_def)

lemma bool_in_width [simp]: "inWidth (BoolVal b)"
  by (simp add: inWidth_def)

lemma op_in_width: "bvOp f xs = Some v \<Longrightarrow> inWidth v" "bvCmp g xs = Some v \<Longrightarrow> inWidth v"
    "boolOp h xs = Some v \<Longrightarrow> inWidth v" "equalOp e xs = Some v \<Longrightarrow> inWidth v"
    "notOp xs = Some v \<Longrightarrow> inWidth v" "resizeOp vl r w xs = Some v \<Longrightarrow> inWidth v"
  by (auto simp: equalOp_def notOp_def resizeOp_def
      split: if_splits list.splits smt_value.splits elim!: bvOp.elims bvCmp.elims boolOp.elims)

lemma ite_in_width: "iteOp xs = Some v \<Longrightarrow> \<forall>x \<in> set xs. inWidth x \<Longrightarrow> inWidth v"
  by (auto simp: iteOp_def split: if_splits list.splits smt_value.splits)

lemma opSem_in_width: "opSem k w xs = Some v \<Longrightarrow> \<forall>x \<in> set xs. inWidth x \<Longrightarrow> inWidth v"
  by (cases k) (auto simp: opSem_def dest: op_in_width ite_in_width)

lemma term_in_width: "inWidth (termValue m t)"
proof (induction t)
  case (ZApp k w ts)
  thus ?case using opSem_in_width [of k w "map (termValue m) ts"]
    by (auto simp: orElse_def split: option.split)
qed simp_all

lemma ground_value: "ground t \<Longrightarrow> termValue m t = termValue m' t"
proof (induction t)
  case (ZApp k w ts)
  hence eq: "map (termValue m) ts = map (termValue m') ts" by (simp add: list_all_iff)
  show ?case by (simp only: termValue.simps eq)
qed simp_all

lemma mkApp_value:
  assumes "mkApp k w ts = Inr t"
  shows "opSem k w (map (termValue m) ts) = Some (termValue m t)"
proof -
  have t: "t = ZApp k w ts" and some: "opSem k w (map (termValue (\<lambda>_. 0)) ts) \<noteq> None"
    using assms by (auto simp: mkApp_def split: option.splits)
  have "list_all2 sameSort (map (termValue (\<lambda>_. 0)) ts) (map (termValue m) ts)"
    by (simp add: list_all2_map1 list_all2_map2 list_all2_same term_sort)
  from opSem_sort [OF this, of k w] some show ?thesis
    by (auto simp: t optSort_def orElse_def split: option.splits)
qed

lemma width_value:
  assumes "termWidth t = Inr a"
  shows "\<exists>x. termValue m t = BvVal a x"
  using assms term_sort [of "\<lambda>_. 0" t m]
  by (cases "termValue m t"; cases "termValue (\<lambda>_. 0) t") (auto simp: termWidth_def)

lemma resize_value_of:
  assumes "mkResize k f t = Inr t'" "termValue m t = BvVal a x"
  shows "opSem k (f a) [BvVal a x] = Some (termValue m t')"
proof -
  obtain c where c: "termWidth t = Inr c" "mkApp k (f c) [t] = Inr t'"
    using assms(1) by (auto simp: mkResize_def split: sum.splits)
  have "c = a" using width_value [OF c(1), of m] assms(2) by auto
  thus ?thesis using mkApp_value [OF c(2), of m] assms(2) by simp
qed

lemma unary_width: "opSem ZExt w [BvVal a x] = Some v \<Longrightarrow> v = BvVal w (take_bit w x)"
  "opSem SExt w [BvVal a x] = Some v \<Longrightarrow> v = BvVal w (take_bit w (signedOf a x))"
  "opSem Trunc w [BvVal a x] = Some v \<Longrightarrow> v = BvVal w (take_bit w x)"
  by (auto simp: opSem_def resizeOp_def split: if_splits)

lemma term_check:
  assumes "z_check termApi t cs = Inr Z3Unsat"
  shows "\<exists>c \<in> set cs. termValue m c \<noteq> BoolVal True"
proof -
  obtain c where "c \<in> set cs" "ground c" "termValue (\<lambda>_. 0) c \<noteq> BoolVal True"
    using assms by (auto simp: termApi_def list_ex_iff split: if_splits)
  thus ?thesis using ground_value [of c m "\<lambda>_. 0"] by metis
qed

interpretation terms: z3_laws termApi termValue
proof (unfold_locales, goal_cases)
  case (1 m e a x)
  thus ?case using term_in_width [of m e] by (simp add: inWidth_def)
next
  case (4 kind es e w m)
  have "opSem kind 0 (map (termValue m) es) = Some (termValue m e)"
    using 4 mkApp_value [of kind 0 es e m] by (simp add: termApi_def)
  moreover have "opSem kind w = opSem kind 0" using 4(2) by (cases kind) (simp_all add: opSem_def)
  ultimately show ?case by simp
next
  case (5 e m)
  show ?case using term_sort [of "\<lambda>_. 0" e m]
    by (cases "termValue m e"; cases "termValue (\<lambda>_. 0) e") (auto simp: termApi_def)
next
  case (6 e a m)
  thus ?case using width_value [of e a m] by (simp add: termApi_def)
next
  case (7 e n e' m a x)
  have "termValue m e' = BvVal (a + n) (take_bit (a + n) x)"
    using 7 resize_value_of [of ZExt "\<lambda>a. a + n" e e' m a x] by (auto simp: termApi_def dest: unary_width(1))
  moreover have "take_bit (a + n) x = x"
  proof -
    have "(2 :: int) ^ a \<le> 2 ^ (a + n)" by (rule power_increasing) simp_all
    moreover have "0 \<le> x" "x < 2 ^ a" using term_in_width [of m e] 7(2) by (simp_all add: inWidth_def)
    ultimately have "x < 2 ^ (a + n)" by linarith
    thus ?thesis by (rule take_bit_id [OF \<open>0 \<le> x\<close>])
  qed
  ultimately show ?case by simp
next
  case (8 e n e' m a x)
  thus ?case using resize_value_of [of SExt "\<lambda>a. a + n" e e' m a x] by (auto simp: termApi_def dest: unary_width(2))
next
  case (9 e hi e' m a x)
  thus ?case using resize_value_of [of Trunc "\<lambda>_. hi + 1" e e' m a x] by (auto simp: termApi_def dest: unary_width(3))
next
  case (10 t cs m)
  thus ?case using term_check by blast
qed (simp_all add: termApi_def numeral_roundtrip)


section \<open>Properties\<close>

lemma path_meetable:
  assumes "executes g b \<rho> S" "\<forall>vr \<in> set ranges. rangeRuns g \<rho> S vr"
    and "\<forall>is. block = Some is \<longrightarrow> assumesRun g \<rho> S is"
    and "\<forall>c. cond = Some c \<longrightarrow> conditionRuns g \<rho> S taken c"
    and "distinctNames (encode g ranges cond taken block b)"
  shows "meetable (encode g ranges cond taken block b)"
  using path_query [OF assms(1-4)] assms(5) encode_ok unfolding meetable_def by blast





text \<open>
  C18: building the Z3 expressions of a query returns. The recursion over the node graph has
  no check for cycles; in every query the encoder builds a node comes after its operands, so
  a depth of one more than the number of nodes is enough, whatever Z3 answers or throws.
\<close>

theorem z3_answers_every_query:
  assumes "ir \<in> {encode g ranges cond taken block b, encodeSignedOverflowFeasibility g ranges v ctx,
                  encodeUnsignedOverflowFeasibility g ranges v ctx,
                  encodeSignedComparisonFeasibility g ranges v c gt ctx}"
  shows "\<exists>a. z3Solve (Suc (length (ir_nodes ir))) z
           \<lparr>q_ir = ir, q_ruleId = rule, q_budgetNodes = budget, q_timeoutMs = timeout\<rparr> = Some a"
proof -
  have "query_ok ir" using assms by (auto simp: encode_ok overflow_ok comparison_ok)
  thus ?thesis by (intro z3_solve_returns) simp_all
qed

theorem z3_answers_every_query_witness:
  "\<exists>a. z3Solve (Suc (length (ir_nodes product_query))) termApi
         \<lparr>q_ir = product_query, q_ruleId = ''integer-overflow'', q_budgetNodes = 10000,
          q_timeoutMs = 50\<rparr> = Some a"
  by (rule z3_answers_every_query [where g = product_values and ranges = "[]" and v = 2
      and ctx = "None :: (nat \<times> (nat \<times> nat instruction) list) option"])
    (simp add: product_query_def)


text \<open>
  Two pointers of the same name, an argument and a global, become one Z3 constant: the query
  for their being different is met by a run and false in every assignment of the solver.
\<close>

definition shadow_values :: "(nat, nat) llvm_values" where
  "shadow_values =
     [(0, \<lparr>v_kind = ArgumentV, v_intType = None, v_name = ''x''\<rparr>),
      (1, \<lparr>v_kind = OtherV, v_intType = None, v_name = ''x''\<rparr>),
      (2, \<lparr>v_kind = ICmpV ICMP_NE 0 1, v_intType = Some 1, v_name = ''differ''\<rparr>)]"

definition shadow_query :: "nat SmtQuery" where
  "shadow_query = \<lparr>q_ir = encode shadow_values [] (Some 2) True None None, q_ruleId = ''recursion'',
     q_budgetNodes = 10000, q_timeoutMs = 50\<rparr>"

definition differ_term :: zterm where
  "differ_term = ZApp Ne 0 [ZConst ''x'' 64, ZConst ''x'' 64]"

lemma shadow_built: "addAssertions 10 termApi (q_ir shadow_query) (collectNames (q_ir shadow_query))
    (ir_assertions (q_ir shadow_query)) [] \<lparr>b_cache = Map.empty, b_symbols = Map.empty, b_error = []\<rparr> =
  Some (Inr [differ_term])"
  by code_simp

lemma shared_name_refutes_a_run:
  "(\<exists>\<sigma>. satisfies \<sigma> (q_ir shadow_query)) \<and> (\<forall>m. termValue m differ_term = BoolVal False)"
proof -
  have "executes shadow_values None (\<lambda>v. if v = 0 then 8 else if v = 1 then 16 else 1) {0, 1, 2}"
    by (simp add: run_defs shadow_values_def)
  moreover have "conditionRuns shadow_values (\<lambda>v. if v = 0 then 8 else if v = 1 then 16 else 1) {0, 1, 2} True 2"
    by (simp add: run_defs shadow_values_def)
  ultimately have "\<exists>\<sigma>. satisfies \<sigma> (q_ir shadow_query)"
    using path_query [of shadow_values None "\<lambda>v. if v = 0 then 8 else if v = 1 then 16 else 1" "{0, 1, 2}" "[]" None "Some 2" True]
    by (auto simp: shadow_query_def)
  thus ?thesis by (simp add: differ_term_def opSem_def equalOp_def orElse_def)
qed

end
