(* ===== verification/ModuleGraph.thy ===== *)
theory ModuleGraph
  imports CallCycles
begin

text \<open>
  The dependency graph between the input files (\<open>src/app/AnalyzerApp.cpp\<close>): the edges through
  functions with a single definition (\<open>buildSingleDefFilteredEdges\<close>), Tarjan's algorithm on
  module indices (\<open>ModuleTarjan\<close>), the order of its components and their levels
  (\<open>computeTopologicalSCCOrder\<close>, \<open>computeSCCLevels\<close>). The vectors are lists, the stack is a
  list whose head is the back of the vector, and a hash set is the list of its elements in the
  order of iteration. Main results: components are the strongly connected classes, they come
  out callees first, and components of one level do not depend on each other.
\<close>

section \<open>Edges\<close>

text \<open>
  \<open>definedBy\<close>: the modules that define a canonical name, one entry for each definition. A
  function is its canonical name and whether the loop skips it, which it does for declarations
  and for functions without a name.
\<close>

definition buildDefinedBy :: "(string \<times> bool) list list \<Rightarrow> string \<Rightarrow> nat list" where
  "buildDefinedBy moduleFunctions name =
     concat (map (\<lambda>i. map (\<lambda>_. i) (filter (\<lambda>(n, skipped). \<not> skipped \<and> n = name) (moduleFunctions ! i)))
                 [0..<length moduleFunctions])"

definition insertEdge :: "nat \<Rightarrow> nat list \<Rightarrow> nat list" where
  "insertEdge j es = (if j \<in> set es then es else es @ [j])"

definition addCalleeEdge :: "(string \<Rightarrow> nat list) \<Rightarrow> nat \<Rightarrow> string \<Rightarrow> nat list \<Rightarrow> nat list" where
  "addCalleeEdge definedBy i callee es =
     (case definedBy callee of
        [j] \<Rightarrow> if j \<noteq> i then insertEdge j es else es
      | _ \<Rightarrow> es)"

definition buildSingleDefFilteredEdges ::
    "nat \<Rightarrow> string list list \<Rightarrow> (string \<Rightarrow> nat list) \<Rightarrow> nat list list" where
  "buildSingleDefFilteredEdges N moduleCalleeNames definedBy =
     map (\<lambda>i. fold (addCalleeEdge definedBy i) (moduleCalleeNames ! i) []) [0..<N]"

section \<open>Tarjan on module indices\<close>

record ModuleTarjan =
  mt_index :: "int list"
  mt_lowlink :: "int list"
  mt_onStack :: "bool list"
  mt_stack :: "nat list"
  mt_sccs :: "nat list list"
  mt_nextIndex :: int

definition startModules :: "nat \<Rightarrow> ModuleTarjan" where
  "startModules N = \<lparr>mt_index = replicate N (- 1), mt_lowlink = replicate N (- 1),
     mt_onStack = replicate N False, mt_stack = [], mt_sccs = [], mt_nextIndex = 0\<rparr>"

definition enterModule :: "nat \<Rightarrow> ModuleTarjan \<Rightarrow> ModuleTarjan" where
  "enterModule v t =
     t\<lparr>mt_index := (mt_index t)[v := mt_nextIndex t], mt_lowlink := (mt_lowlink t)[v := mt_nextIndex t],
       mt_nextIndex := mt_nextIndex t + 1, mt_stack := v # mt_stack t,
       mt_onStack := (mt_onStack t)[v := True]\<rparr>"

definition lowerModule :: "nat \<Rightarrow> int \<Rightarrow> ModuleTarjan \<Rightarrow> ModuleTarjan" where
  "lowerModule v i t = t\<lparr>mt_lowlink := (mt_lowlink t)[v := min (mt_lowlink t ! v) i]\<rparr>"

text \<open>The loop that pops the component: down to \<open>v\<close>, which is on the stack.\<close>

fun popUntil :: "nat \<Rightarrow> nat list \<Rightarrow> bool list \<Rightarrow> nat list \<times> nat list \<times> bool list" where
  "popUntil v [] onStack = ([], [], onStack)"
| "popUntil v (w # st) onStack =
     (let onStack' = onStack[w := False]
      in if w = v then ([w], st, onStack')
         else (case popUntil v st onStack' of (c, r) \<Rightarrow> (w # c, r)))"

definition closeModule :: "nat \<Rightarrow> ModuleTarjan \<Rightarrow> ModuleTarjan" where
  "closeModule v t =
     (if mt_lowlink t ! v = mt_index t ! v
      then case popUntil v (mt_stack t) (mt_onStack t) of
             (component, stack, onStack) \<Rightarrow>
               t\<lparr>mt_stack := stack, mt_onStack := onStack, mt_sccs := mt_sccs t @ [sort component]\<rparr>
      else t)"

function (sequential) strongConnectModule ::
    "nat \<Rightarrow> nat list list \<Rightarrow> nat \<Rightarrow> ModuleTarjan \<Rightarrow> ModuleTarjan option"
  and connectEdges ::
    "nat \<Rightarrow> nat list list \<Rightarrow> nat \<Rightarrow> nat list \<Rightarrow> ModuleTarjan \<Rightarrow> ModuleTarjan option"
where
  "strongConnectModule 0 graph v t = None"
| "strongConnectModule (Suc n) graph v t =
     map_option (closeModule v) (connectEdges n graph v (graph ! v) (enterModule v t))"
| "connectEdges n graph v [] t = Some t"
| "connectEdges n graph v (w # ws) t =
     (if mt_index t ! w < 0
      then (case strongConnectModule n graph w t of
              None \<Rightarrow> None
            | Some t' \<Rightarrow> connectEdges n graph v ws (lowerModule v (mt_lowlink t' ! w) t'))
      else if mt_onStack t ! w
      then connectEdges n graph v ws (lowerModule v (mt_index t ! w) t)
      else connectEdges n graph v ws t)"
  by pat_completeness auto
termination
  by (relation "measures
        [\<lambda>c. (case c of Inl (n, _) \<Rightarrow> n | Inr (n, _) \<Rightarrow> n),
         \<lambda>c. (case c of Inl _ \<Rightarrow> 0 | Inr (_, _, _, ws, _) \<Rightarrow> Suc (length ws))]") auto

fun runModules :: "nat \<Rightarrow> nat list list \<Rightarrow> nat list \<Rightarrow> ModuleTarjan \<Rightarrow> ModuleTarjan option" where
  "runModules n graph [] t = Some t"
| "runModules n graph (v # vs) t =
     (if mt_index t ! v < 0
      then (case strongConnectModule n graph v t of
              None \<Rightarrow> None | Some t' \<Rightarrow> runModules n graph vs t')
      else runModules n graph vs t)"

text \<open>One more than the number of modules is enough fuel.\<close>

definition computeTopologicalSCCOrder :: "nat \<Rightarrow> nat list list \<Rightarrow> nat list list option" where
  "computeTopologicalSCCOrder N filteredEdges =
     map_option mt_sccs (runModules (Suc N) filteredEdges [0..<N] (startModules N))"

section \<open>Levels\<close>

text \<open>\<open>moduleToSCC\<close>: a module in no component keeps 0.\<close>

definition moduleToSCC :: "nat list list \<Rightarrow> nat \<Rightarrow> nat list" where
  "moduleToSCC sccOrder N =
     fold (\<lambda>s xs. fold (\<lambda>m xs. xs[m := s]) (sccOrder ! s) xs) [0..<length sccOrder] (replicate N 0)"

text \<open>Whether a component depends on another one, and the largest level of those it depends on.\<close>

definition addDependency :: "nat list \<Rightarrow> nat list \<Rightarrow> nat \<Rightarrow> nat \<Rightarrow> bool \<times> nat \<Rightarrow> bool \<times> nat" where
  "addDependency toSCC level s dep acc =
     (if toSCC ! dep \<noteq> s then (True, max (snd acc) (level ! (toSCC ! dep))) else acc)"

definition levelOfSCC :: "nat list \<Rightarrow> nat list \<Rightarrow> nat list list \<Rightarrow> nat \<Rightarrow> nat list \<Rightarrow> nat" where
  "levelOfSCC toSCC level filteredEdges s scc =
     (let (hasPred, maxPred) = fold (addDependency toSCC level s) (concat (map (\<lambda>m. filteredEdges ! m) scc)) (False, 0)
      in if hasPred then maxPred + 1 else 0)"

definition computeSCCLevels :: "nat list list \<Rightarrow> nat list list \<Rightarrow> nat \<Rightarrow> nat list" where
  "computeSCCLevels sccOrder filteredEdges N =
     (let toSCC = moduleToSCC sccOrder N
      in fold (\<lambda>s level. level[s := levelOfSCC toSCC level filteredEdges s (sccOrder ! s)])
           [0..<length sccOrder] (replicate (length sccOrder) 0))"

definition levelGroups :: "nat list \<Rightarrow> nat list list" where
  "levelGroups sccLevels =
     map (\<lambda>l. filter (\<lambda>s. sccLevels ! s = l) [0..<length sccLevels]) [0..<Suc (fold max sccLevels 0)]"

definition isTrivialSCC :: "nat list list \<Rightarrow> nat list \<Rightarrow> bool" where
  "isTrivialSCC filteredEdges scc \<longleftrightarrow> length scc = 1 \<and> hd scc \<notin> set (filteredEdges ! hd scc)"

section \<open>The algorithm computes the strongly connected components\<close>

text \<open>
  The module version works as \<open>strongConnect\<close> of CallCycles does, on vectors instead of maps:
  \<open>sim\<close> relates their states, so that the invariants of CallCycles hold here as well.
\<close>

definition moduleCalls :: "nat list list \<Rightarrow> nat CallGraph" where
  "moduleCalls graph = (\<lambda>v. if v < length graph then Some (graph ! v) else None)"

definition module_edges :: "nat list list \<Rightarrow> (nat \<times> nat) set" where
  "module_edges graph = {(v, w). v < length graph \<and> w \<in> set (graph ! v)}"

definition graph_ok :: "nat list list \<Rightarrow> bool" where
  "graph_ok graph \<longleftrightarrow> (\<forall>es \<in> set graph. \<forall>w \<in> set es. w < length graph)"

definition sim :: "nat \<Rightarrow> ModuleTarjan \<Rightarrow> nat TarjanState \<Rightarrow> bool" where
  "sim N t st \<longleftrightarrow>
     length (mt_index t) = N \<and> length (mt_lowlink t) = N \<and> length (mt_onStack t) = N \<and>
     (\<forall>v. ts_index st v = (if v < N \<and> 0 \<le> mt_index t ! v then Some (mt_index t ! v) else None)) \<and>
     (\<forall>v < N. 0 \<le> mt_index t ! v \<longrightarrow> ts_lowlink st v = Some (mt_lowlink t ! v)) \<and>
     ts_stack st = mt_stack t \<and> ts_onStack st = {v. v < N \<and> mt_onStack t ! v} \<and>
     ts_nextIndex st = mt_nextIndex t \<and> 0 \<le> mt_nextIndex t"

definition scc_inv :: "(nat \<times> nat) set \<Rightarrow> nat list list \<Rightarrow> nat set \<Rightarrow> bool" where
  "scc_inv E sccs closed \<longleftrightarrow>
     distinct (concat sccs) \<and> set (concat sccs) = closed \<and>
     (\<forall>c \<in> set sccs. c \<noteq> [] \<and> sorted c \<and> (\<forall>x \<in> set c. \<forall>y \<in> set c. (x, y) \<in> E\<^sup>*)) \<and>
     (\<forall>i < length sccs. E `` set (sccs ! i) \<subseteq> set (concat (take (Suc i) sccs)))"

lemma module_edges_eq: "call_edges (\<lambda>_. False) (moduleCalls graph) = module_edges graph"
  by (auto simp: call_edges_def module_edges_def moduleCalls_def callees_def split: if_splits)

lemma callees_module: "v < length graph \<Longrightarrow> callees (moduleCalls graph) v = graph ! v"
  by (simp add: callees_def moduleCalls_def)

lemma graph_ok_nth: "graph_ok graph \<Longrightarrow> v < length graph \<Longrightarrow> w \<in> set (graph ! v) \<Longrightarrow> w < length graph"
  by (auto simp: graph_ok_def)

lemma sim_low: "sim N t st \<Longrightarrow> v \<in> dom (ts_index st) \<Longrightarrow> lowOf st v = mt_lowlink t ! v"
  by (auto simp: sim_def lowOf_def dom_def split: if_splits)

lemma sim_index: "sim N t st \<Longrightarrow> v \<in> dom (ts_index st) \<Longrightarrow> indexOf st v = mt_index t ! v"
  by (auto simp: sim_def indexOf_def dom_def split: if_splits)

lemma sim_fresh: "sim N t st \<Longrightarrow> v < N \<Longrightarrow> ts_index st v = None \<longleftrightarrow> mt_index t ! v < 0"
  by (auto simp: sim_def)

lemma sim_dom: "sim N t st \<Longrightarrow> v \<in> dom (ts_index st) \<Longrightarrow> v < N"
  by (auto simp: sim_def dom_def split: if_splits)

lemma sim_enter:
  assumes "sim N t st" and "v < N"
  shows "sim N (enterModule v t) (enterNode v st)"
  using assms by (auto simp: sim_def enterModule_def enterNode_def nth_list_update)

lemma sim_lower:
  assumes s: "sim N t st" and v: "v \<in> dom (ts_index st)"
  shows "sim N (lowerModule v i t) (lowerLink v i st)"
proof -
  have "v < N" "lowOf st v = mt_lowlink t ! v" using sim_dom [OF s v] sim_low [OF s v] .
  then show ?thesis using s by (auto simp: sim_def lowerModule_def lowerLink_def nth_list_update)
qed

lemma popUntil_eq:
  "v \<in> set st \<Longrightarrow> popUntil v st onStack =
     (takeWhile (\<lambda>w. w \<noteq> v) st @ [v], drop (Suc (length (takeWhile (\<lambda>w. w \<noteq> v) st))) st,
      fold (\<lambda>w xs. xs[w := False]) (takeWhile (\<lambda>w. w \<noteq> v) st @ [v]) onStack)"
  by (induction st arbitrary: onStack) (auto simp: Let_def)

lemma fold_clear_length [simp]: "length (fold (\<lambda>w xs. xs[w := b]) ws xs) = length xs"
  by (induction ws arbitrary: xs) auto

lemma fold_clear_nth:
  "v < length xs \<Longrightarrow> fold (\<lambda>w xs. xs[w := b]) ws xs ! v = (if v \<in> set ws then b else xs ! v)"
  by (induction ws arbitrary: xs) (auto simp: nth_list_update)

lemma scc_inv_snoc:
  assumes "scc_inv E sccs closed" and "distinct c" and "c \<noteq> []" and "sorted c" and "closed \<inter> set c = {}"
    and "\<And>x y. x \<in> set c \<Longrightarrow> y \<in> set c \<Longrightarrow> (x, y) \<in> E\<^sup>*"
    and "E `` set c \<subseteq> closed \<union> set c"
  shows "scc_inv E (sccs @ [c]) (closed \<union> set c)"
  using assms unfolding scc_inv_def by (auto simp: nth_append less_Suc_eq)

lemma sim_close:
  assumes s: "sim N t st" and c: "connecting E v old seen st" and succs: "\<And>w. (v, w) \<in> E \<Longrightarrow> w \<in> seen"
    and i: "scc_inv E (mt_sccs t) (closedNodes st)"
  shows "sim N (closeModule v t) (closeComponent nr CG v st) \<and>
    scc_inv E (mt_sccs (closeModule v t)) (closedNodes (closeComponent nr CG v st))"
proof -
  have vdom: "v \<in> dom (ts_index st)"
    using connecting_order(5) [OF c] c by (auto simp: connecting_def tarjan_inv_def)
  have eq: "lowOf st v = indexOf st v \<longleftrightarrow> mt_lowlink t ! v = mt_index t ! v"
    using sim_low [OF s vdom] sim_index [OF s vdom] by simp
  show ?thesis
  proof (cases "lowOf st v = indexOf st v")
    case False
    with s i eq show ?thesis by (simp add: closeModule_def closeComponent_def)
  next
    case True
    obtain new where new: "ts_stack st = new @ v # old" and dist: "distinct (new @ v # old)"
      and both: "\<And>y. y \<in> set new \<Longrightarrow> (y, v) \<in> E\<^sup>* \<and> (v, y) \<in> E\<^sup>*"
      and out: "\<And>y w. y \<in> set (new @ [v]) \<Longrightarrow> (y, w) \<in> E \<Longrightarrow> w \<in> closedNodes st \<union> set (new @ [v])"
      using component_facts [OF c succs True] by metis
    have stk: "mt_stack t = new @ v # old" using s new by (simp add: sim_def)
    have vn: "v \<notin> set new" using dist by simp
    have pop: "popUntil v (mt_stack t) (mt_onStack t) =
        (new @ [v], old, fold (\<lambda>w xs. xs[w := False]) (new @ [v]) (mt_onStack t))"
      using vn by (simp add: popUntil_eq stk takeWhile_new)
    let ?t = "closeModule v t" and ?st = "closeComponent nr CG v st"
    have t': "mt_index ?t = mt_index t" "mt_lowlink ?t = mt_lowlink t" "mt_stack ?t = old"
      "mt_onStack ?t = fold (\<lambda>w xs. xs[w := False]) (new @ [v]) (mt_onStack t)"
      "mt_sccs ?t = mt_sccs t @ [sort (new @ [v])]" "mt_nextIndex ?t = mt_nextIndex t"
      using True eq pop by (simp_all add: closeModule_def)
    have st': "ts_index ?st = ts_index st" "ts_lowlink ?st = ts_lowlink st" "ts_stack ?st = old"
      "ts_onStack ?st = ts_onStack st - set (new @ [v])" "ts_nextIndex ?st = ts_nextIndex st"
      using True vn unfolding closeComponent_def new by (auto simp: takeWhile_new Let_def)
    have on: "{w. w < N \<and> mt_onStack ?t ! w} = {w. w < N \<and> mt_onStack t ! w} - set (new @ [v])"
      using s unfolding t' by (auto simp: fold_clear_nth sim_def simp del: fold_append set_append split: if_splits)
    have "sim N ?t ?st" using s on unfolding sim_def st' t' by (simp del: fold_append set_append)
    moreover have cl: "closedNodes ?st = closedNodes st \<union> set (sort (new @ [v]))"
    proof -
      have "set (new @ v # old) \<subseteq> dom (ts_index st)"
        using c new by (simp add: connecting_def tarjan_inv_def)
      then show ?thesis using dist unfolding closedNodes_def st' new by auto
    qed
    moreover have "scc_inv E (mt_sccs ?t) (closedNodes st \<union> set (sort (new @ [v])))"
      unfolding t'
    proof (rule scc_inv_snoc [OF i])
      show "closedNodes st \<inter> set (sort (new @ [v])) = {}" unfolding closedNodes_def new by auto
      show "(x, y) \<in> E\<^sup>*" if "x \<in> set (sort (new @ [v]))" "y \<in> set (sort (new @ [v]))" for x y
        using that both by (auto intro: rtrancl_trans)
      show "E `` set (sort (new @ [v])) \<subseteq> closedNodes st \<union> set (sort (new @ [v]))"
        using out by auto
      show "sort (new @ [v]) \<noteq> []" by (metis append_is_Nil_conv length_0_conv length_sort not_Cons_self2)
    qed (use dist in auto)
    ultimately show ?thesis by simp
  qed
qed

lemma closedNodes_enter: "V \<notin> dom (ts_index st) \<Longrightarrow> closedNodes (enterNode V st) = closedNodes st"
  by (auto simp: enterNode_def closedNodes_def)

lemma mt_sccs_simps [simp]:
  "mt_sccs (enterModule v t) = mt_sccs t" "mt_sccs (lowerModule v i t) = mt_sccs t"
  by (simp_all add: enterModule_def lowerModule_def)

lemma modules_simulate:
  assumes ok: "graph_ok graph" and len: "length graph = N"
  shows "strongConnect n nr CG v st = Some st' \<Longrightarrow> nr = (\<lambda>_. False) \<Longrightarrow> CG = moduleCalls graph \<Longrightarrow>
      sim N t st \<Longrightarrow> tarjan_inv (module_edges graph) st \<Longrightarrow> scc_inv (module_edges graph) (mt_sccs t) (closedNodes st) \<Longrightarrow>
      v < N \<Longrightarrow> v \<notin> dom (ts_index st) \<Longrightarrow> \<forall>x \<in> set (ts_stack st). (x, v) \<in> (module_edges graph)\<^sup>* \<Longrightarrow>
      \<exists>t'. strongConnectModule n graph v t = Some t' \<and> sim N t' st' \<and>
        scc_inv (module_edges graph) (mt_sccs t') (closedNodes st')"
    and "connectCallees n nr CG v ws st = Some st' \<Longrightarrow> nr = (\<lambda>_. False) \<Longrightarrow> CG = moduleCalls graph \<Longrightarrow>
      sim N t st \<Longrightarrow> connecting (module_edges graph) v old seen st \<Longrightarrow>
      scc_inv (module_edges graph) (mt_sccs t) (closedNodes st) \<Longrightarrow> v < N \<Longrightarrow> set ws \<subseteq> set (graph ! v) \<Longrightarrow>
      \<exists>t'. connectEdges n graph v ws t = Some t' \<and> sim N t' st' \<and>
        scc_inv (module_edges graph) (mt_sccs t') (closedNodes st')"
proof (induction n nr CG v st and n nr CG v ws st arbitrary: st' t and st' t seen old
    rule: strongConnect_connectCallees.induct)
  case (1 noRecurse CG V st)
  then show ?case by simp
next
  case (2 n nr CG v st)
  let ?E = "module_edges graph"
  have nr: "\<not> nr v" and CG: "callees CG v = graph ! v" and E: "call_edges nr CG = ?E"
    using 2 len by (simp_all add: callees_module module_edges_eq)
  obtain st1 where r: "connectCallees n nr CG v (graph ! v) (enterNode v st) = Some st1"
    and st': "st' = closeComponent nr CG v st1"
    using 2(2) nr CG by auto
  have c0: "connecting ?E v (ts_stack st) {} (enterNode v st)" by (rule enter_connecting [OF 2(6,9,10)])
  have c1: "connecting ?E v (ts_stack st) ({} \<union> {w \<in> set (graph ! v). \<not> nr w}) st1"
    using strongConnect_correct(2) [OF r, where seen = "{}" and old = "ts_stack st"] c0 nr CG E by simp
  obtain t1 where t1: "connectEdges n graph v (graph ! v) (enterModule v t) = Some t1" "sim N t1 st1"
    "scc_inv ?E (mt_sccs t1) (closedNodes st1)"
    using 2(1) [OF nr, unfolded CG, OF r 2(3,4) sim_enter [OF 2(5,8)] c0 _ 2(8) subset_refl]
      2(7) 2(9) by (auto simp: closedNodes_enter)
  have "sim N (closeModule v t1) st' \<and> scc_inv ?E (mt_sccs (closeModule v t1)) (closedNodes st')"
    unfolding st' by (rule sim_close [OF t1(2) c1 _ t1(3)]) (use 2(3) in \<open>auto simp: module_edges_def\<close>)
  with t1(1) show ?case by simp
next
  case (3 n noRecurse CG V st)
  then show ?case by simp
next
  case (4 n nr CG v w ws st)
  let ?E = "module_edges graph"
  have nr: "\<not> nr w" "\<not> nr v" using 4(7) by simp_all
  have CG: "callees CG v = graph ! v" "call_edges nr CG = ?E" using 4(7,8,12) len
    by (simp_all add: callees_module module_edges_eq)
  have ws: "set ws \<subseteq> set (graph ! v)" and w: "w \<in> set (graph ! v)" using 4(13) by auto
  have wN: "w < N" using graph_ok_nth [OF ok _ w] 4(12) len by simp
  have e: "(v, w) \<in> ?E" using w 4(12) len by (simp add: module_edges_def)
  have v: "v \<in> dom (ts_index st)"
    using connecting_order(5) [OF 4(10)] 4(10) by (auto simp: connecting_def tarjan_inv_def)
  have inv: "tarjan_inv ?E st" using 4(10) by (simp add: connecting_def)
  have fr: "ts_index st w = None \<longleftrightarrow> mt_index t ! w < 0" by (rule sim_fresh [OF 4(9) wN])
  show ?case
  proof (cases "ts_index st w = None")
    case fresh: True
    then obtain st1 where d: "strongConnect n nr CG w st = Some st1"
      and r: "connectCallees n nr CG v ws (lowerLink v (lowOf st1 w) st1) = Some st'"
      using 4(6) nr by (auto split: option.splits)
    have reach: "\<forall>x \<in> set (ts_stack st). (x, w) \<in> ?E\<^sup>*"
      using connecting_order(3) [OF 4(10)] e by (meson rtrancl_into_rtrancl)
    have wd: "w \<notin> dom (ts_index st)" using fresh by auto
    have conn: "connected ?E w st st1"
      using strongConnect_correct(1) [OF d] inv wd nr reach CG by simp
    obtain t1 where t1: "strongConnectModule n graph w t = Some t1" "sim N t1 st1"
      "scc_inv ?E (mt_sccs t1) (closedNodes st1)"
      using 4(2) [OF nr(1) fresh d 4(7,8,9) inv 4(11) wN wd reach] by blast
    have dom1: "v \<in> dom (ts_index st1)" "w \<in> dom (ts_index st1)"
      using conn v by (auto simp: connected_def domIff)
    have step: "connecting ?E v old (insert w seen) (lowerLink v (lowOf st1 w) st1)"
      by (rule connecting_tree_edge [OF 4(10) e wd conn])
    obtain t2 where t2: "connectEdges n graph v ws (lowerModule v (lowOf st1 w) t1) = Some t2" "sim N t2 st'"
      "scc_inv ?E (mt_sccs t2) (closedNodes st')"
      using 4(3) [OF nr(1) fresh d r 4(7,8) sim_lower [OF t1(2) dom1(1)] step _ 4(12) ws] t1(3) by auto
    have "lowOf st1 w = mt_lowlink t1 ! w" by (rule sim_low [OF t1(2) dom1(2)])
    with t1(1) t2 fresh fr show ?thesis by simp
  next
    case seen: False
    have on: "w \<in> ts_onStack st \<longleftrightarrow> mt_onStack t ! w" using 4(9) wN by (simp add: sim_def)
    show ?thesis
    proof (cases "w \<in> ts_onStack st")
      case True
      have r: "connectCallees n nr CG v ws (lowerLink v (indexOf st w) st) = Some st'"
        using 4(6) nr seen True by simp
      have "indexOf st w = mt_index t ! w" using seen by (intro sim_index [OF 4(9)]) auto
      with 4(4) [OF nr(1) seen True r 4(7,8) sim_lower [OF 4(9) v] connecting_back_edge [OF 4(10) e True] _ 4(12) ws]
      show ?thesis using 4(11) seen fr on True by auto
    next
      case False
      have r: "connectCallees n nr CG v ws st = Some st'" using 4(6) nr seen False by simp
      have "w \<in> dom (ts_index st)" using seen by auto
      from 4(5) [OF nr(1) seen False r 4(7,8,9) connecting_skip [OF 4(10) this False] 4(11,12) ws]
      show ?thesis using seen fr on False by auto
    qed
  qed
qed

lemma runModules_correct:
  assumes ok: "graph_ok graph" and len: "length graph = N"
  shows "set vs \<subseteq> {..<N} \<Longrightarrow> sim N t st \<Longrightarrow> tarjan_inv (module_edges graph) st \<Longrightarrow>
      scc_inv (module_edges graph) (mt_sccs t) (closedNodes st) \<Longrightarrow> ts_stack st = [] \<Longrightarrow>
      \<exists>t' st'. runModules (Suc N) graph vs t = Some t' \<and> sim N t' st' \<and>
        scc_inv (module_edges graph) (mt_sccs t') (closedNodes st') \<and> ts_stack st' = [] \<and>
        dom (ts_index st) \<union> set vs \<subseteq> dom (ts_index st')"
proof (induction vs arbitrary: t st)
  case (Cons v vs)
  let ?E = "module_edges graph"
  have v: "v < N" and vs: "set vs \<subseteq> {..<N}" using Cons.prems(1) by auto
  show ?case
  proof (cases "ts_index st v = None")
    case True
    have "card ({..<N} - dom (ts_index st)) \<le> N" by (metis card_lessThan card_mono Diff_subset finite_lessThan)
    then obtain st1 where d: "strongConnect (Suc N) (\<lambda>_. False) (moduleCalls graph) v st = Some st1"
      "dom (ts_index st) \<subseteq> dom (ts_index st1)"
      using strongConnect_total(1) [of "{..<N}" "moduleCalls graph", OF _ _ refl _ True, of "Suc N" "\<lambda>_. False"]
        v len graph_ok_nth [OF ok] by (fastforce simp: callees_module)
    have dom: "v \<notin> dom (ts_index st)" using True by auto
    have c: "connected ?E v st st1"
      using strongConnect_correct(1) [OF d(1)] Cons.prems(3,5) dom by (simp add: module_edges_eq)
    obtain t1 where t1: "strongConnectModule (Suc N) graph v t = Some t1" "sim N t1 st1"
      "scc_inv ?E (mt_sccs t1) (closedNodes st1)"
      using modules_simulate(1) [OF ok len d(1) refl refl Cons.prems(2,3,4) v dom] Cons.prems(5) by auto
    have "\<exists>new. ts_stack st1 = new @ ts_stack st \<and> (\<forall>y \<in> set new. \<exists>z \<in> set (ts_stack st). (y, z) \<in> ?E\<^sup>*)"
      using c unfolding connected_def by blast
    then have s1: "ts_stack st1 = []" unfolding Cons.prems(5) by auto
    have i1: "tarjan_inv ?E st1" and v1: "v \<in> dom (ts_index st1)" using c by (auto simp: connected_def)
    obtain t' st' where "runModules (Suc N) graph vs t1 = Some t'" "sim N t' st'"
      "scc_inv ?E (mt_sccs t') (closedNodes st')" "ts_stack st' = []"
      "dom (ts_index st1) \<union> set vs \<subseteq> dom (ts_index st')"
      using Cons.IH [OF vs t1(2) i1 t1(3) s1] by blast
    with d(2) t1(1) sim_fresh [OF Cons.prems(2) v] True v1 show ?thesis by (intro exI conjI) auto
  next
    case False
    obtain t' st' where "runModules (Suc N) graph vs t = Some t'" "sim N t' st'"
      "scc_inv ?E (mt_sccs t') (closedNodes st')" "ts_stack st' = []"
      "dom (ts_index st) \<union> set vs \<subseteq> dom (ts_index st')"
      using Cons.IH [OF vs Cons.prems(2-5)] by blast
    with False sim_fresh [OF Cons.prems(2) v] show ?thesis by (intro exI conjI) auto
  qed
qed auto

section \<open>Order and levels\<close>

text \<open>What the order of the components promises to the levels and to the cross-file loops.\<close>

definition dependency_order :: "nat list list \<Rightarrow> nat list list \<Rightarrow> bool" where
  "dependency_order graph order \<longleftrightarrow>
     distinct (concat order) \<and> set (concat order) = {..<length graph} \<and>
     (\<forall>c \<in> set order. c \<noteq> [] \<and> sorted c) \<and>
     (\<forall>i j x y. i < length order \<and> j < length order \<and> x \<in> set (order ! i) \<and> y \<in> set (order ! j) \<longrightarrow>
        ((x, y) \<in> (module_edges graph)\<^sup>* \<longrightarrow> j \<le> i) \<and>
        (i = j \<longleftrightarrow> (x, y) \<in> (module_edges graph)\<^sup>* \<and> (y, x) \<in> (module_edges graph)\<^sup>*))"

lemma scc_inv_paths:
  assumes inv: "scc_inv E sccs closed" and i: "i < length sccs" and x: "x \<in> set (sccs ! i)"
    and path: "(x, y) \<in> E\<^sup>*"
  shows "y \<in> set (concat (take (Suc i) sccs))"
  using path
proof (induction rule: rtrancl_induct)
  case base
  have "x \<in> set (concat (take i sccs @ [sccs ! i]))" using x by simp
  then show ?case unfolding take_Suc_conv_app_nth [OF i] .
next
  case (step y z)
  obtain c where c: "c \<in> set (take (Suc i) sccs)" "y \<in> set c" using step.IH by auto
  then obtain k where k: "k < Suc i" "k < length sccs" "sccs ! k = c" by (auto simp: in_set_conv_nth)
  have "E `` set (sccs ! k) \<subseteq> set (concat (take (Suc k) sccs))" using inv k(2) by (simp add: scc_inv_def)
  then have "z \<in> set (concat (take (Suc k) sccs))" using c(2) k(3) step.hyps(2) by blast
  moreover have "set (concat (take (Suc k) sccs)) \<subseteq> set (concat (take (Suc i) sccs))"
    using set_take_subset_set_take [of "Suc k" "Suc i" sccs] k(1) by auto
  ultimately show ?case by blast
qed

lemma concat_distinct_index:
  assumes "distinct (concat xs)" and "i < length xs" and "j < length xs"
    and "x \<in> set (xs ! i)" and "x \<in> set (xs ! j)"
  shows "i = j"
  using assms
proof (induction xs arbitrary: i j)
  case (Cons a xs)
  have "x \<notin> set a" if "x \<in> set (xs ! k)" "k < length xs" for k
  proof -
    have "x \<in> set (concat xs)" using nth_mem [OF that(2)] that(1) by auto
    then show ?thesis using Cons.prems(1) by auto
  qed
  with Cons show ?case by (cases i; cases j) auto
qed simp

lemma take_concat_index:
  assumes "distinct (concat xs)" and "j < length xs" and "y \<in> set (xs ! j)"
    and "y \<in> set (concat (take (Suc i) xs))"
  shows "j \<le> i"
proof -
  obtain c where c: "c \<in> set (take (Suc i) xs)" "y \<in> set c" using assms(4) by auto
  then obtain k where "k < length (take (Suc i) xs)" "take (Suc i) xs ! k = c" by (meson in_set_conv_nth)
  with c(2) have k: "k < Suc i" "k < length xs" "y \<in> set (xs ! k)" by simp_all
  with concat_distinct_index [OF assms(1,2) k(2) assms(3)] show ?thesis by simp
qed

lemma scc_inv_dependency_order:
  assumes inv: "scc_inv (module_edges graph) sccs {..<length graph}"
  shows "dependency_order graph sccs"
proof -
  let ?E = "module_edges graph"
  have d: "distinct (concat sccs)" using inv by (simp add: scc_inv_def)
  have le: "j \<le> i" if "i < length sccs" "j < length sccs" "x \<in> set (sccs ! i)" "y \<in> set (sccs ! j)" "(x, y) \<in> ?E\<^sup>*"
    for i j x y
    by (rule take_concat_index [OF d that(2,4) scc_inv_paths [OF inv that(1,3,5)]])
  have same: "(x, y) \<in> ?E\<^sup>*" if "i < length sccs" "x \<in> set (sccs ! i)" "y \<in> set (sccs ! i)" for i x y
    using inv that nth_mem [OF that(1)] unfolding scc_inv_def by blast
  have "(i = j) = ((x, y) \<in> ?E\<^sup>* \<and> (y, x) \<in> ?E\<^sup>*)"
    if "i < length sccs" "j < length sccs" "x \<in> set (sccs ! i)" "y \<in> set (sccs ! j)" for i j x y
    using le [OF that(1,2,3,4)] le [OF that(2,1,4,3)] same that by (metis le_antisym)
  with le have "\<forall>i j x y. i < length sccs \<and> j < length sccs \<and> x \<in> set (sccs ! i) \<and> y \<in> set (sccs ! j) \<longrightarrow>
      ((x, y) \<in> ?E\<^sup>* \<longrightarrow> j \<le> i) \<and> (i = j \<longleftrightarrow> (x, y) \<in> ?E\<^sup>* \<and> (y, x) \<in> ?E\<^sup>*)" by blast
  moreover have "distinct (concat sccs)" "set (concat sccs) = {..<length graph}"
    "\<forall>c \<in> set sccs. c \<noteq> [] \<and> sorted c" using inv by (simp_all add: scc_inv_def)
  ultimately show ?thesis unfolding dependency_order_def by (intro conjI)
qed

lemma computeTopologicalSCCOrder_correct:
  assumes "graph_ok graph"
  shows "\<exists>order. computeTopologicalSCCOrder (length graph) graph = Some order \<and> dependency_order graph order"
proof -
  let ?E = "module_edges graph" and ?N = "length graph"
  have "sim ?N (startModules ?N) emptyTarjan" by (simp add: sim_def startModules_def emptyTarjan_def)
  moreover have "tarjan_inv ?E emptyTarjan" "ts_stack emptyTarjan = []"
    by (simp_all add: tarjan_inv_def emptyTarjan_def closedNodes_def)
  moreover have "scc_inv ?E (mt_sccs (startModules ?N)) (closedNodes emptyTarjan)" by (simp add: scc_inv_def startModules_def emptyTarjan_def closedNodes_def)
  moreover have "set [0..<?N] \<subseteq> {..<?N}" by auto
  ultimately obtain t st where t: "runModules (Suc ?N) graph [0..<?N] (startModules ?N) = Some t"
    "sim ?N t st" "scc_inv ?E (mt_sccs t) (closedNodes st)" "ts_stack st = []"
    "set [0..<?N] \<subseteq> dom (ts_index st)"
    using runModules_correct [OF assms refl, where vs = "[0..<length graph]" and st = emptyTarjan and t = "startModules ?N"]
    by blast
  have "closedNodes st = {..<?N}"
    using t(4,5) sim_dom [OF t(2)] unfolding closedNodes_def by auto
  with t(1,3) show ?thesis
    by (auto simp: computeTopologicalSCCOrder_def intro: scc_inv_dependency_order)
qed

lemma moduleToSCC_length [simp]: "length (moduleToSCC order N) = N"
proof -
  have "length (fold (\<lambda>s xs. fold (\<lambda>m xs. xs[m := s]) (order ! s) xs) ss xs) = length xs" for ss xs
    by (induction ss arbitrary: xs) auto
  then show ?thesis by (simp add: moduleToSCC_def)
qed

lemma moduleToSCC_nth:
  assumes d: "distinct (concat order)" and s: "s < length order" and m: "m \<in> set (order ! s)" and N: "m < N"
  shows "moduleToSCC order N ! m = s"
proof -
  have "fold (\<lambda>s xs. fold (\<lambda>m xs. xs[m := s]) (order ! s) xs) [0..<k] (replicate N 0) ! m = s \<and>
      length (fold (\<lambda>s xs. fold (\<lambda>m xs. xs[m := s]) (order ! s) xs) [0..<k] (replicate N 0)) = N"
    if "s < k" "k \<le> length order" for k
    using that
  proof (induction k)
    case (Suc k)
    let ?xs = "fold (\<lambda>s xs. fold (\<lambda>m xs. xs[m := s]) (order ! s) xs) [0..<k] (replicate N 0)"
    have len: "length ?xs = N"
    proof -
      have "length (fold (\<lambda>s xs. fold (\<lambda>m xs. xs[m := s]) (order ! s) xs) ss xs) = length xs" for ss xs
        by (induction ss arbitrary: xs) auto
      then show ?thesis by simp
    qed
    show ?case
    proof (cases "k = s")
      case True
      then show ?thesis using len N m by (simp add: fold_clear_nth)
    next
      case False
      then have "m \<notin> set (order ! k)" using concat_distinct_index [OF d s _ m, of k] Suc.prems by auto
      with Suc False len N show ?thesis by (simp add: fold_clear_nth)
    qed
  qed simp
  from this [OF s order_refl] show ?thesis by (simp add: moduleToSCC_def)
qed

definition updateLevel :: "nat list \<Rightarrow> nat list list \<Rightarrow> nat list list \<Rightarrow> nat \<Rightarrow> nat list \<Rightarrow> nat list" where
  "updateLevel toSCC graph order s level = level[s := levelOfSCC toSCC level graph s (order ! s)]"

lemma addDependency_fold:
  "fold (addDependency toSCC level s) deps (b, m) =
     (b \<or> (\<exists>d \<in> set deps. toSCC ! d \<noteq> s),
      fold max (map (\<lambda>d. level ! (toSCC ! d)) (filter (\<lambda>d. toSCC ! d \<noteq> s) deps)) m)"
  by (induction deps arbitrary: b m) (auto simp: addDependency_def max.commute)

lemma fold_max_le: "x \<in> set xs \<Longrightarrow> x \<le> fold max xs (m :: nat)"
proof (induction xs arbitrary: m)
  case (Cons y ys)
  have mono: "m \<le> fold max ys m" for m
  proof (induction ys arbitrary: m)
    case (Cons a ys)
    from Cons [of "max a m"] show ?case by simp
  qed simp
  from Cons mono [of "max y m"] show ?case by auto
qed simp

lemma levelOfSCC_less:
  assumes "x \<in> set scc" and "y \<in> set (graph ! x)" and "toSCC ! y \<noteq> s"
  shows "level ! (toSCC ! y) < levelOfSCC toSCC level graph s scc"
proof -
  have y: "y \<in> set (concat (map (\<lambda>m. graph ! m) scc))" using assms by auto
  then have "level ! (toSCC ! y) \<le> fold max (map (\<lambda>d. level ! (toSCC ! d))
      (filter (\<lambda>d. toSCC ! d \<noteq> s) (concat (map (\<lambda>m. graph ! m) scc)))) 0"
    using assms(3) by (intro fold_max_le) auto
  with y assms(3) show ?thesis unfolding levelOfSCC_def addDependency_fold by (auto simp: Let_def)
qed

lemma levelOfSCC_cong:
  assumes "\<And>x y. x \<in> set scc \<Longrightarrow> y \<in> set (graph ! x) \<Longrightarrow> toSCC ! y \<noteq> s \<Longrightarrow> l ! (toSCC ! y) = l' ! (toSCC ! y)"
  shows "levelOfSCC toSCC l graph s scc = levelOfSCC toSCC l' graph s scc"
proof -
  have "map (\<lambda>d. l ! (toSCC ! d)) (filter (\<lambda>d. toSCC ! d \<noteq> s) (concat (map (\<lambda>m. graph ! m) scc))) =
      map (\<lambda>d. l' ! (toSCC ! d)) (filter (\<lambda>d. toSCC ! d \<noteq> s) (concat (map (\<lambda>m. graph ! m) scc)))"
    using assms by (intro map_cong refl) auto
  then show ?thesis unfolding levelOfSCC_def addDependency_fold by (simp only:)
qed

text \<open>The levels satisfy the equation that defines them: later rounds do not touch what a round read.\<close>

lemma computeSCCLevels_eq:
  assumes ord: "dependency_order graph order" and ok: "graph_ok graph" and s: "s < length order"
  defines "toSCC \<equiv> moduleToSCC order (length graph)" and "L \<equiv> computeSCCLevels order graph (length graph)"
  shows "L ! s = levelOfSCC toSCC L graph s (order ! s)" and "length L = length order"
proof -
  let ?n = "length order"
  let ?f = "\<lambda>k. fold (updateLevel toSCC graph order) [0..<k] (replicate ?n 0)"
  have len: "length (?f k) = ?n" for k by (induction k) (simp_all add: updateLevel_def)
  have frame: "?f (k + d) ! i = ?f k ! i" if "i < k" for i k d
    using that by (induction d) (auto simp: updateLevel_def)
  have keep: "?f k ! i = ?f ?n ! i" if "i < k" "k \<le> ?n" for i k
    using frame [OF that(1), of "?n - k"] that(2) by simp
  have L: "L = ?f ?n" unfolding L_def computeSCCLevels_def toSCC_def [symmetric] updateLevel_def [abs_def] by (simp add: Let_def)
  have dep: "toSCC ! y < s" if "x \<in> set (order ! s)" "y \<in> set (graph ! x)" "toSCC ! y \<noteq> s" for x y
  proof -
    have d: "distinct (concat order)" and all: "set (concat order) = {..<length graph}"
      using ord by (simp_all add: dependency_order_def)
    have "x < length graph" using all that(1) s nth_mem [OF s] by auto
    then have y: "y < length graph" "(x, y) \<in> module_edges graph"
      using graph_ok_nth [OF ok] that(2) by (auto simp: module_edges_def)
    have "y \<in> set (concat order)" using y(1) all by simp
    then obtain c where "c \<in> set order" "y \<in> set c" by auto
    then obtain j where j: "j < ?n" "y \<in> set (order ! j)" by (auto simp: in_set_conv_nth)
    have "toSCC ! y = j" unfolding toSCC_def by (rule moduleToSCC_nth [OF d j y(1)])
    moreover have "j \<le> s" using ord that(1) j s y(2) r_into_rtrancl [OF y(2)] unfolding dependency_order_def by blast
    ultimately show ?thesis using that(3) by simp
  qed
  have "L ! s = ?f (Suc s) ! s" using keep [of s "Suc s"] s L by simp
  also have "\<dots> = levelOfSCC toSCC (?f s) graph s (order ! s)" using s len [of s] by (simp add: updateLevel_def)
  also have "\<dots> = levelOfSCC toSCC L graph s (order ! s)"
  proof (rule levelOfSCC_cong)
    fix x y
    assume "x \<in> set (order ! s)" "y \<in> set (graph ! x)" "toSCC ! y \<noteq> s"
    then have "toSCC ! y < s" by (rule dep)
    then show "?f s ! (toSCC ! y) = L ! (toSCC ! y)" using keep [of "toSCC ! y" s] s L by simp
  qed
  finally show "L ! s = levelOfSCC toSCC L graph s (order ! s)" .
  show "length L = ?n" unfolding L by (rule len)
qed

lemma dependency_has_lower_level:
  assumes ord: "dependency_order graph order" and ok: "graph_ok graph"
    and i: "i < length order" "x \<in> set (order ! i)" and e: "(x, y) \<in> module_edges graph"
    and j: "j < length order" "y \<in> set (order ! j)" and ne: "i \<noteq> j"
  shows "computeSCCLevels order graph (length graph) ! j < computeSCCLevels order graph (length graph) ! i"
proof -
  have d: "distinct (concat order)" using ord by (simp add: dependency_order_def)
  have g: "x < length graph" "y \<in> set (graph ! x)" using e by (auto simp: module_edges_def)
  have "moduleToSCC order (length graph) ! y = j"
    by (rule moduleToSCC_nth [OF d j graph_ok_nth [OF ok g]])
  with levelOfSCC_less [OF i(2) g(2), of "moduleToSCC order (length graph)" i] ne
  show ?thesis using computeSCCLevels_eq(1) [OF ord ok i(1)] by simp
qed

lemma addCalleeEdge_fold:
  "set (fold (addCalleeEdge definedBy i) names es) = set es \<union> {j. j \<noteq> i \<and> (\<exists>n \<in> set names. definedBy n = [j])}"
  by (induction names arbitrary: es) (auto simp: addCalleeEdge_def insertEdge_def split: list.splits)

lemma edges_length [simp]: "length (buildSingleDefFilteredEdges N names definedBy) = N"
  by (simp add: buildSingleDefFilteredEdges_def)

lemma single_def_edges:
  "(i, j) \<in> module_edges (buildSingleDefFilteredEdges N names definedBy) \<longleftrightarrow>
     i < N \<and> j \<noteq> i \<and> (\<exists>n \<in> set (names ! i). definedBy n = [j])"
  by (auto simp: module_edges_def buildSingleDefFilteredEdges_def addCalleeEdge_fold)

lemma edges_ok:
  assumes "\<And>n j. j \<in> set (definedBy n) \<Longrightarrow> j < N"
  shows "graph_ok (buildSingleDefFilteredEdges N names definedBy)"
proof -
  have "j < N" if "definedBy n = [j]" for n j using assms [of j n] that by simp
  then show ?thesis by (auto simp: graph_ok_def buildSingleDefFilteredEdges_def addCalleeEdge_fold)
qed

lemma definedBy_bound: "j \<in> set (buildDefinedBy fs n) \<Longrightarrow> j < length fs"
  by (auto simp: buildDefinedBy_def)

section \<open>Properties\<close>

text \<open>
  C20: Whatever the files define and call, the components of the file graph are computed, cover
  every file exactly once, are exactly the classes of files that depend on each other, and
  every file a component depends on is in it or in an earlier one.
\<close>

theorem scc_order_is_callees_first:
  assumes "graph = buildSingleDefFilteredEdges (length moduleFunctions) names (buildDefinedBy moduleFunctions)"
  shows "\<exists>order. computeTopologicalSCCOrder (length moduleFunctions) graph = Some order \<and>
    distinct (concat order) \<and> set (concat order) = {..<length moduleFunctions} \<and>
    (\<forall>i j x y. i < length order \<and> j < length order \<and> x \<in> set (order ! i) \<and> y \<in> set (order ! j) \<longrightarrow>
       ((x, y) \<in> (module_edges graph)\<^sup>* \<longrightarrow> j \<le> i) \<and>
       (i = j \<longleftrightarrow> (x, y) \<in> (module_edges graph)\<^sup>* \<and> (y, x) \<in> (module_edges graph)\<^sup>*))"
proof -
  have "graph_ok graph" unfolding assms by (rule edges_ok [OF definedBy_bound])
  from computeTopologicalSCCOrder_correct [OF this]
  show ?thesis unfolding assms dependency_order_def by (metis (no_types, lifting) edges_length)
qed

text \<open>Two files that call each other, and one that calls into the first.\<close>

definition sample_functions :: "(string \<times> bool) list list" where
  "sample_functions = [[(''f'', False), (''g'', True)], [(''g'', False), (''f'', True)], [(''h'', False), (''f'', True)]]"

definition sample_edges :: "nat list list" where
  "sample_edges = buildSingleDefFilteredEdges (length sample_functions)
     [[''g''], [''f''], [''f'']] (buildDefinedBy sample_functions)"

lemma sample_edges: "sample_edges = [[1], [0], [0]]" by code_simp

theorem scc_order_is_callees_first_witness:
  "(\<exists>order. computeTopologicalSCCOrder (length sample_functions) sample_edges = Some order \<and>
     distinct (concat order)) \<and> computeTopologicalSCCOrder 3 sample_edges = Some [[0, 1], [2]]"
proof -
  have "computeTopologicalSCCOrder 3 sample_edges = Some [[0, 1], [2]]" by code_simp
  moreover have "sample_edges = buildSingleDefFilteredEdges (length sample_functions)
      [[''g''], [''f''], [''f'']] (buildDefinedBy sample_functions)"
    by (rule sample_edges_def)
  ultimately show ?thesis using scc_order_is_callees_first [of sample_edges sample_functions] by blast
qed

text \<open>
  C21: A component lies in a strictly higher level than every other component it depends on, so
  two components of one level have no call between their files in either direction: a level
  can be analysed in any order, or in parallel.
\<close>

theorem same_level_components_are_independent:
  assumes "graph = buildSingleDefFilteredEdges (length moduleFunctions) names (buildDefinedBy moduleFunctions)"
    and "computeTopologicalSCCOrder (length moduleFunctions) graph = Some order"
    and "levels = computeSCCLevels order graph (length moduleFunctions)"
    and "i < length order" and "j < length order" and "i \<noteq> j"
    and "x \<in> set (order ! i)" and "y \<in> set (order ! j)" and "(x, y) \<in> module_edges graph"
  shows "levels ! j < levels ! i"
proof -
  have len: "length graph = length moduleFunctions" and ok: "graph_ok graph"
    unfolding assms(1) by (simp, rule edges_ok [OF definedBy_bound])
  have "dependency_order graph order" using computeTopologicalSCCOrder_correct [OF ok] assms(2) len by simp
  from dependency_has_lower_level [OF this ok assms(4,7,9,5,8,6)] show ?thesis unfolding assms(3) len .
qed

theorem same_level_components_are_independent_witness:
  "computeSCCLevels [[0, 1], [2]] sample_edges 3 ! 0 < computeSCCLevels [[0, 1], [2]] sample_edges 3 ! 1 \<and>
     computeSCCLevels [[0, 1], [2]] sample_edges 3 = [0, 1]"
proof -
  have "computeTopologicalSCCOrder (length sample_functions) sample_edges = Some [[0, 1], [2]]" by code_simp
  moreover have "(2, 0) \<in> module_edges sample_edges" by (simp add: sample_edges module_edges_def)
  moreover have "sample_edges = buildSingleDefFilteredEdges (length sample_functions)
      [[''g''], [''f''], [''f'']] (buildDefinedBy sample_functions)"
    by (rule sample_edges_def)
  moreover have "computeSCCLevels [[0, 1], [2]] sample_edges 3 = [0, 1]" by code_simp
  ultimately show ?thesis
    using same_level_components_are_independent [of sample_edges sample_functions _ "[[0, 1], [2]]" _ 1 0 2 0]
    by (simp add: sample_functions_def)
qed

end
