(* ===== verification/CrossTU.thy ===== *)
theory CrossTU
  imports ModuleGraph
begin

text \<open>
  Summaries across input files (\<open>src/app/AnalyzerApp.cpp\<close>). The summary index of every file is
  computed under the index of all files, component by component of the file graph and level by
  level; a component with a cycle is iterated until its summaries repeat or a cap is reached.
  The loop is written once over a record of index operations, because the program has it twice:
  for uninitialized reads and for resources. \<open>build m G\<close> stands for the analysis of file \<open>m\<close>
  under the global index \<open>G\<close>. Main result: without name clashes between files, a run that
  reaches no cap ends with an index under which every file reproduces its own summary.
\<close>

section \<open>The loop\<close>

record 'i index_ops =
  io_empty :: 'i
  io_merge :: "'i \<Rightarrow> 'i \<Rightarrow> 'i"
  io_equals :: "'i \<Rightarrow> 'i \<Rightarrow> bool"
  io_changed :: "'i \<Rightarrow> 'i \<Rightarrow> string set"

text \<open>\<open>globalIndex\<close>, \<open>moduleSummaries\<close> and the components reported to have reached the cap.\<close>

record 'i cross_tu =
  ct_global :: 'i
  ct_summaries :: "'i list"
  ct_capped :: "nat list list"

definition mergeModules :: "'i index_ops \<Rightarrow> 'i list \<Rightarrow> nat list \<Rightarrow> 'i \<Rightarrow> 'i" where
  "mergeModules ops summaries ms g = fold (\<lambda>m g. io_merge ops g (summaries ! m)) ms g"

definition buildModules :: "(nat \<Rightarrow> 'i \<Rightarrow> 'i) \<Rightarrow> 'i \<Rightarrow> nat list \<Rightarrow> 'i list \<Rightarrow> 'i list" where
  "buildModules build g ms summaries = fold (\<lambda>m s. s[m := build m g]) ms summaries"

definition copyModules :: "'i list \<Rightarrow> nat list \<Rightarrow> 'i list \<Rightarrow> 'i list" where
  "copyModules src ms dst = fold (\<lambda>m s. s[m := src ! m]) ms dst"

definition dirtyModules :: "(nat \<Rightarrow> string list) \<Rightarrow> bool \<Rightarrow> string set \<Rightarrow> nat list \<Rightarrow> nat list" where
  "dirtyModules calls firstIteration changed scc =
     (if firstIteration then scc else filter (\<lambda>m. list_ex (\<lambda>c. c \<in> changed) (calls m)) scc)"

text \<open>The iterations of one cyclic component; the flag says that they converged.\<close>

fun iterateSCC ::
    "'i index_ops \<Rightarrow> (nat \<Rightarrow> 'i \<Rightarrow> 'i) \<Rightarrow> (nat \<Rightarrow> string list) \<Rightarrow> nat list \<Rightarrow>
     nat \<Rightarrow> bool \<Rightarrow> 'i list \<Rightarrow> string set \<Rightarrow> 'i cross_tu \<Rightarrow> bool \<times> 'i cross_tu" where
  "iterateSCC ops build calls scc 0 first prev changed st = (False, st)"
| "iterateSCC ops build calls scc (Suc n) first prev changed st =
     (let dirty = dirtyModules calls first changed scc;
          clean = filter (\<lambda>m. m \<notin> set dirty) scc;
          sums = buildModules build (ct_global st) dirty (copyModules prev clean (ct_summaries st));
          sccMerged = mergeModules ops sums scc (io_empty ops);
          prevSccMerged = mergeModules ops prev scc (io_empty ops);
          changed' = io_changed ops prevSccMerged sccMerged;
          prev' = copyModules sums scc prev;
          st' = st\<lparr>ct_summaries := sums\<rparr>
      in if io_equals ops sccMerged prevSccMerged then (True, st')
         else iterateSCC ops build calls scc n False prev' changed'
                (st'\<lparr>ct_global := mergeModules ops sums scc (ct_global st)\<rparr>))"

definition kCrossTUMaxIterations :: nat where
  "kCrossTUMaxIterations = 12"

definition processCyclicSCC ::
    "'i index_ops \<Rightarrow> (nat \<Rightarrow> 'i \<Rightarrow> 'i) \<Rightarrow> (nat \<Rightarrow> string list) \<Rightarrow> nat list \<Rightarrow> 'i cross_tu \<Rightarrow> 'i cross_tu" where
  "processCyclicSCC ops build calls scc st =
     (case iterateSCC ops build calls scc kCrossTUMaxIterations True
             (replicate (length (ct_summaries st)) (io_empty ops)) {} st of
        (sccConverged, st') \<Rightarrow>
          let st'' = (if sccConverged then st' else st'\<lparr>ct_capped := ct_capped st' @ [scc]\<rparr>)
          in st''\<lparr>ct_global := mergeModules ops (ct_summaries st'') scc (ct_global st'')\<rparr>)"

definition processTrivialModules ::
    "'i index_ops \<Rightarrow> (nat \<Rightarrow> 'i \<Rightarrow> 'i) \<Rightarrow> nat list \<Rightarrow> 'i cross_tu \<Rightarrow> 'i cross_tu" where
  "processTrivialModules ops build ms st =
     (let sums = buildModules build (ct_global st) ms (ct_summaries st)
      in st\<lparr>ct_summaries := sums, ct_global := mergeModules ops sums ms (ct_global st)\<rparr>)"

text \<open>One level: its trivial components together, then the cyclic ones by their first file.\<close>

definition trivialModules :: "nat list list \<Rightarrow> nat list list \<Rightarrow> nat list \<Rightarrow> nat list" where
  "trivialModules filteredEdges sccOrder levelGroup =
     map hd (filter (isTrivialSCC filteredEdges) (map ((!) sccOrder) levelGroup))"

definition cyclicSCCs :: "nat list list \<Rightarrow> nat list list \<Rightarrow> nat list \<Rightarrow> nat list list" where
  "cyclicSCCs filteredEdges sccOrder levelGroup =
     sort_key hd (filter (\<lambda>c. \<not> isTrivialSCC filteredEdges c) (map ((!) sccOrder) levelGroup))"

definition processLevel ::
    "'i index_ops \<Rightarrow> (nat \<Rightarrow> 'i \<Rightarrow> 'i) \<Rightarrow> (nat \<Rightarrow> string list) \<Rightarrow> nat list list \<Rightarrow> nat list list \<Rightarrow>
     nat list \<Rightarrow> 'i cross_tu \<Rightarrow> 'i cross_tu" where
  "processLevel ops build calls filteredEdges sccOrder levelGroup st =
     (if levelGroup = [] then st
      else fold (processCyclicSCC ops build calls) (cyclicSCCs filteredEdges sccOrder levelGroup)
             (processTrivialModules ops build (trivialModules filteredEdges sccOrder levelGroup) st))"

definition startCrossTU :: "'i index_ops \<Rightarrow> nat \<Rightarrow> 'i cross_tu" where
  "startCrossTU ops N = \<lparr>ct_global = io_empty ops, ct_summaries = replicate N (io_empty ops), ct_capped = []\<rparr>"

definition processLevels ::
    "'i index_ops \<Rightarrow> (nat \<Rightarrow> 'i \<Rightarrow> 'i) \<Rightarrow> (nat \<Rightarrow> string list) \<Rightarrow> nat list list \<Rightarrow> nat list list \<Rightarrow>
     'i cross_tu \<Rightarrow> 'i cross_tu" where
  "processLevels ops build calls filteredEdges sccOrder st =
     fold (processLevel ops build calls filteredEdges sccOrder)
       (levelGroups (computeSCCLevels sccOrder filteredEdges (length filteredEdges))) st"

text \<open>
  What the loops read of the input files: their functions with a flag for declarations, and
  the canonical names they call.
\<close>

definition filteredCalleeNames :: "(string \<Rightarrow> nat list) \<Rightarrow> string list list \<Rightarrow> nat \<Rightarrow> string list" where
  "filteredCalleeNames definedBy moduleCalleeNames m =
     filter (\<lambda>c. length (definedBy c) = 1) (moduleCalleeNames ! m)"

definition crossTULoop ::
    "'i index_ops \<Rightarrow> (nat \<Rightarrow> 'i \<Rightarrow> 'i) \<Rightarrow> (string \<times> bool) list list \<Rightarrow> string list list \<Rightarrow> 'i cross_tu option" where
  "crossTULoop ops build moduleFunctions moduleCalleeNames =
     (let N = length moduleFunctions;
          definedBy = buildDefinedBy moduleFunctions;
          filteredEdges = buildSingleDefFilteredEdges N moduleCalleeNames definedBy
      in map_option (\<lambda>sccOrder. processLevels ops build (filteredCalleeNames definedBy moduleCalleeNames)
                                  filteredEdges sccOrder (startCrossTU ops N))
           (computeTopologicalSCCOrder N filteredEdges))"

section \<open>The contract of the index operations\<close>

text \<open>
  What the loop relies on: an index maps names to entries, an entry stands for a set of facts,
  merging unites the facts and leaves an entry alone that gains none, and the comparisons of
  indices see every fact.
\<close>

locale summary_indices =
  fixes ops :: "'i index_ops" and ok :: "'i \<Rightarrow> bool"
    and entry :: "'i \<Rightarrow> string \<Rightarrow> 'v option" and facts :: "'i \<Rightarrow> string \<Rightarrow> 'e set"
  assumes ok_empty: "ok (io_empty ops)"
    and facts_empty: "facts (io_empty ops) n = {}"
    and ok_merge: "ok a \<Longrightarrow> ok b \<Longrightarrow> ok (io_merge ops a b)"
    and facts_merge: "ok a \<Longrightarrow> ok b \<Longrightarrow> facts (io_merge ops a b) n = facts a n \<union> facts b n"
    and merge_absorbs: "ok a \<Longrightarrow> ok b \<Longrightarrow> facts b n \<subseteq> facts a n \<Longrightarrow> entry (io_merge ops a b) n = entry a n"
    and equals_facts: "ok a \<Longrightarrow> ok b \<Longrightarrow> io_equals ops a b \<Longrightarrow> facts a n = facts b n"
    and changed_facts: "ok a \<Longrightarrow> ok b \<Longrightarrow> n \<notin> io_changed ops a b \<Longrightarrow> facts a n = facts b n"

text \<open>
  What the loop relies on in the analysis of a file: it exports facts on the names \<open>exports m\<close>
  only, and looks up the names \<open>reads m\<close> only.
\<close>

definition local_build ::
    "('i \<Rightarrow> bool) \<Rightarrow> ('i \<Rightarrow> string \<Rightarrow> 'v option) \<Rightarrow> ('i \<Rightarrow> string \<Rightarrow> 'e set) \<Rightarrow> nat \<Rightarrow>
     (nat \<Rightarrow> 'i \<Rightarrow> 'i) \<Rightarrow> (nat \<Rightarrow> string set) \<Rightarrow> (nat \<Rightarrow> string set) \<Rightarrow> bool" where
  "local_build ok entry facts N build reads exports \<longleftrightarrow>
     (\<forall>m < N. \<forall>g. ok g \<longrightarrow> ok (build m g) \<and> (\<forall>n. n \<notin> exports m \<longrightarrow> facts (build m g) n = {}) \<and>
        (\<forall>g'. ok g' \<longrightarrow> (\<forall>n \<in> reads m. entry g n = entry g' n) \<longrightarrow> build m g = build m g'))"

text \<open>The files of \<open>P\<close> reproduce their summaries under the global index, unless a cap was reached.\<close>

definition tu_ok :: "('i \<Rightarrow> bool) \<Rightarrow> nat \<Rightarrow> 'i cross_tu \<Rightarrow> bool" where
  "tu_ok ok N st \<longleftrightarrow> length (ct_summaries st) = N \<and> ok (ct_global st) \<and> (\<forall>s \<in> set (ct_summaries st). ok s)"

definition reproduced ::
    "('i \<Rightarrow> string \<Rightarrow> 'e set) \<Rightarrow> (nat \<Rightarrow> 'i \<Rightarrow> 'i) \<Rightarrow> nat set \<Rightarrow> 'i cross_tu \<Rightarrow> bool" where
  "reproduced facts build P st \<longleftrightarrow>
     (ct_capped st = [] \<longrightarrow>
       (\<forall>m \<in> P. ct_summaries st ! m = build m (ct_global st) \<and>
          (\<forall>n. facts (ct_summaries st ! m) n \<subseteq> facts (ct_global st) n)))"

lemma local_buildD:
  assumes "local_build ok entry facts N build reads exports" and "m < N" and "ok g"
  shows "ok (build m g)" and "n \<notin> exports m \<Longrightarrow> facts (build m g) n = {}"
    and "ok g' \<Longrightarrow> (\<And>n. n \<in> reads m \<Longrightarrow> entry g n = entry g' n) \<Longrightarrow> build m g = build m g'"
  using assms unfolding local_build_def by metis+

lemma buildModules_length [simp]: "length (buildModules build g ms s) = length s"
  by (induction ms arbitrary: s) (auto simp: buildModules_def)

lemma copyModules_length [simp]: "length (copyModules src ms s) = length s"
  by (induction ms arbitrary: s) (auto simp: copyModules_def)

lemma buildModules_nth:
  "m < length s \<Longrightarrow> buildModules build g ms s ! m = (if m \<in> set ms then build m g else s ! m)"
  by (induction ms arbitrary: s) (auto simp: buildModules_def nth_list_update)

lemma copyModules_nth:
  "m < length s \<Longrightarrow> copyModules src ms s ! m = (if m \<in> set ms then src ! m else s ! m)"
  by (induction ms arbitrary: s) (auto simp: copyModules_def nth_list_update)

lemma list_ok_iff: "(\<forall>x \<in> set xs. P x) \<longleftrightarrow> (\<forall>i < length xs. P (xs ! i))"
  by (metis in_set_conv_nth)

lemma set_dirtyModules: "set (dirtyModules calls first changed scc) \<subseteq> set scc"
  by (auto simp: dirtyModules_def)

context summary_indices
begin

lemma mergeModules_ok:
  "ok g \<Longrightarrow> \<forall>m \<in> set ms. ok (s ! m) \<Longrightarrow>
     ok (mergeModules ops s ms g) \<and> facts (mergeModules ops s ms g) n = facts g n \<union> (\<Union>m \<in> set ms. facts (s ! m) n)"
proof (induction ms arbitrary: g)
  case (Cons m ms)
  have "mergeModules ops s (m # ms) g = mergeModules ops s ms (io_merge ops g (s ! m))"
    by (simp add: mergeModules_def)
  with Cons.IH [of "io_merge ops g (s ! m)"] Cons.prems show ?case
    by (auto simp: ok_merge facts_merge)
qed (simp add: mergeModules_def)

lemma mergeModules_absorbs:
  "ok g \<Longrightarrow> \<forall>m \<in> set ms. ok (s ! m) \<and> facts (s ! m) n \<subseteq> facts g n \<Longrightarrow>
     entry (mergeModules ops s ms g) n = entry g n"
proof (induction ms arbitrary: g)
  case (Cons m ms)
  let ?g = "io_merge ops g (s ! m)"
  have "mergeModules ops s (m # ms) g = mergeModules ops s ms ?g" by (simp add: mergeModules_def)
  moreover have "ok ?g" "facts ?g n = facts g n" "entry ?g n = entry g n"
    using Cons.prems by (auto simp: ok_merge facts_merge merge_absorbs)
  ultimately show ?case using Cons.IH [of ?g] Cons.prems(2) by simp
qed (simp add: mergeModules_def)

text \<open>A batch of files that do not read each other's names.\<close>

lemma trivial_reproduced:
  assumes b: "local_build ok entry facts N build reads exports"
    and st: "tu_ok ok N st" and s: "reproduced facts build P st"
    and B: "set B \<subseteq> {..<N}" and P: "P \<subseteq> {..<N}"
    and indep: "\<And>m j. m \<in> P \<union> set B \<Longrightarrow> j \<in> set B \<Longrightarrow> reads m \<inter> exports j = {}"
  shows "tu_ok ok N (processTrivialModules ops build B st)"
    and "reproduced facts build (P \<union> set B) (processTrivialModules ops build B st)"
    and "ct_capped (processTrivialModules ops build B st) = ct_capped st"
proof -
  let ?g = "ct_global st" and ?st = "processTrivialModules ops build B st"
  let ?s = "buildModules build ?g B (ct_summaries st)"
  have okg: "ok ?g" and len: "length (ct_summaries st) = N" and oks: "\<And>m. m < N \<Longrightarrow> ok (ct_summaries st ! m)"
    using st by (auto simp: tu_ok_def)
  have st': "ct_summaries ?st = ?s" "ct_global ?st = mergeModules ops ?s B ?g"
    by (simp_all add: processTrivialModules_def Let_def)
  show capped: "ct_capped ?st = ct_capped st" by (simp add: processTrivialModules_def Let_def)
  have nth: "?s ! m = (if m \<in> set B then build m ?g else ct_summaries st ! m)" if "m < N" for m
    using that len by (simp add: buildModules_nth)
  have okb: "ok (build m ?g)" if "m < N" for m by (rule local_buildD(1) [OF b that okg])
  have ok': "ok (?s ! m)" if "m < N" for m using nth [OF that] okb oks that by simp
  have m: "ok (ct_global ?st)" "\<And>n. facts (ct_global ?st) n = facts ?g n \<union> (\<Union>m \<in> set B. facts (?s ! m) n)"
    unfolding st' using mergeModules_ok [OF okg, of B ?s] B ok' by auto
  show "tu_ok ok N ?st" unfolding tu_ok_def list_ok_iff using m(1) ok' len by (simp add: st')
  show "reproduced facts build (P \<union> set B) ?st"
    unfolding reproduced_def capped
  proof (intro impI ballI)
    fix m assume cap: "ct_capped st = []" and mP: "m \<in> P \<union> set B"
    have mN: "m < N" using mP B P by auto
    have "entry (ct_global ?st) n = entry ?g n" if n: "n \<in> reads m" for n
    proof -
      have "facts (?s ! j) n = {}" if j: "j \<in> set B" for j
      proof -
        have "j < N" "n \<notin> exports j" using j B indep [OF mP j] n by auto
        then show ?thesis using nth [of j] j local_buildD(2) [OF b _ okg] by simp
      qed
      then show ?thesis unfolding st' using B ok' okg by (intro mergeModules_absorbs) auto
    qed
    then have "build m (ct_global ?st) = build m ?g"
      by (intro local_buildD(3) [OF b mN m(1) okg])
    moreover have old: "ct_summaries st ! m = build m ?g \<and> (\<forall>n. facts (build m ?g) n \<subseteq> facts ?g n)" if "m \<in> P"
      using s cap that unfolding reproduced_def by metis
    have sum: "?s ! m = build m ?g" using nth [OF mN] old mP by auto
    have "facts (build m ?g) n \<subseteq> facts (ct_global ?st) n" for n
    proof (cases "m \<in> set B")
      case True
      then show ?thesis unfolding m(2) sum [symmetric] by blast
    next
      case False
      then show ?thesis using old mP unfolding m(2) by blast
    qed
    moreover have "ct_summaries ?st ! m = build m ?g" unfolding st'(1) by (rule sum)
    ultimately show "ct_summaries ?st ! m = build m (ct_global ?st) \<and>
        (\<forall>n. facts (ct_summaries ?st ! m) n \<subseteq> facts (ct_global ?st) n)" by simp
  qed
qed

end

text \<open>What one iteration of a cyclic component may assume of the one before.\<close>

definition scc_prev ::
    "('i \<Rightarrow> bool) \<Rightarrow> ('i \<Rightarrow> string \<Rightarrow> 'v option) \<Rightarrow> ('i \<Rightarrow> string \<Rightarrow> 'e set) \<Rightarrow> (nat \<Rightarrow> 'i \<Rightarrow> 'i) \<Rightarrow>
     (nat \<Rightarrow> string set) \<Rightarrow> nat list \<Rightarrow> bool \<Rightarrow> 'i list \<Rightarrow> string set \<Rightarrow> 'i \<Rightarrow> bool" where
  "scc_prev ok entry facts build exports scc first prev changed g \<longleftrightarrow>
     (\<forall>m \<in> set scc. ok (prev ! m) \<and> (\<forall>n. facts (prev ! m) n \<subseteq> facts g n)) \<and>
     (\<not> first \<longrightarrow> (\<exists>g0. ok g0 \<and> (\<forall>m \<in> set scc. prev ! m = build m g0) \<and>
        (\<forall>n. n \<notin> changed \<or> (\<forall>j \<in> set scc. n \<notin> exports j) \<longrightarrow> entry g n = entry g0 n)))"

text \<open>What the iterations establish; only the files of the component change.\<close>

definition scc_result ::
    "('i \<Rightarrow> bool) \<Rightarrow> ('i \<Rightarrow> string \<Rightarrow> 'v option) \<Rightarrow> ('i \<Rightarrow> string \<Rightarrow> 'e set) \<Rightarrow> nat \<Rightarrow> (nat \<Rightarrow> 'i \<Rightarrow> 'i) \<Rightarrow>
     (nat \<Rightarrow> string set) \<Rightarrow> nat list \<Rightarrow> 'i cross_tu \<Rightarrow> bool \<times> 'i cross_tu \<Rightarrow> bool" where
  "scc_result ok entry facts N build exports scc st r \<longleftrightarrow>
     tu_ok ok N (snd r) \<and> ct_capped (snd r) = ct_capped st \<and>
     (\<forall>m < N. m \<notin> set scc \<longrightarrow> ct_summaries (snd r) ! m = ct_summaries st ! m) \<and>
     (\<forall>n. facts (ct_global st) n \<subseteq> facts (ct_global (snd r)) n \<and>
        ((\<forall>j \<in> set scc. n \<notin> exports j) \<longrightarrow> entry (ct_global (snd r)) n = entry (ct_global st) n)) \<and>
     (\<forall>m \<in> set scc. \<forall>n. n \<notin> exports m \<longrightarrow> facts (ct_summaries (snd r) ! m) n = {} \<or> \<not> fst r) \<and>
     (fst r \<longrightarrow> (\<forall>m \<in> set scc. ct_summaries (snd r) ! m = build m (ct_global (snd r)) \<and>
        (\<forall>n. facts (ct_summaries (snd r) ! m) n \<subseteq> facts (ct_global (snd r)) n)))"

lemma scc_result_trans:
  assumes r: "scc_result ok entry facts N build exports scc st' r"
    and st': "ct_capped st' = ct_capped st"
      "\<And>m. m < N \<Longrightarrow> m \<notin> set scc \<Longrightarrow> ct_summaries st' ! m = ct_summaries st ! m"
      "\<And>n. facts (ct_global st) n \<subseteq> facts (ct_global st') n"
      "\<And>n. \<forall>j \<in> set scc. n \<notin> exports j \<Longrightarrow> entry (ct_global st') n = entry (ct_global st) n"
  shows "scc_result ok entry facts N build exports scc st r"
  unfolding scc_result_def
proof (intro conjI allI impI)
  fix n
  show "facts (ct_global st) n \<subseteq> facts (ct_global (snd r)) n"
    using r st'(3) [of n] unfolding scc_result_def by blast
  show "entry (ct_global (snd r)) n = entry (ct_global st) n" if "\<forall>j \<in> set scc. n \<notin> exports j"
    using r st'(4) [OF that] that unfolding scc_result_def by metis
next
  fix m assume "m < N" "m \<notin> set scc"
  with r st'(2) show "ct_summaries (snd r) ! m = ct_summaries st ! m" unfolding scc_result_def by metis
qed (use r st'(1) in \<open>(unfold scc_result_def, metis)+\<close>)

context summary_indices
begin

lemma iterate_settles:
  assumes b: "local_build ok entry facts N build reads exports" and scc: "set scc \<subseteq> {..<N}"
    and calls: "\<And>m n. m \<in> set scc \<Longrightarrow> n \<in> reads m \<Longrightarrow> n \<in> set (calls m) \<or> (\<forall>j \<in> set scc. n \<notin> exports j)"
  shows "tu_ok ok N st \<Longrightarrow> length prev = N \<Longrightarrow>
    scc_prev ok entry facts build exports scc first prev changed (ct_global st) \<Longrightarrow>
    scc_result ok entry facts N build exports scc st (iterateSCC ops build calls scc k first prev changed st)"
proof (induction k arbitrary: first prev changed st)
  case 0
  then show ?case by (simp add: scc_result_def)
next
  case (Suc k)
  let ?g = "ct_global st"
  define dirty where "dirty = dirtyModules calls first changed scc"
  define sums where "sums = buildModules build ?g dirty
    (copyModules prev (filter (\<lambda>m. m \<notin> set dirty) scc) (ct_summaries st))"
  define merged where "merged = mergeModules ops sums scc (io_empty ops)"
  define prevMerged where "prevMerged = mergeModules ops prev scc (io_empty ops)"
  define g' where "g' = mergeModules ops sums scc ?g"
  have okg: "ok ?g" and len: "length (ct_summaries st) = N" and oks: "\<And>m. m < N \<Longrightarrow> ok (ct_summaries st ! m)"
    using Suc.prems(1) by (auto simp: tu_ok_def)
  have okp: "\<forall>m \<in> set scc. ok (prev ! m)" and below: "\<forall>m \<in> set scc. \<forall>n. facts (prev ! m) n \<subseteq> facts ?g n"
    using Suc.prems(3) by (auto simp: scc_prev_def)
  have slen: "length sums = N" by (simp add: sums_def len)
  have inD: "set dirty \<subseteq> set scc" unfolding dirty_def by (rule set_dirtyModules)
  have nth: "sums ! m = (if m \<in> set dirty then build m ?g else if m \<in> set scc then prev ! m
      else ct_summaries st ! m)" if "m < N" for m
    using that len by (simp add: sums_def buildModules_nth copyModules_nth)
  have built: "sums ! m = build m ?g" if m: "m \<in> set scc" for m
  proof (cases "m \<in> set dirty")
    case False
    with m have nf: "\<not> first" and cl: "\<forall>c \<in> set (calls m). c \<notin> changed"
      by (auto simp: dirty_def dirtyModules_def list_ex_iff split: if_splits)
    then obtain g0 where g0: "ok g0" "\<forall>m \<in> set scc. prev ! m = build m g0"
      "\<forall>n. n \<notin> changed \<or> (\<forall>j \<in> set scc. n \<notin> exports j) \<longrightarrow> entry ?g n = entry g0 n"
      using Suc.prems(3) by (auto simp: scc_prev_def)
    have mN: "m < N" using m scc by auto
    have "build m ?g = build m g0"
      using cl calls [OF m] g0(3) by (intro local_buildD(3) [OF b mN okg g0(1)]) blast
    with False m g0(2) nth [OF mN] show ?thesis by simp
  qed (use nth inD scc m in auto)
  have ok': "ok (sums ! m)" if "m < N" for m
    using nth [OF that] built oks that okp local_buildD(1) [OF b that okg] by auto
  have noexp: "facts (sums ! m) n = {}" if "m \<in> set scc" "n \<notin> exports m" for m n
    using built [OF that(1)] local_buildD(2) [OF b _ okg that(2)] that(1) scc by auto
  have oksc: "\<forall>m \<in> set scc. ok (sums ! m)" using ok' scc by auto
  have merged: "ok merged" "\<And>n. facts merged n = (\<Union>m \<in> set scc. facts (sums ! m) n)"
    using mergeModules_ok [OF ok_empty oksc] by (simp_all add: merged_def facts_empty)
  have pm: "ok prevMerged" "\<And>n. facts prevMerged n = (\<Union>m \<in> set scc. facts (prev ! m) n)"
    using mergeModules_ok [OF ok_empty okp] by (simp_all add: prevMerged_def facts_empty)
  have pmg: "facts prevMerged n \<subseteq> facts ?g n" for n using below unfolding pm(2) by blast
  have g': "ok g'" "\<And>n. facts g' n = facts ?g n \<union> facts merged n"
    using mergeModules_ok [OF okg oksc] merged(2) by (simp_all add: g'_def)
  have keep: "entry g' n = entry ?g n" if "facts merged n \<subseteq> facts ?g n" for n
    unfolding g'_def using that oksc okg merged(2) by (intro mergeModules_absorbs) auto
  have none: "facts merged n = {}" if "\<forall>j \<in> set scc. n \<notin> exports j" for n
    using that noexp unfolding merged(2) by auto
  let ?st = "st\<lparr>ct_summaries := sums\<rparr>" and ?st' = "st\<lparr>ct_summaries := sums, ct_global := g'\<rparr>"
  have unroll: "iterateSCC ops build calls scc (Suc k) first prev changed st =
      (if io_equals ops merged prevMerged then (True, ?st)
       else iterateSCC ops build calls scc k False (copyModules sums scc prev)
              (io_changed ops prevMerged merged) ?st')"
    by (simp add: Let_def dirty_def [symmetric] sums_def [symmetric] merged_def [symmetric]
        prevMerged_def [symmetric] g'_def [symmetric])
  have others: "sums ! m = ct_summaries st ! m" if "m < N" "m \<notin> set scc" for m
    using nth [OF that(1)] that(2) inD by auto
  show ?case
  proof (cases "io_equals ops merged prevMerged")
    case True
    have "facts merged n \<subseteq> facts ?g n" for n
      using equals_facts [OF merged(1) pm(1) True] pmg by simp
    then have "facts (sums ! m) n \<subseteq> facts ?g n" if "m \<in> set scc" for m n
      using that unfolding merged(2) by blast
    then have "scc_result ok entry facts N build exports scc st (True, ?st)"
      using built others noexp ok' slen okg by (auto simp: scc_result_def tu_ok_def list_ok_iff)
    with True unroll show ?thesis by simp
  next
    case False
    have prev': "copyModules sums scc prev ! m = sums ! m" if "m \<in> set scc" for m
      using that scc Suc.prems(2) by (subst copyModules_nth) auto
    have "scc_prev ok entry facts build exports scc False (copyModules sums scc prev)
        (io_changed ops prevMerged merged) g'"
      unfolding scc_prev_def
    proof (intro conjI impI exI [of _ ?g] ballI allI)
      show "entry g' n = entry ?g n"
        if "n \<notin> io_changed ops prevMerged merged \<or> (\<forall>j \<in> set scc. n \<notin> exports j)" for n
        using that changed_facts [OF pm(1) merged(1), of n] pmg [of n] none [of n] by (intro keep) auto
    qed (use prev' oksc built okg g'(2) merged(2) in auto)
    moreover have "tu_ok ok N ?st'" using ok' slen g'(1) by (simp add: tu_ok_def list_ok_iff)
    ultimately have r: "scc_result ok entry facts N build exports scc ?st'
        (iterateSCC ops build calls scc (Suc k) first prev changed st)"
      using Suc.IH [of ?st'] Suc.prems(2) False unroll by simp
    have grow: "facts ?g n \<subseteq> facts g' n \<and> ((\<forall>j \<in> set scc. n \<notin> exports j) \<longrightarrow> entry g' n = entry ?g n)" for n
      using g'(2) keep [of n] none [of n] by auto
    show ?thesis by (rule scc_result_trans [OF r]) (use others grow in auto)
  qed
qed
end

context summary_indices
begin

lemma cyclic_reproduced:
  assumes b: "local_build ok entry facts N build reads exports" and scc: "set scc \<subseteq> {..<N}"
    and calls: "\<And>m n. m \<in> set scc \<Longrightarrow> n \<in> reads m \<Longrightarrow> n \<in> set (calls m) \<or> (\<forall>j \<in> set scc. n \<notin> exports j)"
    and st: "tu_ok ok N st" and s: "reproduced facts build P st" and P: "P \<subseteq> {..<N}" "P \<inter> set scc = {}"
    and indep: "\<And>m j. m \<in> P \<Longrightarrow> j \<in> set scc \<Longrightarrow> reads m \<inter> exports j = {}"
  shows "tu_ok ok N (processCyclicSCC ops build calls scc st)"
    and "reproduced facts build (P \<union> set scc) (processCyclicSCC ops build calls scc st)"
proof -
  let ?prev = "replicate (length (ct_summaries st)) (io_empty ops)"
  define r where "r = iterateSCC ops build calls scc kCrossTUMaxIterations True ?prev {} st"
  define st1 where "st1 = snd r"
  have len: "length (ct_summaries st) = N" using st by (simp add: tu_ok_def)
  have "?prev ! m = io_empty ops" if "m \<in> set scc" for m using that scc len by auto
  then have "scc_prev ok entry facts build exports scc True ?prev {} (ct_global st)"
    by (simp add: scc_prev_def ok_empty facts_empty)
  then have r: "scc_result ok entry facts N build exports scc st r"
    unfolding r_def using len by (intro iterate_settles [OF b scc calls st]) simp_all
  have st1: "tu_ok ok N st1" "ct_capped st1 = ct_capped st" using r unfolding scc_result_def st1_def by simp_all
  define g where "g = mergeModules ops (ct_summaries st1) scc (ct_global st1)"
  let ?st = "processCyclicSCC ops build calls scc st"
  have final: "ct_summaries ?st = ct_summaries st1" "ct_global ?st = g"
    "ct_capped ?st = (if fst r then ct_capped st else ct_capped st @ [scc])"
    using st1(2) unfolding processCyclicSCC_def r_def [symmetric] g_def st1_def
    by (simp_all add: split_beta Let_def)
  have okg1: "ok (ct_global st1)" and oks1: "\<forall>m \<in> set scc. ok (ct_summaries st1 ! m)"
    using st1(1) scc by (auto simp: tu_ok_def)
  have g: "ok g" "\<And>n. facts (ct_global st1) n \<subseteq> facts g n"
    using mergeModules_ok [OF okg1 oks1] by (auto simp: g_def)
  show "tu_ok ok N ?st" using st1(1) g(1) by (simp add: tu_ok_def final)
  show "reproduced facts build (P \<union> set scc) ?st"
    unfolding reproduced_def
  proof (intro impI ballI)
    fix m assume cap: "ct_capped ?st = []" and m: "m \<in> P \<union> set scc"
    then have conv: "fst r" and cap0: "ct_capped st = []" using final(3) by (auto split: if_splits)
    have fin: "ct_summaries st1 ! m = build m (ct_global st1) \<and>
        (\<forall>n. facts (ct_summaries st1 ! m) n \<subseteq> facts (ct_global st1) n)" if "m \<in> set scc" for m
      using r conv that unfolding scc_result_def st1_def by metis
    have same: "entry g n = entry (ct_global st1) n" for n
      unfolding g_def using okg1 oks1 fin by (intro mergeModules_absorbs) blast+
    have mN: "m < N" using m P(1) scc by auto
    have again: "build m g = build m (ct_global st1)"
      by (rule local_buildD(3) [OF b mN g(1) okg1 same])
    have "ct_summaries st1 ! m = build m (ct_global st1) \<and>
        (\<forall>n. facts (ct_summaries st1 ! m) n \<subseteq> facts (ct_global st1) n)"
    proof (cases "m \<in> set scc")
      case False
      with m have mP: "m \<in> P" by simp
      have keep: "ct_summaries st1 ! m = ct_summaries st ! m"
        using r mN False unfolding scc_result_def st1_def by metis
      have grow: "facts (ct_global st) n \<subseteq> facts (ct_global st1) n" for n
        using r unfolding scc_result_def st1_def by metis
      have "entry (ct_global st1) n = entry (ct_global st) n" if "n \<in> reads m" for n
      proof -
        have "\<forall>j \<in> set scc. n \<notin> exports j" using indep [OF mP] that by auto
        then show ?thesis using r unfolding scc_result_def st1_def by metis
      qed
      then have "build m (ct_global st1) = build m (ct_global st)"
        using st by (intro local_buildD(3) [OF b mN okg1]) (auto simp: tu_ok_def)
      moreover have "ct_summaries st ! m = build m (ct_global st)"
        "\<forall>n. facts (ct_summaries st ! m) n \<subseteq> facts (ct_global st) n"
        using s cap0 mP unfolding reproduced_def by metis+
      ultimately show ?thesis using keep grow by (metis subset_trans)
    qed (rule fin)
    with again g(2) show "ct_summaries ?st ! m = build m (ct_global ?st) \<and>
        (\<forall>n. facts (ct_summaries ?st ! m) n \<subseteq> facts (ct_global ?st) n)"
      unfolding final by (metis subset_trans)
  qed
qed

lemma cyclics_reproduced:
  assumes b: "local_build ok entry facts N build reads exports"
    and calls: "\<And>m j n. m < N \<Longrightarrow> j < N \<Longrightarrow> n \<in> reads m \<Longrightarrow> n \<in> exports j \<Longrightarrow> n \<in> set (calls m)"
  shows "tu_ok ok N st \<Longrightarrow> reproduced facts build P st \<Longrightarrow> P \<subseteq> {..<N} \<Longrightarrow>
    \<forall>c \<in> set cs. set c \<subseteq> {..<N} \<and> P \<inter> set c = {} \<and> (\<forall>m \<in> P. \<forall>j \<in> set c. reads m \<inter> exports j = {}) \<Longrightarrow>
    sorted_wrt (\<lambda>c d. set c \<inter> set d = {} \<and> (\<forall>m \<in> set c. \<forall>j \<in> set d. reads m \<inter> exports j = {})) cs \<Longrightarrow>
    tu_ok ok N (fold (processCyclicSCC ops build calls) cs st) \<and>
    reproduced facts build (P \<union> \<Union> (set ` set cs)) (fold (processCyclicSCC ops build calls) cs st)"
proof (induction cs arbitrary: st P)
  case (Cons c cs)
  have c: "set c \<subseteq> {..<N}" "P \<inter> set c = {}" "\<And>m j. m \<in> P \<Longrightarrow> j \<in> set c \<Longrightarrow> reads m \<inter> exports j = {}"
    using Cons.prems(4) by auto
  have cl: "n \<in> set (calls m) \<or> (\<forall>j \<in> set c. n \<notin> exports j)" if "m \<in> set c" "n \<in> reads m" for m n
    using calls [of m _ n] that c(1) by blast
  note step = cyclic_reproduced [where scc = c, OF b c(1) cl Cons.prems(1,2,3) c(2,3)]
  have "tu_ok ok N (fold (processCyclicSCC ops build calls) cs (processCyclicSCC ops build calls c st)) \<and>
      reproduced facts build ((P \<union> set c) \<union> \<Union> (set ` set cs))
        (fold (processCyclicSCC ops build calls) cs (processCyclicSCC ops build calls c st))"
  proof (rule Cons.IH)
    show "\<forall>d \<in> set cs. set d \<subseteq> {..<N} \<and> (P \<union> set c) \<inter> set d = {} \<and>
        (\<forall>m \<in> P \<union> set c. \<forall>j \<in> set d. reads m \<inter> exports j = {})"
    proof (intro ballI conjI)
      fix d assume d: "d \<in> set cs"
      have cd: "set c \<inter> set d = {}" "\<forall>m \<in> set c. \<forall>j \<in> set d. reads m \<inter> exports j = {}"
        using Cons.prems(5) d by simp_all
      have pd: "set d \<subseteq> {..<N}" "P \<inter> set d = {}" "\<forall>m \<in> P. \<forall>j \<in> set d. reads m \<inter> exports j = {}"
        using Cons.prems(4) d by simp_all
      show "set d \<subseteq> {..<N}" "(P \<union> set c) \<inter> set d = {}" using cd(1) pd(1,2) by blast+
      show "reads m \<inter> exports j = {}" if "m \<in> P \<union> set c" "j \<in> set d" for m j
        using cd(2) pd(3) that by blast
    qed
  qed (use step Cons.prems c in auto)
  then show ?case by (simp add: Un_assoc)
qed simp

end

lemma distinct_sorted_wrt:
  "distinct xs \<Longrightarrow> (\<And>x y. x \<in> set xs \<Longrightarrow> y \<in> set xs \<Longrightarrow> x \<noteq> y \<Longrightarrow> R x y) \<Longrightarrow> sorted_wrt R xs"
  by (induction xs) auto

text \<open>The files of the components below a level.\<close>

definition belowLevel :: "nat list list \<Rightarrow> nat list \<Rightarrow> nat \<Rightarrow> nat set" where
  "belowLevel order levels l = (\<Union>s \<in> {s. s < length order \<and> levels ! s < l}. set (order ! s))"

text \<open>What a level consists of.\<close>

lemma isTrivialSCC_iff: "isTrivialSCC graph c \<longleftrightarrow> (\<exists>m. c = [m] \<and> m \<notin> set (graph ! m))"
  by (auto simp: isTrivialSCC_def length_Suc_conv)

lemma set_trivialModules:
  "m \<in> set (trivialModules graph order g) \<longleftrightarrow> (\<exists>t \<in> set g. order ! t = [m] \<and> m \<notin> set (graph ! m))"
  by (force simp: trivialModules_def isTrivialSCC_iff)

lemma set_cyclicSCCs:
  "c \<in> set (cyclicSCCs graph order g) \<longleftrightarrow> (\<exists>t \<in> set g. order ! t = c \<and> \<not> isTrivialSCC graph c)"
  by (auto simp: cyclicSCCs_def)

lemma level_modules:
  "(\<Union>t \<in> set g. set (order ! t)) =
     set (trivialModules graph order g) \<union> \<Union> (set ` set (cyclicSCCs graph order g))"
proof (intro equalityI subsetI)
  fix x assume "x \<in> (\<Union>t \<in> set g. set (order ! t))"
  then obtain t where t: "t \<in> set g" "x \<in> set (order ! t)" by blast
  show "x \<in> set (trivialModules graph order g) \<union> \<Union> (set ` set (cyclicSCCs graph order g))"
  proof (cases "isTrivialSCC graph (order ! t)")
    case True
    then obtain m where "order ! t = [m]" "m \<notin> set (graph ! m)" by (auto simp: isTrivialSCC_iff)
    with t show ?thesis by (auto simp: set_trivialModules)
  next
    case False
    with t(1) have "order ! t \<in> set (cyclicSCCs graph order g)" unfolding set_cyclicSCCs by blast
    with t(2) show ?thesis by blast
  qed
next
  fix x assume "x \<in> set (trivialModules graph order g) \<union> \<Union> (set ` set (cyclicSCCs graph order g))"
  then consider "x \<in> set (trivialModules graph order g)"
    | c where "c \<in> set (cyclicSCCs graph order g)" "x \<in> set c" by blast
  then show "x \<in> (\<Union>t \<in> set g. set (order ! t))"
  proof cases
    case 1
    then obtain t where t: "t \<in> set g" "order ! t = [x]" unfolding set_trivialModules by blast
    then have "x \<in> set (order ! t)" by simp
    with t(1) show ?thesis by blast
  next
    case 2
    then show ?thesis unfolding set_cyclicSCCs by blast
  qed
qed

lemma cyclicSCCs_distinct:
  assumes order: "dependency_order graph order" and g: "distinct g" "set g \<subseteq> {..<length order}"
  shows "distinct (cyclicSCCs graph order g)"
proof -
  have dist: "distinct (concat order)" and ne: "\<And>c. c \<in> set order \<Longrightarrow> c \<noteq> []"
    using order by (simp_all add: dependency_order_def)
  have "inj_on ((!) order) (set g)"
  proof (rule inj_onI)
    fix x y assume xy: "x \<in> set g" "y \<in> set g" "order ! x = order ! y"
    then have x: "x < length order" "y < length order" using g(2) by auto
    have "order ! x \<noteq> []" using ne nth_mem [OF x(1)] by blast
    then obtain a where "a \<in> set (order ! x)" by (cases "order ! x") auto
    with concat_distinct_index [OF dist x(1,2)] xy(3) show "x = y" by simp
  qed
  then show ?thesis using g(1) by (simp add: cyclicSCCs_def distinct_map inj_on_subset)
qed

lemma computeSCCLevels_length:
  assumes "dependency_order graph order" and "graph_ok graph" and "length graph = N"
  shows "length (computeSCCLevels order graph N) = length order"
proof (cases order)
  case Nil
  then show ?thesis by (simp add: computeSCCLevels_def)
next
  case (Cons c cs)
  then show ?thesis using computeSCCLevels_eq(2) [OF assms(1,2), of 0] assms(3) by simp
qed

lemma order_index_bound:
  "dependency_order graph order \<Longrightarrow> t < length order \<Longrightarrow> m \<in> set (order ! t) \<Longrightarrow> m < length graph"
  using nth_mem [of t order] by (fastforce simp: dependency_order_def)

text \<open>Files read only names of files in lower levels or of their own component.\<close>

definition reads_follow_edges ::
    "nat list list \<Rightarrow> (nat \<Rightarrow> string set) \<Rightarrow> (nat \<Rightarrow> string set) \<Rightarrow> bool" where
  "reads_follow_edges graph reads exports \<longleftrightarrow>
     (\<forall>m < length graph. \<forall>j < length graph. reads m \<inter> exports j \<noteq> {} \<longrightarrow> (m, j) \<in> module_edges graph \<and> m \<noteq> j)"

lemma component_indep:
  assumes order: "dependency_order graph order" and ok: "graph_ok graph"
    and dep: "reads_follow_edges graph reads exports"
    and t: "t < length order" "m \<in> set (order ! t)" and u: "u < length order" "j \<in> set (order ! u)"
    and ne: "t \<noteq> u" and le: "computeSCCLevels order graph (length graph) ! t \<le> computeSCCLevels order graph (length graph) ! u"
  shows "reads m \<inter> exports j = {}"
proof (rule ccontr)
  assume "reads m \<inter> exports j \<noteq> {}"
  then have "(m, j) \<in> module_edges graph"
    using dep order_index_bound [OF order t] order_index_bound [OF order u] by (simp add: reads_follow_edges_def)
  from dependency_has_lower_level [OF order ok t this u ne] le show False by simp
qed

context summary_indices
begin

lemma level_reproduced:
  assumes b: "local_build ok entry facts N build reads exports"
    and calls: "\<And>m j n. m < N \<Longrightarrow> j < N \<Longrightarrow> n \<in> reads m \<Longrightarrow> n \<in> exports j \<Longrightarrow> n \<in> set (calls m)"
    and graph: "graph_ok graph" "length graph = N" and order: "dependency_order graph order"
    and dep: "reads_follow_edges graph reads exports"
  defines "L \<equiv> computeSCCLevels order graph N"
  defines "levelGroup l \<equiv> filter (\<lambda>s. L ! s = l) [0..<length L]"
  assumes st: "tu_ok ok N st" and s: "reproduced facts build (belowLevel order L l) st"
  shows "tu_ok ok N (processLevel ops build calls graph order (levelGroup l) st) \<and>
    reproduced facts build (belowLevel order L (Suc l)) (processLevel ops build calls graph order (levelGroup l) st)"
proof -
  have Llen: "length L = length order" unfolding L_def by (rule computeSCCLevels_length [OF order graph])
  have dist: "distinct (concat order)" using order by (simp add: dependency_order_def)
  have inN: "m < N" if "t < length order" "m \<in> set (order ! t)" for m t
    using order_index_bound [OF order that] graph(2) by simp
  have indep: "reads m \<inter> exports j = {}"
    if "t < length order" "u < length order" "m \<in> set (order ! t)" "j \<in> set (order ! u)" "t \<noteq> u" "L ! t \<le> L ! u"
    for m j t u
    using component_indep [OF order graph(1) dep that(1,3,2,4,5)] that(6) unfolding L_def graph(2) .
  have self: "reads m \<inter> exports m = {}" if "m < N" for m
    using dep that graph(2) unfolding reads_follow_edges_def by blast
  define B where "B = trivialModules graph order (levelGroup l)"
  define cs where "cs = cyclicSCCs graph order (levelGroup l)"
  let ?P = "belowLevel order L l"
  have lg: "t \<in> set (levelGroup l) \<longleftrightarrow> t < length order \<and> L ! t = l" for t by (auto simp: levelGroup_def Llen)
  have Bx: "\<exists>t. t < length order \<and> L ! t = l \<and> order ! t = [m]" if "m \<in> set B" for m
    using that lg unfolding B_def set_trivialModules by blast
  have csx: "\<exists>t. t < length order \<and> L ! t = l \<and> order ! t = c \<and> \<not> isTrivialSCC graph c" if "c \<in> set cs" for c
    using that lg unfolding cs_def set_cyclicSCCs by blast
  have Px: "\<exists>t. t < length order \<and> L ! t < l \<and> m \<in> set (order ! t)" if "m \<in> ?P" for m
    using that by (auto simp: belowLevel_def)
  have PN: "?P \<subseteq> {..<N}" using Px inN by blast
  have BN: "set B \<subseteq> {..<N}" using Bx inN by fastforce
  have Bself: "reads m \<inter> exports j = {}" if m: "m \<in> ?P \<union> set B" and j: "j \<in> set B" for m j
  proof -
    obtain u where u: "u < length order" "L ! u = l" "order ! u = [j]" using Bx [OF j] by blast
    obtain t where t: "t < length order" "L ! t \<le> l" "m \<in> set (order ! t)" using m Px Bx by fastforce
    show ?thesis
    proof (cases "m = j")
      case True
      then show ?thesis using self inN [OF t(1,3)] by simp
    next
      case False
      then have "t \<noteq> u" using t(3) u(3) by auto
      with indep [OF t(1) u(1) t(3)] u t(2) show ?thesis by simp
    qed
  qed
  note triv = trivial_reproduced [OF b st s BN PN Bself]
  have dcs: "distinct cs"
    unfolding cs_def using lg by (intro cyclicSCCs_distinct [OF order]) (auto simp: levelGroup_def)
  have sep: "set c \<inter> set d = {} \<and> (\<forall>m \<in> set c. \<forall>j \<in> set d. reads m \<inter> exports j = {})"
    if cd: "c \<in> set cs" "d \<in> set cs" "c \<noteq> d" for c d
  proof -
    obtain t u where t: "t < length order" "L ! t = l" "order ! t = c" and u: "u < length order" "L ! u = l" "order ! u = d"
      using csx [OF cd(1)] csx [OF cd(2)] by metis
    have tu: "t \<noteq> u" using cd(3) t(3) u(3) by auto
    then show ?thesis
      using concat_distinct_index [OF dist t(1) u(1)] indep [OF t(1) u(1)] t u by (metis disjoint_iff order_refl)
  qed
  have cyc: "\<forall>c \<in> set cs. set c \<subseteq> {..<N} \<and> (?P \<union> set B) \<inter> set c = {} \<and>
      (\<forall>m \<in> ?P \<union> set B. \<forall>j \<in> set c. reads m \<inter> exports j = {})"
  proof
    fix c assume c: "c \<in> set cs"
    obtain u where u: "u < length order" "L ! u = l" "order ! u = c" "\<not> isTrivialSCC graph c" using csx [OF c] by metis
    have pb: "\<exists>t. t < length order \<and> L ! t \<le> l \<and> m \<in> set (order ! t) \<and> t \<noteq> u" if "m \<in> ?P \<union> set B" for m
    proof (cases "m \<in> ?P")
      case True
      then obtain t where "t < length order" "L ! t < l" "m \<in> set (order ! t)" using Px by blast
      with u show ?thesis by (intro exI [of _ t]) auto
    next
      case False
      with that obtain t where t: "t < length order" "L ! t = l" "order ! t = [m]" using Bx by blast
      have "t \<noteq> u"
      proof
        assume "t = u"
        moreover have "m \<notin> set (graph ! m)" 
        proof -
          have "m \<in> set B" using that False by simp
          then show ?thesis unfolding B_def set_trivialModules by blast
        qed
        ultimately show False using t(3) u(3,4) unfolding isTrivialSCC_iff by auto
      qed
      with t show ?thesis by (intro exI [of _ t]) auto
    qed
    show "set c \<subseteq> {..<N} \<and> (?P \<union> set B) \<inter> set c = {} \<and>
        (\<forall>m \<in> ?P \<union> set B. \<forall>j \<in> set c. reads m \<inter> exports j = {})"
    proof (intro conjI ballI)
      show "set c \<subseteq> {..<N}" using inN u by auto
      show "(?P \<union> set B) \<inter> set c = {}" using pb concat_distinct_index [OF dist] u(1,3) by (metis disjoint_iff)
      show "reads m \<inter> exports j = {}" if "m \<in> ?P \<union> set B" "j \<in> set c" for m j
        using pb [OF that(1)] indep u that(2) by metis
    qed
  qed
  have PBN: "?P \<union> set B \<subseteq> {..<N}" using PN BN by blast
  have r: "tu_ok ok N (fold (processCyclicSCC ops build calls) cs (processTrivialModules ops build B st)) \<and>
      reproduced facts build ((?P \<union> set B) \<union> \<Union> (set ` set cs))
        (fold (processCyclicSCC ops build calls) cs (processTrivialModules ops build B st))"
    using cyclics_reproduced [where calls = calls, OF b calls triv(1,2) PBN cyc distinct_sorted_wrt [OF dcs sep]] .
  have "belowLevel order L (Suc l) = (?P \<union> set B) \<union> \<Union> (set ` set cs)"
  proof -
    have "{t. t < length order \<and> L ! t < Suc l} = {t. t < length order \<and> L ! t < l} \<union> set (levelGroup l)"
      using lg by (auto simp: less_Suc_eq)
    then have "belowLevel order L (Suc l) = ?P \<union> (\<Union>t \<in> set (levelGroup l). set (order ! t))"
      by (auto simp: belowLevel_def)
    then show ?thesis unfolding level_modules [of order "levelGroup l" graph] B_def cs_def by (simp add: Un_assoc)
  qed
  moreover have "processLevel ops build calls graph order (levelGroup l) st =
      fold (processCyclicSCC ops build calls) cs (processTrivialModules ops build B st)"
  proof (cases "levelGroup l = []")
    case True
    then show ?thesis
      by (simp add: processLevel_def cs_def B_def cyclicSCCs_def trivialModules_def processTrivialModules_def
          buildModules_def mergeModules_def)
  qed (simp add: processLevel_def cs_def B_def)
  ultimately show ?thesis using r by simp
qed

end

text \<open>
  Files look up exported names only of other files, by names they call, that have a single
  definition: what \<open>buildSingleDefFilteredEdges\<close> takes for granted.
\<close>

definition single_definitions ::
    "(string \<times> bool) list list \<Rightarrow> string list list \<Rightarrow> (nat \<Rightarrow> string set) \<Rightarrow> (nat \<Rightarrow> string set) \<Rightarrow> bool" where
  "single_definitions moduleFunctions moduleCalleeNames reads exports \<longleftrightarrow>
     (\<forall>m < length moduleFunctions. \<forall>j < length moduleFunctions. \<forall>n \<in> reads m \<inter> exports j.
        n \<in> set (moduleCalleeNames ! m) \<and> buildDefinedBy moduleFunctions n = [j] \<and> j \<noteq> m)"

lemma single_definitions_edges:
  assumes "single_definitions fs names reads exports"
  shows "reads_follow_edges (buildSingleDefFilteredEdges (length fs) names (buildDefinedBy fs)) reads exports"
  unfolding reads_follow_edges_def edges_length single_def_edges
proof (intro allI impI conjI)
  fix m j assume mj: "m < length fs" "j < length fs" "reads m \<inter> exports j \<noteq> {}"
  then obtain n where "n \<in> reads m \<inter> exports j" by blast
  with assms mj have n: "n \<in> set (names ! m)" "buildDefinedBy fs n = [j]" "j \<noteq> m"
    unfolding single_definitions_def by blast+
  then show "m < length fs" "j \<noteq> m" "\<exists>n \<in> set (names ! m). buildDefinedBy fs n = [j]" "m \<noteq> j" using mj by auto
qed

lemma belowLevel_all:
  assumes order: "dependency_order graph order" and len: "length L = length order"
  shows "belowLevel order L (Suc (fold max L 0)) = {..<length graph}"
proof -
  have "L ! s \<le> fold max L 0" if "s < length order" for s
    using fold_max_le nth_mem that len by metis
  then have "{s. s < length order \<and> L ! s < Suc (fold max L 0)} = {..<length order}"
    by (auto simp: less_Suc_eq_le)
  moreover have "set order = (!) order ` {..<length order}"
    by (metis atLeast_upt list.set_map map_nth)
  then have "(\<Union>s \<in> {..<length order}. set (order ! s)) = set (concat order)" by simp
  ultimately show ?thesis using order unfolding belowLevel_def dependency_order_def by simp
qed

context summary_indices
begin

lemma levels_reproduced:
  assumes b: "local_build ok entry facts N build reads exports"
    and calls: "\<And>m j n. m < N \<Longrightarrow> j < N \<Longrightarrow> n \<in> reads m \<Longrightarrow> n \<in> exports j \<Longrightarrow> n \<in> set (calls m)"
    and graph: "graph_ok graph" "length graph = N" and order: "dependency_order graph order"
    and dep: "reads_follow_edges graph reads exports"
  shows "tu_ok ok N (processLevels ops build calls graph order (startCrossTU ops N)) \<and>
    reproduced facts build {..<N} (processLevels ops build calls graph order (startCrossTU ops N))"
proof -
  let ?L = "computeSCCLevels order graph N"
  let ?g = "\<lambda>l. filter (\<lambda>s. ?L ! s = l) [0..<length ?L]"
  let ?st = "\<lambda>k. fold (processLevel ops build calls graph order) (map ?g [0..<k]) (startCrossTU ops N)"
  have "tu_ok ok N (?st k) \<and> reproduced facts build (belowLevel order ?L k) (?st k)" for k
  proof (induction k)
    case 0
    show ?case by (simp add: reproduced_def belowLevel_def startCrossTU_def tu_ok_def ok_empty)
  next
    case (Suc k)
    then have st: "tu_ok ok N (?st k)" and s: "reproduced facts build (belowLevel order ?L k) (?st k)" by auto
    have "?st (Suc k) = processLevel ops build calls graph order (?g k) (?st k)" by simp
    with level_reproduced [OF b calls graph order dep st s] show ?case by simp
  qed
  from this [of "Suc (fold max ?L 0)"] show ?thesis
    unfolding belowLevel_all [OF order computeSCCLevels_length [OF order graph]]
    using graph(2) by (simp add: processLevels_def levelGroups_def del: upt_Suc)
qed

lemma loop_settles:
  assumes b: "local_build ok entry facts (length fs) build reads exports"
    and single: "single_definitions fs names reads exports"
  shows "\<exists>st. crossTULoop ops build fs names = Some st \<and> tu_ok ok (length fs) st \<and>
    reproduced facts build {..<length fs} st"
proof -
  let ?N = "length fs" and ?d = "buildDefinedBy fs"
  let ?graph = "buildSingleDefFilteredEdges ?N names ?d"
  have ok: "graph_ok ?graph" by (rule edges_ok [OF definedBy_bound])
  obtain order where order: "computeTopologicalSCCOrder ?N ?graph = Some order" "dependency_order ?graph order"
    using computeTopologicalSCCOrder_correct [OF ok] by auto
  have calls: "n \<in> set (filteredCalleeNames ?d names m)"
    if "m < ?N" "j < ?N" "n \<in> reads m" "n \<in> exports j" for m j n
  proof -
    have "n \<in> reads m \<inter> exports j" using that by simp
    then have "n \<in> set (names ! m)" "?d n = [j]" using single that unfolding single_definitions_def by blast+
    then show ?thesis by (simp add: filteredCalleeNames_def)
  qed
  have "tu_ok ok ?N (processLevels ops build (filteredCalleeNames ?d names) ?graph order (startCrossTU ops ?N)) \<and>
      reproduced facts build {..<?N} (processLevels ops build (filteredCalleeNames ?d names) ?graph order (startCrossTU ops ?N))"
    by (rule levels_reproduced [OF b calls ok _ order(2) single_definitions_edges [OF single]]) simp_all
  then show ?thesis unfolding crossTULoop_def Let_def order(1) by simp
qed

end

end
