(* ===== verification/CrossTUUninit.thy ===== *)
theory CrossTUUninit
  imports CrossTU UninitSummary
begin

text \<open>
  The cross-file loop on the summaries of uninitialized reads
  (\<open>buildCrossTUUninitializedSummaryIndex\<close> of \<open>src/app/AnalyzerApp.cpp\<close>): the index operations of
  UninitSummary satisfy the contract of the loop, and the analysis of a file is local when the
  analysis of a function looks up a fixed set of names. Main results: without name clashes the
  final index reproduces every summary, and a static function with the name of an exported one
  breaks that.
\<close>

section \<open>The index of uninitialized reads\<close>

definition uninitOps :: "summary_index index_ops" where
  "uninitOps = \<lparr>io_empty = [], io_merge = (\<lambda>d s. snd (mergeUninitializedSummaryIndex d s)),
     io_equals = uninitializedSummaryIndexEquals, io_changed = computeChangedUninitializedFunctionNames\<rparr>"

text \<open>
  One file: its functions as UninitSummary models them, the scope of its summaries, and the
  analysis of one function under the imported summaries of the other files.
\<close>

record 'f input_file =
  if_module :: "'f uninit_module"
  if_scope :: "'f set"
  if_analyze :: "(string \<rightharpoonup> function_summary) \<Rightarrow> 'f \<Rightarrow> ('f \<rightharpoonup> function_summary) \<Rightarrow> function_summary"

definition buildFileSummary ::
    "(string \<Rightarrow> string) \<Rightarrow> 'f input_file list \<Rightarrow> nat \<Rightarrow> summary_index \<Rightarrow> summary_index" where
  "buildFileSummary canon files m globalIndex =
     buildUninitializedSummaryIndex (if_analyze (files ! m) (importExternalSummaryMap canon globalIndex)) canon
       (if_module (files ! m)) (if_scope (files ! m))"

definition fileFunctions :: "(string \<Rightarrow> string) \<Rightarrow> 'f input_file \<Rightarrow> (string \<times> bool) list" where
  "fileFunctions canon file =
     map (\<lambda>f. (canon (um_name (if_module file) f),
               um_isDeclaration (if_module file) f \<or> um_name (if_module file) f = []))
       (um_functions (if_module file))"

definition buildCrossTUUninitializedSummaryIndex ::
    "bool \<Rightarrow> (string \<Rightarrow> string) \<Rightarrow> 'f input_file list \<Rightarrow> string list list \<Rightarrow> summary_index option" where
  "buildCrossTUUninitializedSummaryIndex uninitializedCrossTU canon files moduleCalleeNames =
     (if \<not> uninitializedCrossTU \<or> length files < 2 then None
      else map_option ct_global
             (crossTULoop uninitOps (buildFileSummary canon files) (map (fileFunctions canon) files) moduleCalleeNames))"

section \<open>The contract holds\<close>

datatype uninit_fact =
    ReadsByte nat u64
  | WritesByte nat u64
  | WritesSlot nat slot_write
  | ReadsUnknown nat
  | WritesUnknown nat

fun fact_of :: "(nat \<Rightarrow> effect_den) \<Rightarrow> uninit_fact \<Rightarrow> bool" where
  "fact_of d (ReadsByte i b) \<longleftrightarrow> b \<in> den_reads (d i)"
| "fact_of d (WritesByte i b) \<longleftrightarrow> b \<in> den_writes (d i)"
| "fact_of d (WritesSlot i w) \<longleftrightarrow> w \<in> den_slots (d i)"
| "fact_of d (ReadsUnknown i) \<longleftrightarrow> den_unknownRead (d i)"
| "fact_of d (WritesUnknown i) \<longleftrightarrow> den_unknownWrite (d i)"

definition idx_facts :: "summary_index \<Rightarrow> string \<Rightarrow> uninit_fact set" where
  "idx_facts d n = {a. fact_of (idx_den d n) a}"

definition canonical_index :: "(string \<Rightarrow> string) \<Rightarrow> summary_index \<Rightarrow> bool" where
  "canonical_index canon d \<longleftrightarrow> idx_wf d \<and> (\<forall>k \<in> fst ` set d. canon k = k)"

lemma facts_join:
  assumes "\<And>i. idx_den c n i = den_join (idx_den a n i) (idx_den b n i)"
  shows "idx_facts c n = idx_facts a n \<union> idx_facts b n"
proof -
  have "fact_of (idx_den c n) x \<longleftrightarrow> fact_of (idx_den a n) x \<or> fact_of (idx_den b n) x" for x
    by (cases x) (simp_all add: assms den_join_def)
  then show ?thesis by (auto simp: idx_facts_def)
qed

lemma facts_subset:
  assumes "idx_facts b n \<subseteq> idx_facts a n"
  shows "den_join (idx_den a n i) (idx_den b n i) = idx_den a n i"
proof -
  have f: "fact_of (idx_den b n) x \<Longrightarrow> fact_of (idx_den a n) x" for x using assms by (auto simp: idx_facts_def)
  have "den_reads (idx_den b n i) \<subseteq> den_reads (idx_den a n i)" using f [of "ReadsByte i x" for x] by auto
  moreover have "den_writes (idx_den b n i) \<subseteq> den_writes (idx_den a n i)" using f [of "WritesByte i x" for x] by auto
  moreover have "den_slots (idx_den b n i) \<subseteq> den_slots (idx_den a n i)" using f [of "WritesSlot i x" for x] by auto
  moreover have "den_unknownRead (idx_den b n i) \<Longrightarrow> den_unknownRead (idx_den a n i)"
    using f [of "ReadsUnknown i"] by simp
  moreover have "den_unknownWrite (idx_den b n i) \<Longrightarrow> den_unknownWrite (idx_den a n i)"
    using f [of "WritesUnknown i"] by simp
  ultimately show ?thesis by (intro effect_den.equality) (auto simp: den_join_def)
qed

lemma facts_eq:
  assumes "\<And>i. idx_den a n i = idx_den b n i"
  shows "idx_facts a n = idx_facts b n"
proof -
  have "idx_den a n = idx_den b n" using assms by (rule ext)
  then show ?thesis by (simp add: idx_facts_def)
qed

lemma idx_den_trim:
  "map_option trimTrailingEmptyPublicParamEffects (map_of a n) =
     map_option trimTrailingEmptyPublicParamEffects (map_of b n) \<Longrightarrow> idx_den a n i = idx_den b n i"
  unfolding idx_den_def by (auto split: option.splits) (metis fn_den_trim)+

lemma merge_absorb_entry:
  assumes "idx_wf dst" and "distinct (map fst src)" and "\<forall>(k, f) \<in> set src. fn_wf f"
    and "\<And>i. den_join (idx_den dst n i) (idx_den src n i) = idx_den dst n i"
  shows "map_of (snd (mergeUninitializedSummaryIndex dst src)) n = map_of dst n"
  using assms
proof (induction dst src rule: mergeUninitializedSummaryIndex.induct)
  case (1 dst)
  then show ?case by simp
next
  case (2 dst name fn entries)
  have fresh: "map_of entries name = None" and ds: "distinct (map fst entries)" "\<forall>(k, f) \<in> set entries. fn_wf f"
    and fw: "fn_wf fn"
    using 2(5,6) by (auto simp: map_of_eq_None_iff)
  have src: "idx_den ((name, fn) # entries) k i = (if k = name then fn_den fn i else idx_den entries k i)" for k i
    by (simp add: idx_den_def)
  have bot: "idx_den entries name i = eff_den emptyPublic" for i using fresh by (simp add: idx_den_def)
  have rest: "den_join (idx_den dst n i) (idx_den entries n i) = idx_den dst n i" for i
    using 2(7) [of i] src [of n i] bot [of i] by (cases "n = name") simp_all
  show ?case
  proof (cases "effectivePublicParamEffectCount fn = 0")
    case True
    with 2(1) [OF True 2(4) ds rest] show ?thesis by simp
  next
    case nz: False
    show ?thesis
    proof (cases "map_of dst name")
      case None
      let ?d = "updateEntry name (trimTrailingEmptyPublicParamEffects fn) dst"
      have ne: "n \<noteq> name"
      proof
        assume "n = name"
        then have "fn_den fn i = eff_den emptyPublic" for i
          using 2(7) [of i] None by (simp add: src) (simp add: idx_den_def)
        with fn_den_not_bottom [OF fw nz] show False by blast
      qed
      have "idx_wf ?d" using 2(4) fw by (simp add: update_wf fn_wf_trim)
      with 2(2) [OF nz None this ds] rest ne nz None show ?thesis
        by (simp add: idx_den_update split_beta)
    next
      case (Some old)
      obtain c1 new where m: "mergePublicFunctionSummary old fn = (c1, new)" by fastforce
      let ?d = "updateEntry name new dst"
      have old: "fn_wf old" "trimmed old" using 2(4) Some by (auto simp: idx_wf_def dest!: map_of_SomeD)
      note sp = mergePublicFunctionSummary_spec [OF m old(1) fw]
      have wf: "idx_wf ?d" using 2(4) sp by (simp add: update_wf)
      have same: "new = old" if "n = name"
      proof (rule trimmed_ext)
        have "idx_den dst name i = fn_den old i" for i using Some by (simp add: idx_den_def)
        then show "eff_at new i = eff_at old i" for i using sp 2(7) [of i] that by (simp add: src)
      qed (use sp old in simp_all)
      have "idx_den ?d n i = idx_den dst n i" "map_of ?d n = map_of dst n" for i
        using same Some by (cases "n = name"; simp add: idx_den_update idx_den_def)+
      with 2(3) [OF nz Some m [symmetric] wf ds] rest nz Some m show ?thesis by (simp add: split_beta)
    qed
  qed
qed

lemma merge_keys:
  "fst ` set (snd (mergeUninitializedSummaryIndex dst src)) \<subseteq> fst ` set dst \<union> fst ` set src"
proof (induction dst src rule: mergeUninitializedSummaryIndex.induct)
  case (2 dst name fn entries)
  show ?case
  proof (cases "effectivePublicParamEffectCount fn = 0")
    case True
    with 2(1) show ?thesis by auto
  next
    case nz: False
    show ?thesis
    proof (cases "map_of dst name")
      case None
      with 2(2) nz show ?thesis by (auto simp: keys_update split_beta)
    next
      case (Some old)
      obtain c new where m: "mergePublicFunctionSummary old fn = (c, new)" by fastforce
      with 2(3) [OF nz Some m [symmetric]] nz Some show ?thesis by (auto simp: keys_update split_beta)
    qed
  qed
qed simp

lemma canonical_indexD:
  assumes "canonical_index canon d"
  shows "idx_wf d" and "k \<in> fst ` set d \<Longrightarrow> canon k = k"
  using assms unfolding canonical_index_def by (rule conjunct1, metis)

lemma merge_canonical:
  assumes a: "canonical_index canon a" and b: "canonical_index canon b"
  shows "canonical_index canon (io_merge uninitOps a b)"
    and "idx_den (io_merge uninitOps a b) n i = den_join (idx_den a n i) (idx_den b n i)"
proof -
  obtain c r where m: "mergeUninitializedSummaryIndex a b = (c, r)" by fastforce
  have wf: "idx_wf a" "distinct (map fst b)" "\<forall>(k, f) \<in> set b. fn_wf f"
    using a b unfolding canonical_index_def idx_wf_def by blast+
  have sub: "fst ` set r \<subseteq> fst ` set a \<union> fst ` set b" using merge_keys [of a b] m by simp
  have "\<forall>k \<in> fst ` set r. canon k = k"
  proof
    fix k assume "k \<in> fst ` set r"
    then have "k \<in> fst ` set a \<or> k \<in> fst ` set b" using subsetD [OF sub] by (simp only: Un_iff)
    then show "canon k = k" using canonical_indexD(2) [OF a] canonical_indexD(2) [OF b] by (elim disjE)
  qed
  moreover note sp = mergeUninitializedSummaryIndex_spec [OF m wf]
  moreover have r: "io_merge uninitOps a b = r" using m by (simp add: uninitOps_def)
  ultimately show "canonical_index canon (io_merge uninitOps a b)" unfolding canonical_index_def r by blast
  show "idx_den (io_merge uninitOps a b) n i = den_join (idx_den a n i) (idx_den b n i)"
    unfolding r using sp by blast
qed

interpretation uninit: summary_indices uninitOps "canonical_index canon" map_of idx_facts for canon
proof
  show "canonical_index canon (io_empty uninitOps)" by (simp add: canonical_index_def idx_wf_def uninitOps_def)
  show "idx_facts (io_empty uninitOps) n = {}" for n
  proof -
    have "\<not> fact_of (idx_den [] n) x" for x
      by (cases x) (simp_all add: idx_den_def eff_den_def emptyPublic_def)
    then show ?thesis by (simp add: idx_facts_def uninitOps_def)
  qed
next
  fix a b n assume a: "canonical_index canon a" and b: "canonical_index canon b"
  have wf: "idx_wf a" "distinct (map fst a)" "distinct (map fst b)" "\<forall>(k, f) \<in> set b. fn_wf f"
    using a b unfolding canonical_index_def idx_wf_def by blast+
  show "canonical_index canon (io_merge uninitOps a b)" by (rule merge_canonical(1) [OF a b])
  show "idx_facts (io_merge uninitOps a b) n = idx_facts a n \<union> idx_facts b n"
    by (rule facts_join) (rule merge_canonical(2) [OF a b])
  show "map_of (io_merge uninitOps a b) n = map_of a n" if "idx_facts b n \<subseteq> idx_facts a n"
    using merge_absorb_entry [OF wf(1,3,4) facts_subset [OF that]] by (simp add: uninitOps_def)
  show "idx_facts a n = idx_facts b n" if "io_equals uninitOps a b"
    using that by (intro facts_eq idx_den_trim) (simp add: uninitOps_def index_equals_iff [OF wf(2,3)])
  show "idx_facts a n = idx_facts b n" if "n \<notin> io_changed uninitOps a b"
    using that by (intro facts_eq idx_den_trim) (simp add: uninitOps_def changed_names_iff [OF wf(3)])
qed

section \<open>The analysis of a file is local\<close>

definition exportedNames :: "(string \<Rightarrow> string) \<Rightarrow> 'f input_file \<Rightarrow> string set" where
  "exportedNames canon file =
     (\<lambda>f. canon (um_name (if_module file) f)) `
       {f \<in> set (um_functions (if_module file)). shouldExportFunctionSummary (if_module file) f}"

text \<open>
  What is assumed of the files: canonical names are canonical, the analysis of a function
  yields well formed summaries from well formed ones and looks up the names \<open>reads m\<close> only.
\<close>

definition summaries_wf :: "('k \<rightharpoonup> function_summary) \<Rightarrow> bool" where
  "summaries_wf S \<longleftrightarrow> (\<forall>k s. S k = Some s \<longrightarrow> list_all internal_wf s)"

definition files_ok :: "(string \<Rightarrow> string) \<Rightarrow> 'f input_file list \<Rightarrow> (nat \<Rightarrow> string set) \<Rightarrow> bool" where
  "files_ok canon files reads \<longleftrightarrow>
     (\<forall>file \<in> set files. \<forall>f. canon (canon (um_name (if_module file) f)) = canon (um_name (if_module file) f)) \<and>
     (\<forall>file \<in> set files. \<forall>e f S. summaries_wf e \<longrightarrow> summaries_wf S \<longrightarrow> list_all internal_wf (if_analyze file e f S)) \<and>
     (\<forall>m < length files. \<forall>e e'. (\<forall>n \<in> reads m. e n = e' n) \<longrightarrow>
        if_analyze (files ! m) e = if_analyze (files ! m) e')"

lemma importEffect_wf: "internal_wf (importEffect e)"
proof -
  have "distinct (addSlots dst src)" if "distinct dst" for dst src
    using that by (induction src arbitrary: dst) (auto simp: addSlots_def addPointerSlotWriteEffect_def)
  then show ?thesis using addRanges_wf_bytes [of "[]"] by (simp add: internal_wf_def importEffect_def)
qed

lemma import_wf: "summaries_wf (importExternalSummaryMap canon g)"
proof -
  have "list_all internal_wf (importPublicFunctionSummary f)" for f
  proof -
    have "list_all internal_wf (map importEffect f)" by (simp add: list_all_iff importEffect_wf)
    then show ?thesis using trimEffects_subset [of "map importEffect f"]
      by (auto simp: importPublicFunctionSummary_def list_all_iff)
  qed
  then show ?thesis
    unfolding summaries_wf_def importExternalSummaryMap_def by (auto dest!: map_of_SomeD)
qed

lemma import_lookup:
  assumes "canonical_index canon g"
  shows "importExternalSummaryMap canon g n =
    (case map_of g n of None \<Rightarrow> None
     | Some f \<Rightarrow> if importPublicFunctionSummary f = [] then None else Some (importPublicFunctionSummary f))"
proof -
  have k: "distinct (map fst g)" "\<forall>k \<in> fst ` set g. canon k = k"
    using assms by (simp_all add: canonical_index_def idx_wf_def)
  from k have "map_of (filter (\<lambda>(_, s). s \<noteq> []) (map (\<lambda>(name, f). (canon name, importPublicFunctionSummary f)) g)) n =
      (case map_of g n of None \<Rightarrow> None
       | Some f \<Rightarrow> if importPublicFunctionSummary f = [] then None else Some (importPublicFunctionSummary f))"
  proof (induction g)
    case (Cons x g)
    obtain name f where x: "x = (name, f)" by fastforce
    from Cons have ih: "map_of (filter (\<lambda>(_, s). s \<noteq> []) (map (\<lambda>(name, f). (canon name, importPublicFunctionSummary f)) g)) n =
      (case map_of g n of None \<Rightarrow> None
       | Some f \<Rightarrow> if importPublicFunctionSummary f = [] then None else Some (importPublicFunctionSummary f))" by simp
    have cn: "canon name = name" using Cons.prems(2) x by simp
    have "map_of g name = None" using Cons.prems(1) x by (simp add: map_of_eq_None_iff)
    with ih cn show ?case by (auto simp: x)
  qed simp
  then show ?thesis by (simp add: importExternalSummaryMap_def)
qed

lemma summarySweep_wf:
  assumes an: "\<And>f S. summaries_wf S \<Longrightarrow> list_all internal_wf (analyze f S)"
  shows "summaries_wf (ss_map st) \<Longrightarrow> summaries_wf (ss_map (fold (analyzeDirty analyze callers dirty) fs st))"
proof (induction fs arbitrary: st)
  case (Cons f fs)
  have "summaries_wf (ss_map (analyzeDirty analyze callers dirty f st))"
    using Cons.prems an [OF Cons.prems, of f] by (auto simp: analyzeDirty_def Let_def summaries_wf_def)
  from Cons.IH [OF this] show ?case by simp
qed simp

lemma summaryLoop_wf:
  assumes an: "\<And>f S. summaries_wf S \<Longrightarrow> list_all internal_wf (analyze f S)"
  shows "summaries_wf S \<Longrightarrow> summaries_wf (snd (summaryLoop k analyze callers fs dirty S))"
proof (induction k arbitrary: dirty S)
  case (Suc k)
  have "summaries_wf (ss_map (summarySweep analyze callers fs dirty S))"
    unfolding summarySweep_def by (rule summarySweep_wf [OF an]) (simp_all add: Suc.prems)
  with Suc.IH [OF this] show ?case by (simp add: Let_def)
qed simp

lemma computeFunctionSummaries_wf:
  assumes an: "\<And>f S. summaries_wf S \<Longrightarrow> list_all internal_wf (analyze f S)"
  shows "summaries_wf (snd (computeFunctionSummaries analyze M sc))"
proof -
  have "list_all internal_wf (makeEmptySummary k)" for k
    by (simp add: makeEmptySummary_def internal_wf_def emptyEffect_def list_all_iff)
  then show ?thesis unfolding computeFunctionSummaries_def Let_def
    by (intro summaryLoop_wf [OF an]) (auto simp: summaries_wf_def)
qed

lemma fold_grows:
  assumes "\<And>x st. K (g x st) \<subseteq> K st \<union> E x"
  shows "K (fold g xs st) \<subseteq> K st \<union> (\<Union>x \<in> set xs. E x)"
proof (induction xs arbitrary: st)
  case (Cons x xs)
  have "K (fold g xs (g x st)) \<subseteq> K (g x st) \<union> (\<Union>y \<in> set xs. E y)" by (rule Cons.IH)
  with assms [of x st] show ?case by auto
qed simp

lemma export_index_keys:
  "fst ` set (exportSummaryIndexForModule canon M summaries) \<subseteq>
     (\<lambda>f. canon (um_name M f)) ` {f \<in> set (um_functions M). shouldExportFunctionSummary M f}"
proof -
  have "fst ` set (exportSummaryIndexForModule canon M summaries) \<subseteq> fst ` set ([] :: summary_index) \<union>
      (\<Union>f \<in> set (um_functions M). if shouldExportFunctionSummary M f then {canon (um_name M f)} else {})"
    unfolding exportSummaryIndexForModule_def
    by (rule fold_grows [where K = "\<lambda>out. fst ` set out"])
       (auto simp: keys_update Let_def split: option.splits)
  then show ?thesis by (auto split: if_splits)
qed

lemma no_entry_no_facts: "map_of d n = None \<Longrightarrow> idx_facts d n = {}"
proof -
  assume n: "map_of d n = None"
  have "\<not> fact_of (idx_den d n) x" for x
    by (cases x) (simp_all add: idx_den_def n eff_den_def emptyPublic_def)
  then show ?thesis by (simp add: idx_facts_def)
qed

lemma buildFileSummary_local:
  assumes ok: "files_ok canon files reads"
  shows "local_build (canonical_index canon) map_of idx_facts (length files) (buildFileSummary canon files)
    reads (\<lambda>m. exportedNames canon (files ! m))"
  unfolding local_build_def
proof (intro allI impI conjI)
  fix m g assume m: "m < length files" and g: "canonical_index canon g"
  let ?file = "files ! m" and ?M = "if_module (files ! m)"
  let ?S = "\<lambda>g. snd (computeFunctionSummaries (if_analyze ?file (importExternalSummaryMap canon g)) ?M
    (\<lambda>f. f \<in> if_scope ?file))"
  have fm: "?file \<in> set files" using m by simp
  have build: "buildFileSummary canon files m g = exportSummaryIndexForModule canon ?M (?S g)" for g
    by (simp add: buildFileSummary_def buildUninitializedSummaryIndex_def)
  have an: "list_all internal_wf (if_analyze ?file (importExternalSummaryMap canon g) f S)" if "summaries_wf S" for f S
    using ok fm that import_wf unfolding files_ok_def by blast
  have "summaries_wf (?S g)" by (rule computeFunctionSummaries_wf) (rule an)
  then have wf: "idx_wf (buildFileSummary canon files m g)"
    unfolding build summaries_wf_def by (intro export_index_wf) blast
  have keys: "fst ` set (buildFileSummary canon files m g) \<subseteq> exportedNames canon ?file"
    unfolding build exportedNames_def by (rule export_index_keys)
  have "canon k = k" if "k \<in> exportedNames canon ?file" for k
    using that ok fm unfolding exportedNames_def files_ok_def by auto
  then have "\<forall>k \<in> fst ` set (buildFileSummary canon files m g). canon k = k" using subsetD [OF keys] by metis
  with wf show "canonical_index canon (buildFileSummary canon files m g)" unfolding canonical_index_def by (rule conjI)
  show "idx_facts (buildFileSummary canon files m g) n = {}" if "n \<notin> exportedNames canon ?file" for n
  proof (rule no_entry_no_facts)
    show "map_of (buildFileSummary canon files m g) n = None" using that keys by (auto simp: map_of_eq_None_iff)
  qed
  show "buildFileSummary canon files m g = buildFileSummary canon files m g'"
    if "canonical_index canon g'" "\<forall>n \<in> reads m. map_of g n = map_of g' n" for g'
  proof -
    have "\<forall>n \<in> reads m. importExternalSummaryMap canon g n = importExternalSummaryMap canon g' n"
      using that(2) import_lookup [OF g] import_lookup [OF that(1)] by simp
    then have "if_analyze ?file (importExternalSummaryMap canon g) = if_analyze ?file (importExternalSummaryMap canon g')"
      using ok m unfolding files_ok_def by blast
    then show ?thesis unfolding build by simp
  qed
qed

lemma cross_file_fixpoint:
  assumes "files_ok canon files reads"
    and "single_definitions (map (fileFunctions canon) files) names reads (\<lambda>m. exportedNames canon (files ! m))"
  shows "\<exists>st. crossTULoop uninitOps (buildFileSummary canon files) (map (fileFunctions canon) files) names = Some st \<and>
    (ct_capped st = [] \<longrightarrow> (\<forall>m < length files.
       ct_summaries st ! m = buildFileSummary canon files m (ct_global st) \<and>
       (\<forall>n i. den_join (idx_den (ct_global st) n i) (idx_den (ct_summaries st ! m) n i) = idx_den (ct_global st) n i)))"
proof -
  have len: "length (map (fileFunctions canon) files) = length files" by simp
  obtain st where st: "crossTULoop uninitOps (buildFileSummary canon files) (map (fileFunctions canon) files) names = Some st"
    and s: "reproduced idx_facts (buildFileSummary canon files) {..<length files} st"
    using uninit.loop_settles [of canon "map (fileFunctions canon) files", unfolded len,
        OF buildFileSummary_local [OF assms(1)] assms(2)] by blast
  have "ct_summaries st ! m = buildFileSummary canon files m (ct_global st) \<and>
      (\<forall>n i. den_join (idx_den (ct_global st) n i) (idx_den (ct_summaries st ! m) n i) = idx_den (ct_global st) n i)"
    if "ct_capped st = []" "m < length files" for m
  proof -
    have "ct_summaries st ! m = buildFileSummary canon files m (ct_global st) \<and>
        (\<forall>n. idx_facts (ct_summaries st ! m) n \<subseteq> idx_facts (ct_global st) n)"
      using s that unfolding reproduced_def by (metis lessThan_iff)
    then show ?thesis using facts_subset by metis
  qed
  with st show ?thesis by blast
qed

section \<open>Properties\<close>

text \<open>
  C22: The cross-file loop always ends with an index, and unless a cyclic component reached its
  cap of iterations, analysing any file again under the final index yields exactly the summary
  the loop recorded for it, which is part of the index; provided that files look up exported
  names only of other files, under names they call and that are defined once.
\<close>

theorem final_index_reproduces_every_summary:
  assumes "files_ok canon files reads"
    and "single_definitions (map (fileFunctions canon) files) names reads (\<lambda>m. exportedNames canon (files ! m))"
  shows "\<exists>st. crossTULoop uninitOps (buildFileSummary canon files) (map (fileFunctions canon) files) names = Some st \<and>
    (ct_capped st = [] \<longrightarrow> (\<forall>m < length files.
       ct_summaries st ! m = buildFileSummary canon files m (ct_global st) \<and>
       (\<forall>n i. den_join (idx_den (ct_global st) n i) (idx_den (ct_summaries st ! m) n i) = idx_den (ct_global st) n i)))"
  using assms by (rule cross_file_fixpoint)

text \<open>
  One file defines \<open>main\<close>, which hands its parameter to \<open>f\<close>; another one defines \<open>f\<close>, which writes
  eight bytes through it. Functions are numbered: 0 is the defined one, 1 the declaration of \<open>f\<close>.
\<close>

definition writes_eight :: function_summary where
  "writes_eight = [emptyEffect\<lparr>pe_writes := [\<lparr>br_begin = 0, br_end = 8\<rparr>]\<rparr>]"

definition caller_file :: "nat input_file" where
  "caller_file = \<lparr>if_module = \<lparr>um_functions = [0, 1], um_isDeclaration = (\<lambda>f. f = 1), um_argCount = (\<lambda>_. 1),
       um_calls = (\<lambda>f. if f = 0 then [1] else []), um_name = (\<lambda>f. if f = 0 then ''main'' else ''f''),
       um_localLinkage = (\<lambda>_. False)\<rparr>,
     if_scope = {0},
     if_analyze = (\<lambda>e f S. case e ''f'' of None \<Rightarrow> [emptyEffect] | Some s \<Rightarrow> s)\<rparr>"

definition callee_file :: "bool \<Rightarrow> nat input_file" where
  "callee_file isStatic = \<lparr>if_module = \<lparr>um_functions = [0], um_isDeclaration = (\<lambda>_. False), um_argCount = (\<lambda>_. 1),
       um_calls = (\<lambda>_. []), um_name = (\<lambda>_. ''f''), um_localLinkage = (\<lambda>_. isStatic)\<rparr>,
     if_scope = {0}, if_analyze = (\<lambda>e f S. writes_eight)\<rparr>"

lemma sample_files_ok:
  "files_ok id [caller_file, callee_file False] (\<lambda>m. if m = 0 then {''f''} else {})"
  by (auto simp: files_ok_def caller_file_def callee_file_def less_Suc_eq summaries_wf_def writes_eight_def
      internal_wf_def emptyEffect_def wf_ranges_Cons split: option.splits)

lemma sample_single_definitions:
  "single_definitions (map (fileFunctions id) [caller_file, callee_file False]) [[''f''], []]
     (\<lambda>m. if m = 0 then {''f''} else {}) (\<lambda>m. exportedNames id ([caller_file, callee_file False] ! m))"
  by (auto simp: single_definitions_def less_Suc_eq exportedNames_def caller_file_def callee_file_def
      fileFunctions_def buildDefinedBy_def shouldExportFunctionSummary_def)

theorem final_index_reproduces_every_summary_witness:
  "(\<exists>st. crossTULoop uninitOps (buildFileSummary id [caller_file, callee_file False])
       (map (fileFunctions id) [caller_file, callee_file False]) [[''f''], []] = Some st \<and>
     map_of (ct_global st) ''main'' = Some (exportPublicFunctionSummary writes_eight) \<and>
     ct_summaries st ! 0 = buildFileSummary id [caller_file, callee_file False] 0 (ct_global st))"
proof -
  let ?files = "[caller_file, callee_file False]"
  obtain st where st: "crossTULoop uninitOps (buildFileSummary id ?files) (map (fileFunctions id) ?files) [[''f''], []] = Some st"
    "ct_capped st = [] \<longrightarrow> (\<forall>m < length ?files. ct_summaries st ! m = buildFileSummary id ?files m (ct_global st))"
    using final_index_reproduces_every_summary [OF sample_files_ok sample_single_definitions] by blast
  have run: "map_option (\<lambda>st. (ct_capped st, map_of (ct_global st) ''main''))
      (crossTULoop uninitOps (buildFileSummary id ?files) (map (fileFunctions id) ?files) [[''f''], []]) =
      Some ([], Some (exportPublicFunctionSummary writes_eight))"
    by code_simp
  with st show ?thesis by (intro exI [of _ st]) auto
qed

text \<open>
  A static function with the name of an exported one hides the dependency: its file counts
  as a second definition, so the caller is analysed before the exported function is known, and
  its recorded summary differs from the one the final index gives.
\<close>

theorem static_namesake_leaves_a_stale_summary:
  "\<exists>st. crossTULoop uninitOps (buildFileSummary id [caller_file, callee_file False, callee_file True])
       (map (fileFunctions id) [caller_file, callee_file False, callee_file True]) [[''f''], [], []] = Some st \<and>
     ct_capped st = [] \<and> map_of (ct_global st) ''main'' = None \<and>
     ct_summaries st ! 0 \<noteq> buildFileSummary id [caller_file, callee_file False, callee_file True] 0 (ct_global st)"
proof -
  let ?files = "[caller_file, callee_file False, callee_file True]"
  have "map_option (\<lambda>st. (ct_capped st, map_of (ct_global st) ''main'', ct_summaries st ! 0,
        map_of (buildFileSummary id ?files 0 (ct_global st)) ''main''))
      (crossTULoop uninitOps (buildFileSummary id ?files) (map (fileFunctions id) ?files) [[''f''], [], []]) =
      Some ([], None, [], Some (exportPublicFunctionSummary writes_eight))"
    by code_simp
  then show ?thesis by fastforce
qed

end
