(* ===== verification/RuleFiles.thy ===== *)
theory RuleFiles
  imports Prelude
begin

text \<open>
  Rule files and their patterns: the line format shared by the resource model
  (\<open>ResourceLifetimeAnalysis.cpp\<close>), the buffer model (\<open>BufferWriteModel.cpp\<close>) and the stack
  escape model (\<open>StackPointerEscapeModel.cpp\<close>), their parsers, the wildcard matcher that the
  three files repeat, and the choice of a rule for a called function. Demangling is an argument.
  The matcher is a loop that is proved to end; a model file that cannot be opened is \<open>None\<close>.
\<close>

section \<open>Text\<close>

text \<open>\<open>iss >> tok\<close>: the maximal runs of characters that are not white space.\<close>

function tokensOf :: "string \<Rightarrow> string list" where
  "tokensOf s =
     (let s' = dropWhile isspace s
      in if s' = [] then []
         else takeWhile (\<lambda>c. \<not> isspace c) s' # tokensOf (dropWhile (\<lambda>c. \<not> isspace c) s'))"
  by pat_completeness auto
termination
proof (relation "measure length")
  fix s s' :: string
  assume s': "s' = dropWhile isspace s" "s' \<noteq> []"
  then have "\<not> isspace (hd s')" using hd_dropWhile by metis
  then have "length (dropWhile (\<lambda>c. \<not> isspace c) s') < length s'"
    using s'(2) by (cases s') (auto intro: le_less_trans [OF length_dropWhile_le])
  also have "\<dots> \<le> length s" unfolding s'(1) by (rule length_dropWhile_le)
  finally show "(dropWhile (\<lambda>c. \<not> isspace c) s', s) \<in> measure length" by simp
qed simp

declare tokensOf.simps [simp del]

text \<open>Comments start at a hash sign.\<close>

definition stripComment :: "string \<Rightarrow> string" where
  "stripComment line = trimCopy (takeWhile (\<lambda>c. c \<noteq> CHR ''#'') line)"

text \<open>
  \<open>parseUnsignedIndex\<close>: the resource model lets the number wrap, the other two refuse a
  number that does not fit.
\<close>

fun parseDigits :: "u32 \<Rightarrow> string \<Rightarrow> u32 option" where
  "parseDigits v [] = Some v"
| "parseDigits v (c # cs) =
     (if \<not> isdigit c then None else parseDigits (v * 10 + of_nat (digit_value c)) cs)"

definition parseUnsignedIndexWrapping :: "string \<Rightarrow> u32 option" where
  "parseUnsignedIndexWrapping token = (if token = [] then None else parseDigits 0 token)"

fun parseDigitsChecked :: "u32 \<Rightarrow> string \<Rightarrow> u32 option" where
  "parseDigitsChecked v [] = Some v"
| "parseDigitsChecked v (c # cs) =
     (if \<not> isdigit c then None
      else if v > (u32_max - of_nat (digit_value c)) div 10 then None
      else parseDigitsChecked (v * 10 + of_nat (digit_value c)) cs)"

definition parseUnsignedIndex :: "string \<Rightarrow> u32 option" where
  "parseUnsignedIndex token = (if token = [] then None else parseDigitsChecked 0 token)"

section \<open>Patterns\<close>

text \<open>
  \<open>globMatches\<close>: \<open>p\<close> and \<open>t\<close> walk over pattern and text; \<open>star\<close> is the last star of the
  pattern (\<open>npos\<close> is \<open>None\<close>) and \<open>start\<close> the place in the text where what follows it is tried.
\<close>

partial_function (option) globLoop ::
    "string \<Rightarrow> string \<Rightarrow> nat \<Rightarrow> nat \<Rightarrow> nat option \<Rightarrow> nat \<Rightarrow> bool option" where
  [code]: "globLoop pattern txt p t star start =
     (if t < length txt
      then if p < length pattern \<and> (pattern ! p = CHR ''?'' \<or> pattern ! p = txt ! t)
           then globLoop pattern txt (p + 1) (t + 1) star start
           else if p < length pattern \<and> pattern ! p = CHR ''*''
           then globLoop pattern txt (p + 1) t (Some p) t
           else (case star of
                   None \<Rightarrow> Some False
                 | Some s \<Rightarrow> globLoop pattern txt (s + 1) (start + 1) star (start + 1))
      else Some (dropWhile (\<lambda>c. c = CHR ''*'') (drop p pattern) = []))"

definition globMatches :: "string \<Rightarrow> string \<Rightarrow> bool option" where
  "globMatches pattern txt = globLoop pattern txt 0 0 None 0"

text \<open>What a pattern means: a star stands for any text, a question mark for one character.\<close>

fun glob :: "string \<Rightarrow> string \<Rightarrow> bool" where
  "glob [] txt = (txt = [])"
| "glob (c # ps) txt =
     (if c = CHR ''*'' then \<exists>k \<le> length txt. glob ps (drop k txt)
      else txt \<noteq> [] \<and> (c = CHR ''?'' \<or> c = hd txt) \<and> glob ps (tl txt))"

lemma glob_on_empty: "glob ps [] \<longleftrightarrow> dropWhile (\<lambda>c. c = CHR ''*'') ps = []"
  by (induction ps) auto

lemma glob_segment:
  "CHR ''*'' \<notin> set seg \<Longrightarrow> glob (seg @ ps) txt \<Longrightarrow>
     length seg \<le> length txt \<and> glob ps (drop (length seg) txt)"
proof (induction seg arbitrary: "txt")
  case (Cons c seg)
  then show ?case by (cases "txt") (auto simp del: One_nat_def)
qed simp

lemma glob_star_step:
  "glob (CHR ''*'' # ps) txt \<longleftrightarrow> glob ps txt \<or> (\<exists>k. 0 < k \<and> k \<le> length txt \<and> glob ps (drop k txt))"
  by simp (metis drop0 le0 not_gr_zero)

lemma glob_star_drop:
  assumes "t \<le> length txt"
  shows "glob (CHR ''*'' # ps) (drop t txt) \<longleftrightarrow>
           glob ps (drop t txt) \<or> (\<exists>k. t < k \<and> k \<le> length txt \<and> glob ps (drop k txt))"
proof -
  have "(\<exists>k. 0 < k \<and> k \<le> length (drop t txt) \<and> glob ps (drop k (drop t txt)))
          \<longleftrightarrow> (\<exists>k. t < k \<and> k \<le> length txt \<and> glob ps (drop k txt))" (is "?l \<longleftrightarrow> ?r")
  proof
    assume ?l
    then obtain k where "0 < k" "k \<le> length txt - t" "glob ps (drop (k + t) txt)" by auto
    then show ?r using assms by (intro exI [of _ "k + t"]) auto
  next
    assume ?r
    then obtain k where "t < k" "k \<le> length txt" "glob ps (drop k txt)" by auto
    then show ?l by (intro exI [of _ "k - t"]) auto
  qed
  then show ?thesis by (simp only: glob_star_step)
qed

text \<open>
  What the loop has still to find: the rest of the pattern on the rest of the text, or the
  pattern after its last star on a later part of the text.
\<close>

definition globPending :: "string \<Rightarrow> string \<Rightarrow> nat \<Rightarrow> nat \<Rightarrow> nat option \<Rightarrow> nat \<Rightarrow> bool" where
  "globPending pattern txt p t star start \<longleftrightarrow>
     glob (drop p pattern) (drop t txt) \<or>
     (case star of None \<Rightarrow> False
      | Some s \<Rightarrow> \<exists>k. start < k \<and> k \<le> length txt \<and> glob (drop (s + 1) pattern) (drop k txt))"

text \<open>The shape of the loop's state.\<close>

definition globShape :: "string \<Rightarrow> string \<Rightarrow> nat \<Rightarrow> nat \<Rightarrow> nat option \<Rightarrow> nat \<Rightarrow> bool" where
  "globShape pattern txt p t star start \<longleftrightarrow>
     p \<le> length pattern \<and> t \<le> length txt \<and> start \<le> t \<and>
     (case star of None \<Rightarrow> start = 0
      | Some s \<Rightarrow> s < p \<and> t + s + 1 = start + p \<and>
          (CHR ''*'' \<notin> set txt \<longrightarrow> CHR ''*'' \<notin> set (take (p - (s + 1)) (drop (s + 1) pattern))))"

lemma glob_drop_match:
  assumes "p < length pattern" "t < length txt" "pattern ! p = CHR ''?'' \<or> pattern ! p = txt ! t"
  shows "glob (drop (p + 1) pattern) (drop (t + 1) txt) \<Longrightarrow> glob (drop p pattern) (drop t txt)"
    and "CHR ''*'' \<notin> set txt \<Longrightarrow>
           glob (drop p pattern) (drop t txt) = glob (drop (p + 1) pattern) (drop (t + 1) txt)"
proof -
  have d: "drop p pattern = pattern ! p # drop (p + 1) pattern" "drop t txt = txt ! t # drop (t + 1) txt"
    using assms(1,2) by (simp_all add: Cons_nth_drop_Suc)
  show "glob (drop (p + 1) pattern) (drop (t + 1) txt) \<Longrightarrow> glob (drop p pattern) (drop t txt)"
    using assms(3) by (auto simp: d intro!: exI [of _ "Suc 0"])
  assume "CHR ''*'' \<notin> set txt"
  then have "txt ! t \<noteq> CHR ''*''" using assms(2) by (metis nth_mem)
  then show "glob (drop p pattern) (drop t txt) = glob (drop (p + 1) pattern) (drop (t + 1) txt)"
    using assms(3) by (auto simp: d)
qed

lemma glob_mismatch:
  assumes "t < length txt" "\<not> (p < length pattern \<and> (pattern ! p = CHR ''?'' \<or> pattern ! p = txt ! t))"
    "\<not> (p < length pattern \<and> pattern ! p = CHR ''*'')"
  shows "\<not> glob (drop p pattern) (drop t txt)"
proof (cases "p < length pattern")
  case True
  then have "drop p pattern = pattern ! p # drop (p + 1) pattern" "drop t txt = txt ! t # drop (t + 1) txt"
    using assms(1) by (simp_all add: Cons_nth_drop_Suc)
  then show ?thesis using assms True by auto
qed (use assms(1) in simp)

lemma segment_split:
  "s < p \<Longrightarrow> drop (s + 1) pattern = take (p - (s + 1)) (drop (s + 1) pattern) @ drop p pattern"
  by (metis Suc_eq_plus1 Suc_leI append_take_drop_id drop_drop le_add_diff_inverse2)

text \<open>A match of the text after an older star is also one after the newer star.\<close>

lemma older_star:
  assumes shape: "globShape pattern txt p t (Some s) start" and lit: "CHR ''*'' \<notin> set txt"
    and k: "start < k" "k \<le> length txt" "glob (drop (s + 1) pattern) (drop k txt)"
  shows "length txt \<noteq> t \<and> (\<exists>k'. t < k' \<and> k' \<le> length txt \<and> glob (drop p pattern) (drop k' txt))"
proof -
  let ?seg = "take (p - (s + 1)) (drop (s + 1) pattern)"
  have sp: "s < p" "p \<le> length pattern" "t + s + 1 = start + p" "CHR ''*'' \<notin> set ?seg"
    using shape lit by (auto simp: globShape_def)
  have len: "length ?seg = t - start" and st: "start \<le> t" using sp shape by (auto simp: globShape_def)
  have "glob (?seg @ drop p pattern) (drop k txt)" using k(3) segment_split [OF sp(1)] by metis
  from glob_segment [OF sp(4) this]
  have "t - start \<le> length txt - k" "glob (drop p pattern) (drop (t - start) (drop k txt))"
    unfolding len by simp_all
  then show ?thesis using k(1,2) st
    by (intro conjI exI [of _ "t - start + k"]) auto
qed

lemma shape_match:
  assumes shape: "globShape pattern txt p t star start" and lt: "t < length txt" "p < length pattern"
    and eq: "pattern ! p = CHR ''?'' \<or> pattern ! p = txt ! t"
  shows "globShape pattern txt (p + 1) (t + 1) star start"
proof -
  have "CHR ''*'' \<notin> set txt \<Longrightarrow> pattern ! p \<noteq> CHR ''*''"
    using eq nth_mem [OF lt(1)] by auto
  moreover have "take (Suc p - Suc s) (drop (Suc s) pattern)
      = take (p - Suc s) (drop (Suc s) pattern) @ [pattern ! p]" if "s < p" for s
    using that lt(2) take_Suc_conv_app_nth [of "p - Suc s" "drop (Suc s) pattern"]
    by (simp add: Suc_diff_Suc)
  ultimately show ?thesis using shape lt
    by (auto simp: globShape_def split: option.splits)
qed

lemma later_split:
  "start + 1 \<le> length txt \<Longrightarrow>
     (\<exists>k. start < k \<and> k \<le> length txt \<and> Q k) \<longleftrightarrow> Q (start + 1) \<or> (\<exists>k. start + 1 < k \<and> k \<le> length txt \<and> Q k)"
  by (metis Suc_eq_plus1 Suc_lessI lessI less_trans)

lemma glob_loop:
  assumes "globShape pattern txt p t star start"
  shows "\<exists>b. globLoop pattern txt p t star start = Some b
           \<and> (b \<longrightarrow> globPending pattern txt p t star start)
           \<and> (CHR ''*'' \<notin> set txt \<longrightarrow> globPending pattern txt p t star start \<longrightarrow> b)"
    (is "?thesis_for p t star start")
  using assms
proof (induction "(p, t, star, start)" arbitrary: p t star start rule: wf_induct_rule [OF wf_measures
    [of "[\<lambda>(p, t, star, start). length pattern - (case star of None \<Rightarrow> 0 | Some s \<Rightarrow> s + 1),
          \<lambda>(p, t, star, start). length txt - start, \<lambda>(p, t, star, start). length txt - t]"]])
  case 1
  note IH = 1(1) and shape = 1(2)
  show ?case
  proof (cases "t < length txt")
    case False
    then have t: "t = length txt" using shape by (simp add: globShape_def)
    have "globPending pattern txt p t star start \<longleftrightarrow> glob (drop p pattern) []"
      if "CHR ''*'' \<notin> set txt"
      using older_star [of pattern "txt" p t _ start] shape that t
      by (auto simp: globPending_def split: option.splits)
    then show ?thesis using False t
      by (subst globLoop.simps) (auto simp: globPending_def glob_on_empty)
  next
    case lt: True
    show ?thesis
    proof (cases "p < length pattern \<and> (pattern ! p = CHR ''?'' \<or> pattern ! p = txt ! t)")
      case True
      have sh: "globShape pattern txt (p + 1) (t + 1) star start"
        by (rule shape_match [OF shape lt]) (use True in auto)
      have "globLoop pattern txt p t star start = globLoop pattern txt (p + 1) (t + 1) star start"
        using lt True by (subst globLoop.simps) simp
      moreover have "globPending pattern txt (p + 1) (t + 1) star start \<Longrightarrow> globPending pattern txt p t star start"
        and "CHR ''*'' \<notin> set txt \<Longrightarrow> globPending pattern txt p t star start \<Longrightarrow>
               globPending pattern txt (p + 1) (t + 1) star start"
        using glob_drop_match [of p pattern t "txt"] lt True by (auto simp: globPending_def)
      moreover have "?thesis_for (p + 1) (t + 1) star start"
        by (rule IH [OF _ sh]) (use lt in auto)
      ultimately show ?thesis by auto
    next
      case mis: False
      show ?thesis
      proof (cases "p < length pattern \<and> pattern ! p = CHR ''*''")
        case True
        have sh: "globShape pattern txt (p + 1) t (Some p) t"
          using shape lt True by (auto simp: globShape_def)
        have dp: "drop p pattern = CHR ''*'' # drop (p + 1) pattern"
          using True by (metis Cons_nth_drop_Suc Suc_eq_plus1)
        have new: "globPending pattern txt (p + 1) t (Some p) t = glob (drop p pattern) (drop t txt)"
          using glob_star_drop [of t "txt" "drop (p + 1) pattern"] lt
          by (auto simp: globPending_def dp)
        have old: "globPending pattern txt p t star start \<Longrightarrow> glob (drop p pattern) (drop t txt)"
          if lit: "CHR ''*'' \<notin> set txt"
        proof -
          assume "globPending pattern txt p t star start"
          then consider "glob (drop p pattern) (drop t txt)"
            | k' where "t < k'" "k' \<le> length txt" "glob (drop p pattern) (drop k' txt)"
          proof (cases "glob (drop p pattern) (drop t txt)")
            case False
            then obtain s k where star: "star = Some s" "start < k" "k \<le> length txt"
                "glob (drop (s + 1) pattern) (drop k txt)"
              using \<open>globPending pattern txt p t star start\<close>
              by (auto simp: globPending_def split: option.splits)
            with older_star [OF shape [unfolded star(1)] lit] show ?thesis using that(2) by blast
          qed
          then show "glob (drop p pattern) (drop t txt)"
          proof cases
            case (2 k')
            then show ?thesis
              using glob_star_drop [of k' "txt" "drop (p + 1) pattern"]
                glob_star_drop [of t "txt" "drop (p + 1) pattern"] lt
              unfolding dp by (meson less_imp_le less_trans)
          qed
        qed
        have "globLoop pattern txt p t star start = globLoop pattern txt (p + 1) t (Some p) t"
          using lt True mis by (subst globLoop.simps) auto
        moreover have "?thesis_for (p + 1) t (Some p) t"
          by (rule IH [OF _ sh]) (use shape True in \<open>auto simp: globShape_def split: option.splits\<close>)
        ultimately show ?thesis using old new by (auto simp: globPending_def)
      next
        case False
        note nomatch = glob_mismatch [OF lt mis False]
        show ?thesis
        proof (cases star)
          case None
          then show ?thesis using lt mis False nomatch
            by (subst globLoop.simps) (auto simp: globPending_def)
        next
          case (Some s)
          have sh: "globShape pattern txt (s + 1) (start + 1) star (start + 1)"
            using shape lt by (auto simp: globShape_def Some)
          have "globPending pattern txt p t star start
                  \<longleftrightarrow> globPending pattern txt (s + 1) (start + 1) star (start + 1)"
          proof -
            have "start + 1 \<le> length txt" using shape lt by (simp add: globShape_def)
            then show ?thesis using nomatch later_split [of start "txt" "\<lambda>k. glob (drop (s + 1) pattern) (drop k txt)"]
              by (simp add: globPending_def Some)
          qed
          moreover have "globLoop pattern txt p t star start = globLoop pattern txt (s + 1) (start + 1) star (start + 1)"
            using lt mis False by (subst globLoop.simps) (auto simp: Some)
          moreover have "?thesis_for (s + 1) (start + 1) star (start + 1)"
            by (rule IH [OF _ sh]) (use shape lt in \<open>auto simp: globShape_def Some\<close>)
          ultimately show ?thesis by simp
        qed
      qed
    qed
  qed
qed

section \<open>The parsers\<close>

text \<open>
  The reading loop of the three parsers: comments and blank lines are skipped, the first line that
  is no rule ends it with its message, and the rules read before it stay in the result.
\<close>

fun parseLines :: "(nat \<Rightarrow> string list \<Rightarrow> string + 'r) \<Rightarrow> nat \<Rightarrow> string list \<Rightarrow> string option \<times> 'r list" where
  "parseLines parseRule lineNo [] = (None, [])"
| "parseLines parseRule lineNo (l # ls) =
     (let line = stripComment l; tokens = tokensOf line in
      if line = [] \<or> tokens = [] then parseLines parseRule (lineNo + 1) ls
      else case parseRule (lineNo + 1) tokens of
             Inl e \<Rightarrow> (Some e, [])
           | Inr r \<Rightarrow> (let (e, rs) = parseLines parseRule (lineNo + 1) ls in (e, r # rs)))"

text \<open>A model file: \<open>file\<close> is its content, \<open>None\<close> when it cannot be opened (then \<open>out\<close> is kept).\<close>

definition parseModel ::
    "string \<Rightarrow> (nat \<Rightarrow> string list \<Rightarrow> string + 'r) \<Rightarrow> string \<Rightarrow> string option \<Rightarrow> 'r list \<Rightarrow> string option \<times> 'r list" where
  "parseModel what parseRule path file out =
     (case file of
        None \<Rightarrow> (Some (''cannot open '' @ what @ '': '' @ path), out)
      | Some content \<Rightarrow> parseLines parseRule 0 (linesOf content))"

definition atLine :: "string \<Rightarrow> nat \<Rightarrow> string" where
  "atLine msg lineNo = msg @ '' at line '' @ to_string lineNo"

definition unknownAction :: "string \<Rightarrow> string \<Rightarrow> nat \<Rightarrow> string" where
  "unknownAction what action lineNo = atLine (''unknown '' @ what @ '' action '' @ [CHR 0x27] @ action @ [CHR 0x27]) lineNo"

definition hasUnsupportedBracketClassSyntax :: "string \<Rightarrow> bool" where
  "hasUnsupportedBracketClassSyntax pattern = (CHR ''['' \<in> set pattern \<or> CHR '']'' \<in> set pattern)"

definition unsupportedBrackets :: "string \<Rightarrow> nat \<Rightarrow> string" where
  "unsupportedBrackets what lineNo =
     atLine (''unsupported character class syntax '' @ [CHR 0x27] @ ''[...]'' @ [CHR 0x27]) lineNo
       @ '' ('' @ what @ '' model supports only '' @ [CHR 0x27] @ ''*'' @ [CHR 0x27]
       @ '' and '' @ [CHR 0x27] @ ''?'' @ [CHR 0x27] @ '' wildcards)''"

subsection \<open>Resource rules\<close>

datatype RuleAction = AcquireOut | AcquireRet | ReleaseArg

record ResourceRule =
  rr_functionPattern :: string
  rr_resourceKind :: string
  rr_argIndex :: u32
  rr_action :: RuleAction

definition parseIndexedResourceRule :: "string \<Rightarrow> RuleAction \<Rightarrow> nat \<Rightarrow> string list \<Rightarrow> string + ResourceRule" where
  "parseIndexedResourceRule name act lineNo tokens =
     (if length tokens \<noteq> 4 then Inl (atLine (''invalid '' @ name @ '' rule'') lineNo)
      else case parseUnsignedIndexWrapping (tokens ! 2) of
             None \<Rightarrow> Inl (atLine ''invalid argument index'' lineNo)
           | Some i \<Rightarrow> Inr \<lparr>rr_functionPattern = tokens ! 1, rr_resourceKind = tokens ! 3,
                             rr_argIndex = i, rr_action = act\<rparr>)"

definition parseResourceRule :: "nat \<Rightarrow> string list \<Rightarrow> string + ResourceRule" where
  "parseResourceRule lineNo tokens =
     (if tokens ! 0 = ''acquire_out'' then parseIndexedResourceRule ''acquire_out'' AcquireOut lineNo tokens
      else if tokens ! 0 = ''acquire_ret''
      then if length tokens \<noteq> 3 then Inl (atLine ''invalid acquire_ret rule'' lineNo)
           else Inr \<lparr>rr_functionPattern = tokens ! 1, rr_resourceKind = tokens ! 2,
                      rr_argIndex = 0, rr_action = AcquireRet\<rparr>
      else if tokens ! 0 = ''release_arg'' then parseIndexedResourceRule ''release_arg'' ReleaseArg lineNo tokens
      else Inl (unknownAction ''rule'' (tokens ! 0) lineNo))"

definition parseResourceModel :: "string \<Rightarrow> string option \<Rightarrow> ResourceRule list \<Rightarrow> string option \<times> ResourceRule list" where
  "parseResourceModel = parseModel ''model file'' parseResourceRule"

subsection \<open>Buffer rules\<close>

datatype BufferWriteRuleKind = BoundedWrite | UnboundedWrite

record BufferWriteRule =
  bw_functionPattern :: string
  bw_destArgIndex :: u32
  bw_sizeArgIndex :: u32
  bw_kind :: BufferWriteRuleKind

definition parseBufferRule :: "nat \<Rightarrow> string list \<Rightarrow> string + BufferWriteRule" where
  "parseBufferRule lineNo tokens =
     (if tokens ! 0 = ''bounded_write''
      then if length tokens \<noteq> 4 then Inl (atLine ''invalid bounded_write rule'' lineNo)
           else if hasUnsupportedBracketClassSyntax (tokens ! 1) then Inl (unsupportedBrackets ''buffer'' lineNo)
           else case (parseUnsignedIndex (tokens ! 2), parseUnsignedIndex (tokens ! 3)) of
                  (Some dest, Some len) \<Rightarrow>
                    Inr \<lparr>bw_functionPattern = tokens ! 1, bw_destArgIndex = dest,
                         bw_sizeArgIndex = len, bw_kind = BoundedWrite\<rparr>
                | _ \<Rightarrow> Inl (atLine ''invalid argument index'' lineNo)
      else if tokens ! 0 = ''unbounded_write''
      then if length tokens \<noteq> 3 then Inl (atLine ''invalid unbounded_write rule'' lineNo)
           else if hasUnsupportedBracketClassSyntax (tokens ! 1) then Inl (unsupportedBrackets ''buffer'' lineNo)
           else case parseUnsignedIndex (tokens ! 2) of
                  Some dest \<Rightarrow>
                    Inr \<lparr>bw_functionPattern = tokens ! 1, bw_destArgIndex = dest,
                         bw_sizeArgIndex = 0, bw_kind = UnboundedWrite\<rparr>
                | None \<Rightarrow> Inl (atLine ''invalid argument index'' lineNo)
      else Inl (unknownAction ''buffer model'' (tokens ! 0) lineNo))"

definition parseBufferWriteModel ::
    "string \<Rightarrow> string option \<Rightarrow> BufferWriteRule list \<Rightarrow> string option \<times> BufferWriteRule list" where
  "parseBufferWriteModel = parseModel ''buffer model file'' parseBufferRule"

subsection \<open>Stack escape rules\<close>

record StackEscapeRule =
  se_functionPattern :: string
  se_argIndex :: u32

definition parseEscapeRule :: "nat \<Rightarrow> string list \<Rightarrow> string + StackEscapeRule" where
  "parseEscapeRule lineNo tokens =
     (if tokens ! 0 \<noteq> ''noescape_arg'' then Inl (unknownAction ''stack escape model'' (tokens ! 0) lineNo)
      else if length tokens \<noteq> 3 then Inl (atLine ''invalid noescape_arg rule'' lineNo)
      else if hasUnsupportedBracketClassSyntax (tokens ! 1) then Inl (unsupportedBrackets ''stack escape'' lineNo)
      else case parseUnsignedIndex (tokens ! 2) of
             None \<Rightarrow> Inl (atLine ''invalid argument index'' lineNo)
           | Some i \<Rightarrow> Inr \<lparr>se_functionPattern = tokens ! 1, se_argIndex = i\<rparr>)"

definition parseStackEscapeModel ::
    "string \<Rightarrow> string option \<Rightarrow> StackEscapeRule list \<Rightarrow> string option \<times> StackEscapeRule list" where
  "parseStackEscapeModel = parseModel ''stack escape model file'' parseEscapeRule"

section \<open>The rule for a called function\<close>

text \<open>
  \<open>namesFor\<close>: the cache returns what a first look-up computed. \<open>demangle\<close> is the demangler.
\<close>

record NameVariants =
  mangled :: string
  demangled :: string
  demangledBase :: string

definition namesFor :: "(string \<Rightarrow> string) \<Rightarrow> string \<Rightarrow> NameVariants" where
  "namesFor demangle name =
     \<lparr>mangled = name, demangled = demangle name,
      demangledBase = takeWhile (\<lambda>c. c \<noteq> CHR ''('') (demangle name)\<rparr>"

definition matchesNames :: "bool \<Rightarrow> string \<Rightarrow> NameVariants \<Rightarrow> bool" where
  "matchesNames hasGlob pattern names =
     (if \<not> hasGlob
      then pattern = mangled names \<or> pattern = demangled names \<or> pattern = demangledBase names
      else globMatches pattern (mangled names) = Some True
         \<or> globMatches pattern (demangled names) = Some True
         \<or> globMatches pattern (demangledBase names) = Some True)"

definition ruleMatchesFunction :: "(string \<Rightarrow> string) \<Rightarrow> BufferWriteRule \<Rightarrow> string \<Rightarrow> bool" where
  "ruleMatchesFunction demangle rule name =
     (let pattern = bw_functionPattern rule in
      matchesNames (CHR ''*'' \<in> set pattern \<or> CHR ''?'' \<in> set pattern) pattern (namesFor demangle name))"

definition resourceRuleMatchesFunction :: "(string \<Rightarrow> string) \<Rightarrow> ResourceRule \<Rightarrow> string \<Rightarrow> bool" where
  "resourceRuleMatchesFunction demangle rule name =
     (let pattern = rr_functionPattern rule in
      matchesNames (CHR ''*'' \<in> set pattern \<or> CHR ''?'' \<in> set pattern \<or> CHR ''['' \<in> set pattern)
        pattern (namesFor demangle name))"

definition modelRuleMatchesFunction :: "(string \<Rightarrow> string) \<Rightarrow> StackEscapeRule \<Rightarrow> string \<Rightarrow> bool" where
  "modelRuleMatchesFunction demangle rule name =
     (let pattern = se_functionPattern rule in
      matchesNames (CHR ''*'' \<in> set pattern \<or> CHR ''?'' \<in> set pattern) pattern (namesFor demangle name))"

fun findMatchingRule :: "(string \<Rightarrow> string) \<Rightarrow> BufferWriteRule list \<Rightarrow> string \<Rightarrow> nat \<Rightarrow> BufferWriteRule option" where
  "findMatchingRule demangle [] name argCount = None"
| "findMatchingRule demangle (rule # rules) name argCount =
     (if \<not> ruleMatchesFunction demangle rule name then findMatchingRule demangle rules name argCount
      else if bw_kind rule = BoundedWrite
      then if unat (bw_destArgIndex rule) \<ge> argCount \<or> unat (bw_sizeArgIndex rule) \<ge> argCount
           then findMatchingRule demangle rules name argCount else Some rule
      else if unat (bw_destArgIndex rule) \<ge> argCount then findMatchingRule demangle rules name argCount
      else Some rule)"

fun modelSaysNoEscapeArg :: "(string \<Rightarrow> string) \<Rightarrow> StackEscapeRule list \<Rightarrow> string option \<Rightarrow> u32 \<Rightarrow> bool" where
  "modelSaysNoEscapeArg demangle rules None argIndex = False"
| "modelSaysNoEscapeArg demangle [] (Some name) argIndex = False"
| "modelSaysNoEscapeArg demangle (rule # rules) (Some name) argIndex =
     (if se_argIndex rule \<noteq> argIndex then modelSaysNoEscapeArg demangle rules (Some name) argIndex
      else if modelRuleMatchesFunction demangle rule name then True
      else modelSaysNoEscapeArg demangle rules (Some name) argIndex)"

definition isStdLibCallee :: "string option \<Rightarrow> bool" where
  "isStdLibCallee callee =
     (case callee of
        None \<Rightarrow> False
      | Some name \<Rightarrow> prefix ''_ZNSt3__1'' name \<or> prefix ''_ZSt'' name \<or> prefix ''_ZNSt'' name \<or> prefix ''__cxx'' name)"

section \<open>What holds of the rule files\<close>

subsection \<open>Argument numbers\<close>

lemma digitsValue_ge: "acc \<le> digitsValue acc cs"
proof (induction cs arbitrary: acc)
  case (Cons c cs)
  have "acc \<le> 10 * acc + (of_char c - 48)" by simp
  also have "\<dots> \<le> digitsValue \<dots> cs" by (rule Cons)
  finally show ?case by simp
qed simp

lemma digitsValue_word:
  "(of_nat (digitsValue n cs) :: u32) = foldl (\<lambda>v c. 10 * v + of_nat (of_char c - 48)) (of_nat n) cs"
  by (induction cs arbitrary: n) simp_all

lemma step_exact:
  assumes "isdigit c" "\<not> v > (u32_max - of_nat (digit_value c)) div 10"
  shows "unat (v * 10 + of_nat (digit_value c) :: u32) = 10 * unat v + digit_value c"
    and "10 * unat v + digit_value c < 2 ^ 32"
proof -
  let ?d = "digit_value c"
  have d: "?d \<le> 9" by (rule digit_value_bound [OF assms(1)])
  have ud: "unat (of_nat ?d :: u32) = ?d" using d by (simp add: unat_of_nat take_bit_nat_eq_self)
  have dm: "(of_nat ?d :: u32) \<le> u32_max" by simp
  have "unat v \<le> unat ((u32_max - of_nat ?d) div 10 :: u32)"
    using assms(2) by (simp add: word_le_nat_alt not_less)
  also have "\<dots> = (2 ^ 32 - 1 - ?d) div 10"
    using dm by (simp add: unat_div unat_sub ud u32_max_nat)
  finally have "10 * unat v \<le> 2 ^ 32 - 1 - ?d" by (simp add: div_le_dividend less_eq_div_iff_mult_less_eq)
  then show fits: "10 * unat v + ?d < 2 ^ 32" using d by simp
  have "unat v * unat (10 :: u32) < 2 ^ 32" using fits by simp
  then have "unat (v * 10 :: u32) = unat v * 10" using unat_mult_lem [of v 10] by simp
  then show "unat (v * 10 + of_nat ?d :: u32) = 10 * unat v + ?d"
    using fits unat_add_lem [of "v * 10" "of_nat ?d :: u32"] by (simp add: ud)
qed

lemma step_overflows:
  assumes "isdigit c" "v > (u32_max - of_nat (digit_value c)) div 10"
  shows "2 ^ 32 \<le> 10 * unat (v :: u32) + digit_value c"
proof -
  let ?d = "digit_value c"
  have d: "?d \<le> 9" by (rule digit_value_bound [OF assms(1)])
  have ud: "unat (of_nat ?d :: u32) = ?d" using d by (simp add: unat_of_nat take_bit_nat_eq_self)
  have "(of_nat ?d :: u32) \<le> u32_max" by simp
  then have "(2 ^ 32 - 1 - ?d) div 10 < unat v"
    using assms(2) by (simp add: word_less_nat_alt unat_div unat_sub ud u32_max_nat)
  then show ?thesis using d by (simp add: div_less_iff_less_mult)
qed

lemma digitsValue_mono: "a \<le> b \<Longrightarrow> digitsValue a cs \<le> digitsValue b cs"
  by (induction cs arbitrary: a b) auto

lemma parseDigitsChecked_exact:
  "parseDigitsChecked v cs =
     (if list_all isdigit cs \<and> (cs = [] \<or> digitsValue (unat v) cs < 2 ^ 32)
      then Some (of_nat (digitsValue (unat v) cs)) else None)"
proof (induction cs arbitrary: v)
  case (Cons c cs)
  have dv: "digit_value c = of_char c - 48" by (simp add: digit_value_def)
  show ?case
  proof (cases "isdigit c \<and> \<not> v > (u32_max - of_nat (digit_value c)) div 10")
    case True
    note st = step_exact [of c v] 
    have "parseDigitsChecked v (c # cs) = parseDigitsChecked (v * 10 + of_nat (digit_value c)) cs"
      using True by simp
    also have "\<dots> = (if list_all isdigit cs \<and> (cs = [] \<or> digitsValue (10 * unat v + digit_value c) cs < 2 ^ 32)
      then Some (of_nat (digitsValue (10 * unat v + digit_value c) cs)) else None)"
      unfolding Cons using st(1) True by simp
    finally show ?thesis using True st(2) by (auto simp: dv)
  next
    case False
    have "\<not> digitsValue (unat v) (c # cs) < 2 ^ 32" if "isdigit c"
      using step_overflows [of c v] False that digitsValue_ge [of "10 * unat v + digit_value c" cs]
      by (simp add: dv)
    then show ?thesis using False by auto
  qed
qed simp

lemma parseDigits_exact:
  "parseDigits v cs = (if list_all isdigit cs then Some (of_nat (digitsValue (unat v) cs)) else None)"
proof (induction cs arbitrary: v)
  case (Cons c cs)
  have shift: "(of_nat (digitsValue n cs) :: u32) = of_nat (digitsValue m cs)"
    if "(of_nat n :: u32) = of_nat m" for n m
    by (simp add: digitsValue_word that)
  show ?case unfolding parseDigits.simps Cons
    using shift [of "unat (v * 10 + of_nat (digit_value c))" "10 * unat v + digit_value c"]
    by (simp add: digit_value_def mult.commute)
qed simp

theorem indices_read_exactly:
  "parseUnsignedIndex tok =
     (if tok \<noteq> [] \<and> list_all isdigit tok \<and> digitsValue 0 tok < 2 ^ 32
      then Some (of_nat (digitsValue 0 tok)) else None)"
  by (cases tok) (simp_all add: parseUnsignedIndex_def parseDigitsChecked_exact)

theorem indices_wrap:
  "parseUnsignedIndexWrapping tok =
     (if tok \<noteq> [] \<and> list_all isdigit tok then Some (of_nat (digitsValue 0 tok mod 2 ^ 32)) else None)"
  by (simp add: parseUnsignedIndexWrapping_def parseDigits_exact) (simp add: word_of_nat_eq_iff take_bit_eq_mod)

subsection \<open>Matching\<close>

lemma globMatches_decides:
  "\<exists>b. globMatches pattern txt = Some b \<and> (b \<longrightarrow> glob pattern txt)
     \<and> (CHR ''*'' \<notin> set txt \<longrightarrow> (b \<longleftrightarrow> glob pattern txt))"
  using glob_loop [of pattern "txt" 0 0 None 0]
  by (auto simp: globMatches_def globShape_def globPending_def)

lemma globMatches_sound: "globMatches pattern txt = Some True \<Longrightarrow> glob pattern txt"
  using globMatches_decides [of pattern "txt"] by auto

lemma globMatches_complete:
  "CHR ''*'' \<notin> set txt \<Longrightarrow> globMatches pattern txt = Some True \<longleftrightarrow> glob pattern txt"
  using globMatches_decides [of pattern "txt"] by auto

lemma glob_literal:
  "CHR ''*'' \<notin> set pattern \<Longrightarrow> CHR ''?'' \<notin> set pattern \<Longrightarrow> glob pattern txt \<longleftrightarrow> pattern = txt"
proof (induction pattern arbitrary: "txt")
  case (Cons c ps)
  then show ?case by (cases "txt") auto
qed auto

text \<open>The three names of a function.\<close>

definition namesOf :: "NameVariants \<Rightarrow> string set" where
  "namesOf names = {mangled names, demangled names, demangledBase names}"

lemma matchesNames_sound:
  assumes "CHR ''*'' \<in> set pattern \<or> CHR ''?'' \<in> set pattern \<longrightarrow> hasGlob"
    "matchesNames hasGlob pattern names"
  shows "\<exists>n \<in> namesOf names. glob pattern n"
  using assms globMatches_sound glob_literal
  by (auto simp: matchesNames_def namesOf_def split: if_splits)

lemma matchesNames_iff:
  assumes "CHR ''*'' \<in> set pattern \<or> CHR ''?'' \<in> set pattern \<longrightarrow> hasGlob"
    "\<forall>n \<in> namesOf names. CHR ''*'' \<notin> set n"
  shows "matchesNames hasGlob pattern names \<longleftrightarrow> (\<exists>n \<in> namesOf names. glob pattern n)"
proof (cases hasGlob)
  case True
  with assms(2) show ?thesis by (auto simp: matchesNames_def namesOf_def globMatches_complete)
next
  case False
  with assms(1) have "glob pattern n \<longleftrightarrow> pattern = n" for n using glob_literal by auto
  with False show ?thesis by (simp add: matchesNames_def namesOf_def)
qed

lemma escape_rule_matches:
  "modelRuleMatchesFunction demangle rule name \<Longrightarrow>
     \<exists>n \<in> namesOf (namesFor demangle name). glob (se_functionPattern rule) n"
  by (rule matchesNames_sound) (auto simp: modelRuleMatchesFunction_def Let_def)

text \<open>A star in the name is taken by the star of the pattern as a letter.\<close>

lemma star_taken_as_a_letter:
  "globMatches ''f(*)'' ''f(char*)'' = Some True"
  "globMatches ''*'' ''*a'' = Some False" "glob ''*'' ''*a''"
  by (simp_all add: globMatches_def globLoop.simps numeral_eq_Suc) blast

subsection \<open>The chosen rule\<close>

text \<open>A buffer rule that the arguments of the call can satisfy.\<close>

definition fitsCall :: "nat \<Rightarrow> BufferWriteRule \<Rightarrow> bool" where
  "fitsCall argCount rule \<longleftrightarrow> unat (bw_destArgIndex rule) < argCount
     \<and> (bw_kind rule = BoundedWrite \<longrightarrow> unat (bw_sizeArgIndex rule) < argCount)"

lemma findMatchingRule_find:
  "findMatchingRule demangle rules name argCount =
     List.find (\<lambda>r. ruleMatchesFunction demangle r name \<and> fitsCall argCount r) rules"
  by (induction rules) (auto simp: fitsCall_def)

text \<open>A rule whose pattern matches a name of the function and whose arguments the call has.\<close>

definition ruleFits :: "(string \<Rightarrow> string) \<Rightarrow> string \<Rightarrow> nat \<Rightarrow> BufferWriteRule \<Rightarrow> bool" where
  "ruleFits demangle name argCount rule \<longleftrightarrow>
     (\<exists>n \<in> namesOf (namesFor demangle name). glob (bw_functionPattern rule) n) \<and> fitsCall argCount rule"

lemma found_rule_fits:
  "set_option (findMatchingRule demangle rules name argCount) \<subseteq> {r \<in> set rules. ruleFits demangle name argCount r}"
proof
  fix rule assume "rule \<in> set_option (findMatchingRule demangle rules name argCount)"
  then have "rule \<in> set rules" "ruleMatchesFunction demangle rule name" "fitsCall argCount rule"
    unfolding findMatchingRule_find by (auto simp: find_Some_iff)
  moreover from this(2) have "\<exists>n \<in> namesOf (namesFor demangle name). glob (bw_functionPattern rule) n"
    by (intro matchesNames_sound) (auto simp: ruleMatchesFunction_def Let_def)
  ultimately show "rule \<in> {r \<in> set rules. ruleFits demangle name argCount r}" by (simp add: ruleFits_def)
qed

lemma found_rule_is_first:
  assumes "CHR ''*'' \<notin> \<Union> (set ` namesOf (namesFor demangle name))"
  shows "findMatchingRule demangle rules name argCount = List.find (ruleFits demangle name argCount) rules"
proof -
  have "ruleMatchesFunction demangle r name \<longleftrightarrow> (\<exists>n \<in> namesOf (namesFor demangle name). glob (bw_functionPattern r) n)" for r
    using assms unfolding ruleMatchesFunction_def Let_def by (intro matchesNames_iff) auto
  then show ?thesis unfolding findMatchingRule_find ruleFits_def by simp
qed

text \<open>With a star in the name an earlier rule that fits the call can be missed.\<close>

lemma earlier_rule_is_missed:
  fixes first second :: BufferWriteRule
  defines "first \<equiv> \<lparr>bw_functionPattern = ''f(char*'', bw_destArgIndex = 0, bw_sizeArgIndex = 0, bw_kind = UnboundedWrite\<rparr>"
    and "second \<equiv> \<lparr>bw_functionPattern = ''f'', bw_destArgIndex = 0, bw_sizeArgIndex = 0, bw_kind = UnboundedWrite\<rparr>"
  shows "findMatchingRule id [first, second] ''f(char*)'' 1 = Some second \<and> ruleFits id ''f(char*)'' 1 first"
proof -
  have "globMatches ''f(char*'' ''f(char*)'' = Some False" "globMatches ''f(char*'' ''f'' = Some False"
    by (simp_all add: globMatches_def globLoop.simps numeral_eq_Suc)
  then have "findMatchingRule id [first, second] ''f(char*)'' 1 = Some second"
    by (simp add: ruleMatchesFunction_def matchesNames_def namesFor_def Let_def first_def second_def)
  moreover have "glob ''f(char*'' ''f(char*)''" by simp blast
  ultimately show ?thesis by (simp add: ruleFits_def fitsCall_def namesOf_def namesFor_def first_def)
qed

lemma noescape_rule:
  "modelSaysNoEscapeArg demangle rules callee argIndex \<longleftrightarrow>
     (\<exists>name rule. callee = Some name \<and> rule \<in> set rules \<and> se_argIndex rule = argIndex
        \<and> modelRuleMatchesFunction demangle rule name)"
  by (cases callee; induction rules) auto

subsection \<open>Errors\<close>

text \<open>The rule on a line, if it has one.\<close>

definition lineRules :: "(nat \<Rightarrow> string list \<Rightarrow> string + 'r) \<Rightarrow> nat \<Rightarrow> string \<Rightarrow> (string + 'r) list" where
  "lineRules parseRule n l =
     (let tokens = tokensOf (stripComment l) in if tokens = [] then [] else [parseRule n tokens])"

lemma stripped_empty: "stripComment l = [] \<Longrightarrow> tokensOf (stripComment l) = []"
  by (simp add: tokensOf.simps)

fun numbered :: "nat \<Rightarrow> string list \<Rightarrow> (nat \<times> string) list" where
  "numbered n [] = []"
| "numbered n (l # ls) = (n + 1, l) # numbered (n + 1) ls"

definition entries :: "(nat \<Rightarrow> string list \<Rightarrow> string + 'r) \<Rightarrow> nat \<Rightarrow> string list \<Rightarrow> (string + 'r) list" where
  "entries parseRule n ls = concat (map (\<lambda>(i, l). lineRules parseRule i l) (numbered n ls))"

lemma parseLines_entries:
  "parseLines parseRule n ls =
     (case dropWhile (\<lambda>e. \<exists>r. e = Inr r) (entries parseRule n ls) of
        [] \<Rightarrow> None | e # _ \<Rightarrow> Some (projl e),
      map projr (takeWhile (\<lambda>e. \<exists>r. e = Inr r) (entries parseRule n ls)))"
proof (induction ls arbitrary: n)
  case (Cons l ls)
  show ?case
  proof (cases "tokensOf (stripComment l) = []")
    case True
    then show ?thesis using Cons [of "n + 1"] by (simp add: entries_def lineRules_def)
  next
    case False
    then have "stripComment l \<noteq> []" using stripped_empty by blast
    with False show ?thesis using Cons [of "n + 1"]
      by (auto simp: entries_def lineRules_def Let_def split: sum.split prod.split)
  qed
qed (simp add: entries_def)


lemma read_back:
  assumes "\<forall>r \<in> set rs. \<forall>n. lineRules parseRule n (printRule r) = [Inr r]"
  shows "parseLines parseRule n (map printRule rs) = (None, rs)"
proof -
  have "entries parseRule n (map printRule rs) = map Inr rs" using assms
    by (induction rs arbitrary: n) (simp_all add: entries_def)
  moreover have "dropWhile (\<lambda>e. \<exists>r. e = Inr r) (map Inr rs :: (string + 'a) list) = []"
    and "takeWhile (\<lambda>e. \<exists>r. e = Inr r) (map Inr rs :: (string + 'a) list) = map Inr rs"
    by (auto simp: takeWhile_eq_all_conv)
  ultimately show ?thesis by (simp only: parseLines_entries list.case) (simp add: comp_def)
qed

lemma parse_error_names_the_first_bad_line:
  "parseModel what parseRule path (Some content) out = (err, rs) \<Longrightarrow>
     (case err of
        None \<Rightarrow> entries parseRule 0 (linesOf content) = map Inr rs
      | Some e \<Rightarrow> \<exists>rest. entries parseRule 0 (linesOf content) = map Inr rs @ Inl e # rest)"
proof -
  let ?es = "entries parseRule 0 (linesOf content)" and ?ok = "\<lambda>e :: string + 'a. \<exists>r. e = Inr r"
  assume "parseModel what parseRule path (Some content) out = (err, rs)"
  then have p: "err = (case dropWhile ?ok ?es of [] \<Rightarrow> None | e # _ \<Rightarrow> Some (projl e))"
      "rs = map projr (takeWhile ?ok ?es)"
    by (simp_all add: parseModel_def parseLines_entries)
  have t: "map Inr rs = takeWhile ?ok ?es"
    unfolding p(2) map_map by (rule map_idI) (auto dest: set_takeWhileD)
  show ?thesis
  proof (cases "dropWhile ?ok ?es")
    case Nil
    have "takeWhile ?ok ?es @ dropWhile ?ok ?es = ?es" by (rule takeWhile_dropWhile_id)
    then have "map Inr rs = ?es" unfolding t Nil by (simp only: append_Nil2)
    then show ?thesis unfolding p(1) Nil by (simp only: list.case option.case)
  next
    case (Cons e rest)
    then have "\<not> ?ok e" using hd_dropWhile [of ?ok ?es] by (simp only: list.sel list.distinct simp_thms)
    then have "e = Inl (projl e)" by (cases e) auto
    then have "takeWhile ?ok ?es @ Inl (projl e) # rest = ?es"
      using takeWhile_dropWhile_id [of ?ok ?es] Cons by (simp only:)
    then have "?es = map Inr rs @ Inl (projl e) # rest" unfolding t by (rule sym)
    then show ?thesis unfolding p(1) Cons by (auto simp only: list.case option.case)
  qed
qed

subsection \<open>Printed rules are read back\<close>

text \<open>A word of a rule file: not empty, no white space and no comment sign in it.\<close>

definition word :: "string \<Rightarrow> bool" where
  "word w \<longleftrightarrow> w \<noteq> [] \<and> (\<forall>c \<in> set w. \<not> isspace c \<and> c \<noteq> CHR ''#'')"

fun unwords :: "string list \<Rightarrow> string" where
  "unwords [] = []"
| "unwords [w] = w"
| "unwords (w # ws) = w @ CHR '' '' # unwords ws"

lemma to_string_word: "word (to_string n)"
  using to_string_digits [of n] by (auto simp: word_def list_all_iff isdigit_def isspace_def)

lemma tokensOf_nil: "tokensOf [] = []"
  by (subst tokensOf.simps) simp

lemma tokensOf_space: "isspace c \<Longrightarrow> tokensOf (c # s) = tokensOf s"
  by (subst (1 2) tokensOf.simps) simp

lemma tokensOf_word:
  assumes "word w" "s = [] \<or> isspace (hd s)"
  shows "tokensOf (w @ s) = w # tokensOf s"
proof -
  have w: "w @ s \<noteq> []" "dropWhile isspace (w @ s) = w @ s"
    using assms(1) by (cases w; simp add: word_def)+
  show ?thesis
    using w takeWhile_word [of w "\<lambda>c. \<not> isspace c" s] assms
    by (subst tokensOf.simps) (simp add: word_def Let_def)
qed

lemma tokens_unwords: "list_all word ws \<Longrightarrow> tokensOf (unwords ws) = ws"
proof (induction ws rule: unwords.induct)
  case (2 w)
  then show ?case using tokensOf_word [of w "[]"] by (simp add: tokensOf_nil)
next
  case (3 w v ws)
  then show ?case
    using tokensOf_word [of w "CHR '' '' # unwords (v # ws)"] by (simp add: tokensOf_space isspace_def)
qed (simp add: tokensOf_nil)

lemma unwords_clean: "list_all word ws \<Longrightarrow> c \<in> set (unwords ws) \<Longrightarrow> c = CHR '' '' \<or> \<not> isspace c \<and> c \<noteq> CHR ''#''"
  by (induction ws rule: unwords.induct) (auto simp: word_def)

lemma unwords_ends: "list_all word ws \<Longrightarrow> ws \<noteq> [] \<Longrightarrow>
    unwords ws \<noteq> [] \<and> \<not> isspace (hd (unwords ws)) \<and> \<not> isspace (last (unwords ws))"
  by (induction ws rule: unwords.induct) (auto simp: word_def)

lemma strip_unwords:
  assumes "list_all word ws" "ws \<noteq> []"
  shows "stripComment (unwords ws) = unwords ws"
proof -
  let ?l = "unwords ws"
  note e = unwords_ends [OF assms]
  have "takeWhile (\<lambda>c. c \<noteq> CHR ''#'') ?l = ?l"
    using unwords_clean [OF assms(1)] by (subst takeWhile_eq_all_conv) auto
  moreover have "dropWhile isspace ?l = ?l" using e by (simp add: dropWhile_eq_self_iff)
  moreover have "dropWhile isspace (rev ?l) = rev ?l"
    using e by (simp add: dropWhile_eq_self_iff hd_rev)
  ultimately show ?thesis unfolding stripComment_def trimCopy_def by (simp only: rev_rev_ident)
qed

text \<open>A buffer rule as a line of a model file.\<close>

definition bufferRuleWords :: "BufferWriteRule \<Rightarrow> string list" where
  "bufferRuleWords r =
     (case bw_kind r of
        BoundedWrite \<Rightarrow> [''bounded_write'', bw_functionPattern r,
                          to_string (unat (bw_destArgIndex r)), to_string (unat (bw_sizeArgIndex r))]
      | UnboundedWrite \<Rightarrow> [''unbounded_write'', bw_functionPattern r, to_string (unat (bw_destArgIndex r))])"

definition printableRule :: "BufferWriteRule \<Rightarrow> bool" where
  "printableRule r \<longleftrightarrow> word (bw_functionPattern r)
     \<and> \<not> hasUnsupportedBracketClassSyntax (bw_functionPattern r)
     \<and> (bw_kind r = UnboundedWrite \<longrightarrow> bw_sizeArgIndex r = 0)"

definition printBufferModel :: "BufferWriteRule list \<Rightarrow> string" where
  "printBufferModel rs = concat (map (\<lambda>r. unwords (bufferRuleWords r) @ [CHR 0x0A]) rs)"

lemma printed_index: "parseUnsignedIndex (to_string (unat i)) = Some i"
  using u32_lt_size [of i] by (simp add: indices_read_exactly to_string_digits numeral_roundtrip)

lemma keyword_words: "word ''bounded_write''" "word ''unbounded_write''"
  by (simp_all add: word_def isspace_def)

lemma buffer_rule_words: "printableRule r \<Longrightarrow> list_all word (bufferRuleWords r) \<and> bufferRuleWords r \<noteq> []"
  by (auto simp: bufferRuleWords_def printableRule_def to_string_word keyword_words
        split: BufferWriteRuleKind.split)

lemma buffer_rule_read: "printableRule r \<Longrightarrow> parseBufferRule n (bufferRuleWords r) = Inr r"
  by (cases "bw_kind r") (simp_all add: parseBufferRule_def bufferRuleWords_def printableRule_def printed_index)

lemma buffer_model_roundtrip:
  assumes "\<forall>r \<in> set rs. printableRule r"
  shows "parseBufferWriteModel path (Some (printBufferModel rs)) out = (None, rs)"
proof -
  let ?line = "\<lambda>r. unwords (bufferRuleWords r)"
  have clean: "CHR 0x0A \<notin> set (?line r)" if "r \<in> set rs" for r
    using unwords_clean [of "bufferRuleWords r" "CHR 0x0A"] buffer_rule_words [of r] assms that
    by (auto simp: isspace_def)
  have "linesOf (printBufferModel rs) = map ?line rs"
    using lines_of_concat [of "map ?line rs"] clean by (simp add: printBufferModel_def comp_def)
  moreover have "lineRules parseBufferRule n (?line r) = [Inr r]" if "r \<in> set rs" for n r
    using buffer_rule_words [of r] buffer_rule_read [of r n] assms that
    by (simp add: lineRules_def strip_unwords tokens_unwords)
  ultimately show ?thesis
    by (simp add: parseBufferWriteModel_def parseModel_def read_back)
qed

section \<open>Properties\<close>

lemma rules_before_an_error_stay:
  "parseStackEscapeModel path (Some (unlines [''noescape_arg f 0'', ''bad''])) [] =
     (Some (unknownAction ''stack escape model'' ''bad'' 2), [\<lparr>se_functionPattern = ''f'', se_argIndex = 0\<rparr>])"
  by (simp add: parseStackEscapeModel_def parseModel_def stripComment_def trimCopy_def isspace_def
      tokensOf.simps parseEscapeRule_def hasUnsupportedBracketClassSyntax_def parseUnsignedIndex_def
      isdigit_def digit_value_def Let_def numeral_eq_Suc unlines_def)

lemma bracket_pattern_is_literal:
  "\<not> resourceRuleMatchesFunction id \<lparr>rr_functionPattern = ''f[ab]'', rr_resourceKind = ''k'',
       rr_argIndex = 0, rr_action = AcquireRet\<rparr> ''fa''"
  by (simp add: resourceRuleMatchesFunction_def matchesNames_def namesFor_def globMatches_def
      globLoop.simps numeral_eq_Suc Let_def)

lemma large_index_wraps: "parseUnsignedIndexWrapping ''4294967296'' = Some 0"
  by (simp add: indices_wrap isdigit_def)

text \<open>
  C23: The wildcard matcher of the model files ends on every pattern and text. Whatever it accepts
  matches the pattern (a star stands for any text, a question mark for one character); it accepts
  all that match when the text has no star of its own.
\<close>
theorem glob_matcher_decides_the_pattern:
  "\<exists>b. globMatches pattern txt = Some b \<and> (b \<longrightarrow> glob pattern txt)
     \<and> (CHR ''*'' \<notin> set txt \<longrightarrow> (b \<longleftrightarrow> glob pattern txt))"
  by (rule globMatches_decides)

lemma glob_matcher_decides_the_pattern_witness:
  "globMatches ''a*b?'' ''axxbxbc'' = Some True \<and> glob ''a*b?'' ''axxbxbc''"
proof -
  have *: "globMatches ''a*b?'' ''axxbxbc'' = Some True"
    by (simp add: globMatches_def globLoop.simps numeral_eq_Suc)
  then show ?thesis using glob_matcher_decides_the_pattern [of "''a*b?''" "''axxbxbc''"] by auto
qed

text \<open>
  C24: When no name of the called function contains a star, the rule found for a call is the first
  of the model whose pattern matches one of the names (mangled, demangled, without parameters) and
  whose argument numbers the call has, and none is found exactly when there is no such rule. For
  any names, a rule that is found has such a pattern and such argument numbers.
\<close>
theorem first_fitting_rule_is_found:
  "set_option (findMatchingRule demangle rules name argCount) \<subseteq> {r \<in> set rules. ruleFits demangle name argCount r}
   \<and> (CHR ''*'' \<in> \<Union> (set ` namesOf (namesFor demangle name))
      \<or> findMatchingRule demangle rules name argCount = List.find (ruleFits demangle name argCount) rules)"
  using found_rule_is_first [of demangle name rules argCount] found_rule_fits [of demangle rules name argCount]
  by (simp only: not_not simp_thms) argo

lemma first_fitting_rule_is_found_witness:
  "findMatchingRule id
     [\<lparr>bw_functionPattern = ''str*'', bw_destArgIndex = 0, bw_sizeArgIndex = 2, bw_kind = BoundedWrite\<rparr>,
      \<lparr>bw_functionPattern = ''strcpy'', bw_destArgIndex = 0, bw_sizeArgIndex = 0, bw_kind = UnboundedWrite\<rparr>] ''strcpy'' 2
   = Some \<lparr>bw_functionPattern = ''strcpy'', bw_destArgIndex = 0, bw_sizeArgIndex = 0, bw_kind = UnboundedWrite\<rparr>"
proof -
  let ?rules = "[\<lparr>bw_functionPattern = ''str*'', bw_destArgIndex = 0, bw_sizeArgIndex = 2, bw_kind = BoundedWrite\<rparr>,
      \<lparr>bw_functionPattern = ''strcpy'', bw_destArgIndex = 0, bw_sizeArgIndex = 0, bw_kind = UnboundedWrite\<rparr>]"
  have "glob ''strcpy'' ''strcpy''" by (simp add: glob_literal)
  then have "List.find (ruleFits id ''strcpy'' 2) ?rules
     = Some \<lparr>bw_functionPattern = ''strcpy'', bw_destArgIndex = 0, bw_sizeArgIndex = 0, bw_kind = UnboundedWrite\<rparr>"
    by (simp add: ruleFits_def fitsCall_def namesOf_def namesFor_def)
  moreover have "CHR ''*'' \<notin> \<Union> (set ` namesOf (namesFor id ''strcpy''))"
    by (simp add: namesOf_def namesFor_def)
  ultimately show ?thesis
    using conjunct2 [OF first_fitting_rule_is_found [of id ?rules "''strcpy''" 2]] by (simp only: simp_thms)
qed

text \<open>
  C25: A buffer model that is written as one line per rule is read back as it was, without error.
\<close>
theorem buffer_models_survive_printing:
  assumes "\<forall>r \<in> set rs. printableRule r"
  shows "parseBufferWriteModel path (Some (printBufferModel rs)) out = (None, rs)"
  using assms by (rule buffer_model_roundtrip)

lemma buffer_models_survive_printing_witness:
  "parseBufferWriteModel ''m'' (Some (printBufferModel
      [\<lparr>bw_functionPattern = ''mem*'', bw_destArgIndex = 0, bw_sizeArgIndex = 2, bw_kind = BoundedWrite\<rparr>,
       \<lparr>bw_functionPattern = ''strcpy'', bw_destArgIndex = 10, bw_sizeArgIndex = 0, bw_kind = UnboundedWrite\<rparr>])) []
     = (None,
      [\<lparr>bw_functionPattern = ''mem*'', bw_destArgIndex = 0, bw_sizeArgIndex = 2, bw_kind = BoundedWrite\<rparr>,
       \<lparr>bw_functionPattern = ''strcpy'', bw_destArgIndex = 10, bw_sizeArgIndex = 0, bw_kind = UnboundedWrite\<rparr>])"
  by (rule buffer_models_survive_printing)
    (simp add: printableRule_def word_def isspace_def hasUnsupportedBracketClassSyntax_def)

text \<open>
  C26: Reading a model file without error gives exactly the rules of its lines, in order. With an
  error, the message is that of the first line that is no rule, and the result holds the rules of
  the lines before it.
\<close>
theorem model_error_is_the_first_bad_line:
  assumes "parseBufferWriteModel path (Some content) out = (err, rs)"
  shows "case err of
       None \<Rightarrow> entries parseBufferRule 0 (linesOf content) = map Inr rs
     | Some e \<Rightarrow> \<exists>rest. entries parseBufferRule 0 (linesOf content) = map Inr rs @ Inl e # rest"
  using assms unfolding parseBufferWriteModel_def by (rule parse_error_names_the_first_bad_line)

lemma model_error_is_the_first_bad_line_witness:
  "\<exists>rest. entries parseBufferRule 0 (linesOf (unlines [''# rules'', ''unbounded_write f 1'', [], ''unbounded_write g -1'']))
     = [Inr \<lparr>bw_functionPattern = ''f'', bw_destArgIndex = 1, bw_sizeArgIndex = 0, bw_kind = UnboundedWrite\<rparr>]
         @ Inl (atLine ''invalid argument index'' 4) # rest"
proof -
  have "parseBufferWriteModel ''m'' (Some (unlines [''# rules'', ''unbounded_write f 1'', [], ''unbounded_write g -1''])) []
     = (Some (atLine ''invalid argument index'' 4),
        [\<lparr>bw_functionPattern = ''f'', bw_destArgIndex = 1, bw_sizeArgIndex = 0, bw_kind = UnboundedWrite\<rparr>])"
    by (simp add: parseBufferWriteModel_def parseModel_def stripComment_def trimCopy_def isspace_def
        tokensOf.simps parseBufferRule_def hasUnsupportedBracketClassSyntax_def parseUnsignedIndex_def
        isdigit_def digit_value_def Let_def numeral_eq_Suc unlines_def)
  from model_error_is_the_first_bad_line [OF this] show ?thesis by simp
qed

end
