(* ===== verification/CliValues.thy ===== *)
theory CliValues
  imports SmtSolver
begin

text \<open>
  The values of command line options and of configuration entries: the parsing helpers at the
  start of \<open>ArgParser.cpp\<close>.  A helper returns its message (\<open>Inl\<close>) or the value (\<open>Inr\<close>); what the
  code leaves unset on a failure is never read.  The lemmas give the accepted texts and values.
\<close>

section \<open>Numbers\<close>

text \<open>\<open>std::from_chars\<close> of an \<open>unsigned long long\<close>: the leading digits, unless there are none or too many.\<close>

definition fromChars :: "string \<Rightarrow> (u64 \<times> string) option" where
  "fromChars s =
     (let ds = takeWhile isdigit s in
      if ds = [] \<or> digitsValue 0 ds \<ge> 2 ^ 64 then None
      else Some (of_nat (digitsValue 0 ds), dropWhile isdigit s))"

definition parsePositiveUnsigned :: "string \<Rightarrow> string + u32" where
  "parsePositiveUnsigned input =
     (let trimmed = trimCopy input in
      if trimmed = [] then Inl ''value is empty''
      else case fromChars trimmed of
             Some (parsed, []) \<Rightarrow>
               (if parsed = 0 then Inl ''value must be greater than zero''
                else if parsed > ucast u32_max then Inl ''value is too large''
                else Inr (ucast parsed))
           | _ \<Rightarrow> Inl ''invalid numeric value'')"

definition parsePositiveU64 :: "string \<Rightarrow> string + u64" where
  "parsePositiveU64 input =
     (let trimmed = trimCopy input in
      if trimmed = [] then Inl ''value is empty''
      else case fromChars trimmed of
             Some (parsed, []) \<Rightarrow>
               (if parsed = 0 then Inl ''value must be greater than zero'' else Inr parsed)
           | _ \<Rightarrow> Inl ''invalid numeric value'')"

text \<open>\<open>hw\<close> is \<open>std::thread::hardware_concurrency()\<close>, 0 when it is not known.\<close>

definition parseJobsValue :: "u32 \<Rightarrow> string \<Rightarrow> string + (u32 \<times> bool)" where
  "parseJobsValue hw input =
     (let trimmed = trimCopy input in
      if map tolower trimmed = ''auto'' then Inr (if hw = 0 then 1 else hw, True)
      else case parsePositiveUnsigned trimmed of Inl e \<Rightarrow> Inl e | Inr n \<Rightarrow> Inr (n, False))"

definition stackLimitMultiplier :: "string \<Rightarrow> u64 option" where
  "stackLimitMultiplier suff =
     (let lowered = map tolower suff in
      if suff = [] \<or> lowered = ''b'' then Some 1
      else if lowered \<in> {''k'', ''kb'', ''kib''} then Some 1024
      else if lowered \<in> {''m'', ''mb'', ''mib''} then Some (1024 * 1024)
      else if lowered \<in> {''g'', ''gb'', ''gib''} then Some (1024 * 1024 * 1024)
      else None)"

definition parseStackLimitValue :: "string \<Rightarrow> string + u64" where
  "parseStackLimitValue input =
     (let trimmed = trimCopy input; numberPart = takeWhile isdigit trimmed in
      if trimmed = [] then Inl ''stack limit is empty''
      else if numberPart = [] then Inl ''stack limit must start with a number''
      else let suff = trimCopy (dropWhile isdigit trimmed) in
        (case fromChars numberPart of
           Some (base, []) \<Rightarrow>
             (if base = 0 then Inl ''stack limit must be greater than zero''
              else case stackLimitMultiplier suff of
                     None \<Rightarrow> Inl ''unsupported suffix (use bytes, KiB, MiB, or GiB)''
                   | Some multiplier \<Rightarrow>
                       (if base > u64_max div multiplier then Inl ''stack limit is too large''
                        else Inr (base * multiplier)))
         | _ \<Rightarrow> Inl ''invalid numeric value''))"

section \<open>Words\<close>

datatype AnalysisProfile = Fast | Full

datatype CompileIRFormat = BC | LL

definition parseSmtSwitch :: "string \<Rightarrow> string + bool" where
  "parseSmtSwitch input =
     (let lowered = map tolower (trimCopy input) in
      if lowered = ''on'' then Inr True else if lowered = ''off'' then Inr False
      else Inl (''expected '' @ quoted ''on'' @ '' or '' @ quoted ''off''))"

definition parseSmtMode :: "string \<Rightarrow> string + SolverMode" where
  "parseSmtMode input =
     (let lowered = map tolower (trimCopy input) in
      if lowered = ''single'' then Inr Single
      else if lowered = ''portfolio'' then Inr Portfolio
      else if lowered = ''cross-check'' then Inr CrossCheck
      else if lowered = ''dual-consensus'' then Inr DualConsensus
      else Inl (''expected '' @ quoted ''single'' @ '', '' @ quoted ''portfolio'' @ '', ''
                 @ quoted ''cross-check'' @ '', or '' @ quoted ''dual-consensus''))"

definition parseAnalysisProfile :: "string \<Rightarrow> string + AnalysisProfile" where
  "parseAnalysisProfile input =
     (let lowered = map tolower (trimCopy input) in
      if lowered = ''fast'' then Inr Fast else if lowered = ''full'' then Inr Full
      else Inl (''expected '' @ quoted ''fast'' @ '' or '' @ quoted ''full''))"

definition parseCompileIRFormat :: "string \<Rightarrow> string + CompileIRFormat" where
  "parseCompileIRFormat input =
     (let trimmed = trimCopy input;
          bare = (if trimmed \<noteq> [] \<and> hd trimmed = CHR ''.'' then tl trimmed else trimmed);
          lowered = map tolower bare in
      if lowered = ''bc'' then Inr BC else if lowered = ''ll'' then Inr LL
      else Inl (''expected '' @ quoted ''bc'' @ '' or '' @ quoted ''ll''))"

definition parseBoolSwitch :: "string \<Rightarrow> string + bool" where
  "parseBoolSwitch input =
     (let lowered = map tolower (trimCopy input) in
      if lowered \<in> {''true'', ''on'', ''yes'', ''1''} then Inr True
      else if lowered \<in> {''false'', ''off'', ''no'', ''0''} then Inr False
      else Inl ''expected true/false (or on/off, yes/no, 1/0)'')"

definition stripOptionalQuotes :: "string \<Rightarrow> string" where
  "stripOptionalQuotes input =
     (if length input \<ge> 2 \<and> (hd input = CHR 0x22 \<and> last input = CHR 0x22 \<or> hd input = CHR 0x27 \<and> last input = CHR 0x27)
      then butlast (tl input) else input)"

fun csvFields :: "string \<Rightarrow> string \<Rightarrow> string list" where
  "csvFields current [] = [trimCopy current]"
| "csvFields current (c # cs) =
     (if c = CHR '','' then trimCopy current # csvFields [] cs else csvFields (current @ [c]) cs)"

definition addCsvFilters :: "string list \<Rightarrow> string \<Rightarrow> string list" where
  "addCsvFilters dest input = dest @ filter (\<lambda>f. f \<noteq> []) (csvFields [] input)"

section \<open>What the readers accept\<close>

lemma fromChars_whole:
  "fromChars s = Some (n, []) \<longleftrightarrow>
     s \<noteq> [] \<and> list_all isdigit s \<and> digitsValue 0 s < 2 ^ 64 \<and> n = of_nat (digitsValue 0 s)"
proof (cases "list_all isdigit s")
  case True
  then have tw: "takeWhile isdigit s = s" "dropWhile isdigit s = []"
    using takeWhile_word [of s isdigit "[]"] unfolding list_all_iff append_Nil2 by blast+
  show ?thesis unfolding fromChars_def Let_def tw using True by auto
next
  case False
  then have "dropWhile isdigit s \<noteq> []" by (simp add: list_all_iff)
  then show ?thesis using False by (auto simp: fromChars_def Let_def)
qed

lemma digits_unat: "k < 2 ^ 64 \<Longrightarrow> unat (of_nat k :: u64) = k"
  by (simp add: unat_of_nat take_bit_nat_eq_self)

lemma multiplier_nonzero: "stackLimitMultiplier suff = Some m \<Longrightarrow> 0 < unat m"
  by (auto simp: stackLimitMultiplier_def Let_def split: if_splits)

lemma scaled_overflow:
  assumes "0 < unat (m :: u64)"
  shows "b > u64_max div m \<longleftrightarrow> 2 ^ 64 \<le> unat b * unat m"
proof -
  have "b > u64_max div m \<longleftrightarrow> (2 ^ 64 - 1) div unat m < unat b"
    by (simp add: word_less_nat_alt unat_div u64_max_nat)
  also have "\<dots> \<longleftrightarrow> 2 ^ 64 - 1 < unat b * unat m" using assms by (simp add: div_less_iff_less_mult)
  finally show ?thesis by auto
qed

lemma stackLimit_iff:
  "parseStackLimitValue input = Inr v \<longleftrightarrow>
     (\<exists>ds suff m. trimCopy input = ds @ suff \<and> ds \<noteq> [] \<and> list_all isdigit ds
        \<and> (suff = [] \<or> \<not> isdigit (hd suff)) \<and> stackLimitMultiplier (trimCopy suff) = Some m
        \<and> 0 < digitsValue 0 ds \<and> digitsValue 0 ds * unat m < 2 ^ 64
        \<and> unat v = digitsValue 0 ds * unat m)" (is "?l \<longleftrightarrow> ?r")
proof
  let ?s = "trimCopy input"
  let ?ds = "takeWhile isdigit ?s" and ?suff = "dropWhile isdigit ?s"
  assume ?l
  then obtain base m where b: "?ds \<noteq> []" "fromChars ?ds = Some (base, [])" "base \<noteq> 0"
      "stackLimitMultiplier (trimCopy ?suff) = Some m" "\<not> base > u64_max div m" "v = base * m"
    by (auto simp: parseStackLimitValue_def Let_def split: option.splits prod.splits list.splits if_splits)
  have base: "list_all isdigit ?ds" "unat base = digitsValue 0 ?ds"
    using b(2) by (auto simp: fromChars_whole digits_unat)
  have fits: "unat base * unat m < 2 ^ 64"
    using b(5) scaled_overflow [OF multiplier_nonzero [OF b(4)]] by simp
  have "0 < unat base" using b(3) by (simp add: unat_gt_0)
  moreover have "?suff = [] \<or> \<not> isdigit (hd ?suff)" using hd_dropWhile [of isdigit ?s] by blast
  ultimately show ?r
    using b(1,4) base fits u64_mul_exact [OF fits] b(6)
    by (intro exI [of _ ?ds] exI [of _ ?suff] exI [of _ m]) simp
next
  assume ?r
  then obtain ds suff m where r: "trimCopy input = ds @ suff" "ds \<noteq> []" "list_all isdigit ds"
      "suff = [] \<or> \<not> isdigit (hd suff)" "stackLimitMultiplier (trimCopy suff) = Some m"
      "0 < digitsValue 0 ds" "digitsValue 0 ds * unat m < 2 ^ 64" "unat v = digitsValue 0 ds * unat m"
    by blast
  let ?b = "of_nat (digitsValue 0 ds) :: u64"
  have split: "takeWhile isdigit (ds @ suff) = ds \<and> dropWhile isdigit (ds @ suff) = suff"
    using r(3,4) by (intro takeWhile_word) (auto simp: list_all_iff)
  have "digitsValue 0 ds \<le> digitsValue 0 ds * unat m" using multiplier_nonzero [OF r(5)] by simp
  then have lt: "digitsValue 0 ds < 2 ^ 64" using r(7) by linarith
  then have "fromChars ds = Some (?b, [])" "unat ?b = digitsValue 0 ds"
    using r(2,3) by (simp_all add: fromChars_whole digits_unat)
  moreover have "?b \<noteq> 0" using r(6) calculation(2) by (metis less_irrefl unat_0)
  moreover have "\<not> ?b > u64_max div m"
    using scaled_overflow [OF multiplier_nonzero [OF r(5)], of ?b] r(7) calculation(2) by simp
  moreover have "?b * m = v"
    using u64_mul_exact [of ?b m] r(7,8) calculation(2) by (simp add: word_unat_eq_iff)
  ultimately show ?l
    using r(1,2,5) split by (simp add: parseStackLimitValue_def Let_def)
qed

lemma positive_unsigned_nonzero: "parsePositiveUnsigned input = Inr n \<Longrightarrow> n \<noteq> 0"
proof -
  assume "parsePositiveUnsigned input = Inr n"
  then obtain p where p: "p \<noteq> 0" "\<not> p > ucast u32_max" "n = ucast (p :: u64)"
    by (auto simp: parsePositiveUnsigned_def Let_def split: option.splits prod.splits list.splits if_splits)
  have "unat p \<le> unat u32_max"
    using p(2) by (simp add: word_le_nat_alt not_less unsigned_ucast_eq u32_max_nat take_bit_nat_eq_self)
  then have "unat n = unat p" by (simp add: p(3) unsigned_ucast_eq u32_max_nat take_bit_nat_eq_self)
  with p(1) show "n \<noteq> 0" by (metis unat_0 unat_eq_zero)
qed

lemma positive_u64_nonzero: "parsePositiveU64 input = Inr n \<Longrightarrow> n \<noteq> 0"
  by (auto simp: parsePositiveU64_def Let_def split: option.splits prod.splits list.splits if_splits)

lemma jobs_nonzero: "parseJobsValue hw input = Inr (n, a) \<Longrightarrow> n \<noteq> 0"
  using positive_unsigned_nonzero
  by (auto simp: parseJobsValue_def Let_def split: sum.splits if_splits)

lemma stack_limit_nonzero: "parseStackLimitValue input = Inr v \<Longrightarrow> v \<noteq> 0"
proof -
  assume "parseStackLimitValue input = Inr v"
  then obtain ds suff m where "0 < digitsValue 0 ds" "stackLimitMultiplier (trimCopy suff) = Some m"
      "unat v = digitsValue 0 ds * unat m"
    by (auto simp: stackLimit_iff)
  then have "0 < unat v" using multiplier_nonzero by simp
  then show "v \<noteq> 0" by auto
qed

lemma csv_fields_are_trimmed: "f \<in> set (csvFields current input) \<Longrightarrow> \<exists>g. f = trimCopy g"
  by (induction input arbitrary: current) (auto split: if_splits)

end
