(* ===== verification/CliText.thy ===== *)
theory CliText
  imports Prelude
begin

text \<open>
  Splitting a command line into arguments and suggesting an option for an unknown one, from
  \<open>ArgParser.cpp\<close>.  The edit distance is computed row by row as in the code; the lemmas show it
  to be the least number of single character edits, and splitting to be the inverse of quoting.
\<close>

section \<open>Splitting\<close>

record split_state =
  sp_current :: string
  sp_args :: "string list"
  sp_inSingleQuote :: bool
  sp_inDoubleQuote :: bool
  sp_escaping :: bool

definition flushCurrent :: "split_state \<Rightarrow> split_state" where
  "flushCurrent s =
     (if sp_current s = [] then s else s\<lparr>sp_args := sp_args s @ [sp_current s], sp_current := []\<rparr>)"

definition splitChar :: "char \<Rightarrow> split_state \<Rightarrow> split_state" where
  "splitChar ch s =
     (if sp_escaping s then s\<lparr>sp_current := sp_current s @ [ch], sp_escaping := False\<rparr>
      else if sp_inSingleQuote s
      then if ch = CHR 0x27 then s\<lparr>sp_inSingleQuote := False\<rparr> else s\<lparr>sp_current := sp_current s @ [ch]\<rparr>
      else if sp_inDoubleQuote s
      then if ch = CHR 0x22 then s\<lparr>sp_inDoubleQuote := False\<rparr>
           else if ch = CHR 0x5C then s\<lparr>sp_escaping := True\<rparr>
           else s\<lparr>sp_current := sp_current s @ [ch]\<rparr>
      else if isspace ch then flushCurrent s
      else if ch = CHR 0x27 then s\<lparr>sp_inSingleQuote := True\<rparr>
      else if ch = CHR 0x22 then s\<lparr>sp_inDoubleQuote := True\<rparr>
      else if ch = CHR 0x5C then s\<lparr>sp_escaping := True\<rparr>
      else s\<lparr>sp_current := sp_current s @ [ch]\<rparr>)"

definition splitStart :: split_state where
  "splitStart = \<lparr>sp_current = [], sp_args = [], sp_inSingleQuote = False, sp_inDoubleQuote = False, sp_escaping = False\<rparr>"

definition splitCommandLine :: "string \<Rightarrow> string + string list" where
  "splitCommandLine commandLine =
     (let s = fold splitChar commandLine splitStart in
      if sp_escaping s then Inl ''Invalid command line: dangling escape at end of input''
      else if sp_inSingleQuote s \<or> sp_inDoubleQuote s
      then Inl ''Invalid command line: unterminated quoted string''
      else Inr (sp_args (flushCurrent s)))"

text \<open>An argument in double quotes, with a backslash before a quote or a backslash.\<close>

definition escapeChar :: "char \<Rightarrow> string" where
  "escapeChar c = (if c = CHR 0x22 \<or> c = CHR 0x5C then [CHR 0x5C, c] else [c])"

definition quoteArg :: "string \<Rightarrow> string" where
  "quoteArg a = [CHR 0x22] @ concat (map escapeChar a) @ [CHR 0x22]"

definition joinQuoted :: "string list \<Rightarrow> string" where
  "joinQuoted args = concat (map (\<lambda>a. quoteArg a @ [CHR '' '']) args)"

lemma split_escaped:
  "fold splitChar (concat (map escapeChar a))
     \<lparr>sp_current = cur, sp_args = as, sp_inSingleQuote = False, sp_inDoubleQuote = True, sp_escaping = False\<rparr>
   = \<lparr>sp_current = cur @ a, sp_args = as, sp_inSingleQuote = False, sp_inDoubleQuote = True, sp_escaping = False\<rparr>"
  by (induction a arbitrary: cur) (simp_all add: escapeChar_def splitChar_def)

lemma split_quoted:
  "fold splitChar (quoteArg a @ [CHR '' ''])
     \<lparr>sp_current = [], sp_args = as, sp_inSingleQuote = False, sp_inDoubleQuote = False, sp_escaping = False\<rparr>
   = \<lparr>sp_current = [], sp_args = as @ (if a = [] then [] else [a]),
      sp_inSingleQuote = False, sp_inDoubleQuote = False, sp_escaping = False\<rparr>"
proof -
  have "splitChar CHR 0x22
      \<lparr>sp_current = [], sp_args = as, sp_inSingleQuote = False, sp_inDoubleQuote = False, sp_escaping = False\<rparr>
     = \<lparr>sp_current = [], sp_args = as, sp_inSingleQuote = False, sp_inDoubleQuote = True, sp_escaping = False\<rparr>"
    by (simp add: splitChar_def isspace_def)
  then show ?thesis unfolding quoteArg_def
    by (simp add: split_escaped) (simp add: splitChar_def isspace_def flushCurrent_def)
qed

lemma split_joined:
  "fold splitChar (joinQuoted args)
     \<lparr>sp_current = [], sp_args = as, sp_inSingleQuote = False, sp_inDoubleQuote = False, sp_escaping = False\<rparr>
   = \<lparr>sp_current = [], sp_args = as @ filter (\<lambda>a. a \<noteq> []) args,
      sp_inSingleQuote = False, sp_inDoubleQuote = False, sp_escaping = False\<rparr>"
proof (induction args arbitrary: as)
  case (Cons a args)
  have e: "joinQuoted (a # args) = (quoteArg a @ [CHR '' '']) @ joinQuoted args" by (simp add: joinQuoted_def)
  have "fold splitChar (joinQuoted (a # args)) s
      = fold splitChar (joinQuoted args) (fold splitChar (quoteArg a @ [CHR '' '']) s)" for s
    by (simp add: e)
  then show ?case by (simp only: split_quoted Cons) simp
qed (simp add: joinQuoted_def)

lemma split_join: "splitCommandLine (joinQuoted args) = Inr (filter (\<lambda>a. a \<noteq> []) args)"
  by (simp add: splitCommandLine_def splitStart_def split_joined flushCurrent_def Let_def)

text \<open>No argument is ever empty.\<close>

lemma split_args_nonempty:
  assumes "splitCommandLine l = Inr args"
  shows "[] \<notin> set args"
proof -
  have inv: "[] \<notin> set (sp_args s) \<Longrightarrow> [] \<notin> set (sp_args (splitChar c s))" for c s
    by (simp add: splitChar_def flushCurrent_def)
  have "[] \<notin> set (sp_args (fold splitChar l s))" if "[] \<notin> set (sp_args s)" for s
    using that by (induction l arbitrary: s) (simp_all add: inv)
  from this [of splitStart] assms show ?thesis
    by (auto simp: splitCommandLine_def splitStart_def flushCurrent_def Let_def split: if_splits)
qed

section \<open>Edit distance\<close>

text \<open>
  One row of the table: \<open>left\<close> is the cell to the left, the list the row above from the cell
  above it on.
\<close>

fun levCells :: "char \<Rightarrow> nat \<Rightarrow> nat list \<Rightarrow> string \<Rightarrow> nat list" where
  "levCells a left (d # u # prev) (b # bs) =
     (let c = min (u + 1) (min (left + 1) (d + (if a = b then 0 else 1)))
      in c # levCells a c (u # prev) bs)"
| "levCells a left prev bs = []"

fun levRows :: "nat \<Rightarrow> nat list \<Rightarrow> string \<Rightarrow> string \<Rightarrow> nat list" where
  "levRows i prev [] rhs = prev"
| "levRows i prev (a # as) rhs = levRows (i + 1) (i # levCells a i prev rhs) as rhs"

definition levenshteinDistance :: "string \<Rightarrow> string \<Rightarrow> nat" where
  "levenshteinDistance lhs rhs =
     (if lhs = [] then length rhs else if rhs = [] then length lhs
      else levRows 1 [0..<length rhs + 1] lhs rhs ! length rhs)"

text \<open>The cost of a table cell, by recursion over the two texts.\<close>

fun editCost :: "string \<Rightarrow> string \<Rightarrow> nat" where
  "editCost [] ys = length ys"
| "editCost (x # xs) [] = length xs + 1"
| "editCost (x # xs) (y # ys) =
     min (editCost xs (y # ys) + 1) (min (editCost (x # xs) ys + 1) (editCost xs ys + (if x = y then 0 else 1)))"

text \<open>The row of the table after \<open>as\<close>.\<close>

definition levRow :: "string \<Rightarrow> string \<Rightarrow> nat list" where
  "levRow as bs = map (\<lambda>j. editCost (rev as) (rev (take j bs))) [0..<length bs + 1]"

lemma editCost_nil [simp]: "editCost xs [] = length xs"
  by (cases xs) auto

lemma levCells_row:
  "levCells a (editCost (a # as) bs) (map (\<lambda>j. editCost as (rev (take j cs) @ bs)) [0..<length cs + 1]) cs
     = map (\<lambda>j. editCost (a # as) (rev (take (j + 1) cs) @ bs)) [0..<length cs]"
proof (induction cs arbitrary: bs)
  case (Cons c cs)
  have split: "map f [0..<length (c # cs) + 1] = f 0 # map (\<lambda>j. f (j + 1)) [0..<length cs + 1]" for f :: "nat \<Rightarrow> nat"
    by (simp add: map_upt_Suc del: upt_Suc)
  have split2: "map f [0..<length cs + 1] = f 0 # map (\<lambda>j. f (j + 1)) [0..<length cs]" for f :: "nat \<Rightarrow> nat"
    by (simp add: map_upt_Suc del: upt_Suc)
  show ?case
    using Cons [of "c # bs"]
    by (simp add: split split2 Let_def map_upt_Suc del: upt_Suc)
qed simp


lemma levRow_step:
  "(length as + 1) # levCells a (length as + 1) (levRow as bs) bs = levRow (as @ [a]) bs"
  using levCells_row [of a "rev as" "[]" bs]
  by (simp add: levRow_def map_upt_Suc del: upt_Suc)

lemma levRows_row: "levRows (length as + 1) (levRow as rhs) bs rhs = levRow (as @ bs) rhs"
proof (induction bs arbitrary: as)
  case (Cons b bs)
  have "levRows (length as + 1) (levRow as rhs) (b # bs) rhs
     = levRows (length (as @ [b]) + 1) (levRow (as @ [b]) rhs) bs rhs"
    by (simp add: levRow_step [symmetric])
  then show ?case by (simp only: Cons) simp
qed simp

lemma editCost_length: "editCost [] ys = length ys" "editCost xs [] = length xs"
  by simp_all

lemma levenshtein_cost: "levenshteinDistance lhs rhs = editCost (rev lhs) (rev rhs)"
proof -
  have "levRow [] rhs = [0..<length rhs + 1]"
    by (rule nth_equalityI) (simp_all add: levRow_def del: upt_Suc)
  then have "levRows 1 [0..<length rhs + 1] lhs rhs = levRow lhs rhs"
    using levRows_row [of "[]" rhs lhs] by simp
  moreover have "levRow lhs rhs ! length rhs = editCost (rev lhs) (rev rhs)"
    by (simp add: levRow_def del: upt_Suc)
  ultimately show ?thesis by (simp add: levenshteinDistance_def)
qed

text \<open>An alignment of two texts with its number of edits.\<close>

inductive align :: "nat \<Rightarrow> string \<Rightarrow> string \<Rightarrow> bool" where
  stop: "align 0 [] []"
| keep: "align n xs ys \<Longrightarrow> align n (a # xs) (a # ys)"
| change: "align n xs ys \<Longrightarrow> align (n + 1) (a # xs) (b # ys)"
| del: "align n xs ys \<Longrightarrow> align (n + 1) (a # xs) ys"
| ins: "align n xs ys \<Longrightarrow> align (n + 1) xs (b # ys)"

text \<open>One edit: a character is put in, taken out or replaced.\<close>

inductive edit :: "string \<Rightarrow> string \<Rightarrow> bool" where
  insert: "edit (us @ vs) (us @ c # vs)"
| delete: "edit (us @ c # vs) (us @ vs)"
| replace: "edit (us @ c # vs) (us @ d # vs)"

lemma align_inserts: "align (length ys) [] ys"
  by (induction ys) (auto intro: align.stop dest: align.ins)

lemma align_deletes: "align (length xs) xs []"
  by (induction xs) (auto intro: align.stop dest: align.del)

lemma align_attains: "align (editCost xs ys) xs ys"
proof (induction xs ys rule: editCost.induct)
  case (1 ys)
  then show ?case by (simp add: align_inserts)
next
  case (2 x xs)
  then show ?case using align_deletes [of "x # xs"] by simp
next
  case (3 x xs y ys)
  show ?case using 3 align.keep [of _ xs ys x] align.change [of _ xs ys x y]
      align.del [of _ xs "y # ys" x] align.ins [of _ "x # xs" ys y]
    by (auto simp: min_def)
qed

lemma cost_least: "align n xs ys \<Longrightarrow> editCost xs ys \<le> n"
proof (induction rule: align.induct)
  case (keep n xs ys a)
  then show ?case by simp
next
  case (change n xs ys a b)
  then show ?case by (auto simp: min_def)
next
  case (del n xs ys a)
  then show ?case by (cases ys) (auto simp: min_def)
next
  case (ins n xs ys b)
  then show ?case by (cases xs) (auto simp: min_def)
qed simp

lemma align_refl: "align 0 xs xs"
  by (induction xs) (auto intro: align.intros)

lemma align_append: "align m xs us \<Longrightarrow> align n ys vs \<Longrightarrow> align (m + n) (xs @ ys) (us @ vs)"
proof (induction rule: align.induct)
  case (keep m xs us a)
  then show ?case by (simp add: align.keep)
next
  case (change m xs us a b)
  then show ?case using align.change [of "m + n"] by simp
next
  case (del m xs us a)
  then show ?case using align.del [of "m + n"] by simp
next
  case (ins m xs us b)
  then show ?case using align.ins [of "m + n"] by simp
qed simp

lemma align_split:
  "align m xs (us @ vs) \<Longrightarrow> \<exists>a b x1 x2. xs = x1 @ x2 \<and> m = a + b \<and> align a x1 us \<and> align b x2 vs"
proof (induction m xs "us @ vs" arbitrary: us rule: align.induct)
  case stop
  then show ?case using align.stop by fastforce
next
  case (keep n xs ys a)
  then show ?case
  proof (cases us)
    case Nil
    then show ?thesis using keep align.keep [OF keep(1)] align.stop
      by (intro exI [of _ 0] exI [of _ "n"] exI [of _ "[]"] exI [of _ "a # xs"]) auto
  next
    case (Cons u us')
    with keep obtain a b x1 x2 where "xs = x1 @ x2" "n = a + b" "align a x1 us'" "align b x2 vs" by auto
    then show ?thesis using Cons keep align.keep [of a x1 us' u]
      by (intro exI [of _ a] exI [of _ b] exI [of _ "u # x1"] exI [of _ x2]) auto
  qed
next
  case (change n xs ys a b)
  show ?case
  proof (cases us)
    case Nil
    then show ?thesis using change align.change [OF change(1)] align.stop
      by (intro exI [of _ 0] exI [of _ "n + 1"] exI [of _ "[]"] exI [of _ "a # xs"]) auto
  next
    case (Cons u us')
    with change obtain m k x1 x2 where "xs = x1 @ x2" "n = m + k" "align m x1 us'" "align k x2 vs" by auto
    then show ?thesis using Cons change align.change [of m x1 us' a u]
      by (intro exI [of _ "m + 1"] exI [of _ k] exI [of _ "a # x1"] exI [of _ x2]) auto
  qed
next
  case (del n xs a)
  then obtain m k x1 x2 where "xs = x1 @ x2" "n = m + k" "align m x1 us" "align k x2 vs" by auto
  then show ?case using align.del [of m x1 us a]
    by (intro exI [of _ "m + 1"] exI [of _ k] exI [of _ "a # x1"] exI [of _ x2]) auto
next
  case (ins n xs ys b)
  show ?case
  proof (cases us)
    case Nil
    then show ?thesis using ins align.ins [OF ins(1)] align.stop
      by (intro exI [of _ 0] exI [of _ "n + 1"] exI [of _ "[]"] exI [of _ "xs"]) auto
  next
    case (Cons u us')
    with ins obtain m k x1 x2 where "xs = x1 @ x2" "n = m + k" "align m x1 us'" "align k x2 vs" by auto
    then show ?thesis using Cons ins align.ins [of m x1 us' u]
      by (intro exI [of _ "m + 1"] exI [of _ k] exI [of _ x1] exI [of _ x2]) auto
  qed
qed

lemma align_drop: "align m xs (c # vs) \<Longrightarrow> \<exists>k \<le> m + 1. align k xs vs"
proof (induction m xs "c # vs" rule: align.induct)
  case (del n xs a)
  then obtain k where "k \<le> n + 1" "align k xs vs" by blast
  then show ?case using align.del [of k xs vs a] by (intro exI [of _ "k + 1"]) simp
next
  case (keep n xs)
  then show ?case using align.del [of n xs vs c] by blast
next
  case (change n xs a)
  then show ?case using align.del [of n xs vs a] by (intro exI [of _ "n + 1"]) simp
next
  case (ins n xs)
  then show ?case by (intro exI [of _ n]) simp
qed

lemma align_put: "align m xs (c # vs) \<Longrightarrow> \<exists>k \<le> m + 1. align k xs (d # vs)"
proof (induction m xs "c # vs" rule: align.induct)
  case (del n xs a)
  then obtain k where "k \<le> n + 1" "align k xs (d # vs)" by blast
  then show ?case using align.del [of k xs "d # vs" a] by (intro exI [of _ "k + 1"]) simp
next
  case (keep n xs)
  then show ?case using align.change [of n xs vs c d] by blast
next
  case (change n xs a)
  then show ?case using align.change [of n xs vs a d] by (intro exI [of _ "n + 1"]) simp
next
  case (ins n xs)
  then show ?case using align.ins [of n xs vs d] by (intro exI [of _ "n + 1"]) simp
qed

text \<open>An edit at the end of an alignment costs one at most.\<close>

lemma align_edit:
  assumes "edit ys zs" "align m xs ys"
  shows "\<exists>k \<le> m + 1. align k xs zs"
  using assms
proof cases
  case (insert us vs c)
  with assms(2) obtain a b x1 x2 where "xs = x1 @ x2" "m = a + b" "align a x1 us" "align b x2 vs"
    using align_split by blast
  then show ?thesis using insert align_append align.ins [of b x2 vs c]
    by (intro exI [of _ "m + 1"]) (metis add.assoc le_refl)
next
  case (delete us c vs)
  with assms(2) obtain a b x1 x2 where x: "xs = x1 @ x2" "m = a + b" "align a x1 us" "align b x2 (c # vs)"
    using align_split by blast
  from align_drop [OF x(4)] obtain k where "k \<le> b + 1" "align k x2 vs" by blast
  then show ?thesis using delete x align_append [OF x(3), of k x2 vs] by (intro exI [of _ "a + k"]) simp
next
  case (replace us c vs d)
  with assms(2) obtain a b x1 x2 where x: "xs = x1 @ x2" "m = a + b" "align a x1 us" "align b x2 (c # vs)"
    using align_split by blast
  from align_put [OF x(4)] obtain k where "k \<le> b + 1" "align k x2 (d # vs)" by blast
  then show ?thesis using replace x align_append [OF x(3), of k x2 "d # vs"]
    by (intro exI [of _ "a + k"]) simp
qed

lemma edits_cost: "(edit ^^ n) xs ys \<Longrightarrow> editCost xs ys \<le> n"
proof -
  have "\<exists>k \<le> n. align k xs ys" if "(edit ^^ n) xs ys" using that
  proof (induction n arbitrary: ys)
    case (Suc n)
    then obtain zs where z: "(edit ^^ n) xs zs" "edit zs ys" by auto
    from Suc.IH [OF z(1)] obtain k where k: "k \<le> n" "align k xs zs" by blast
    from align_edit [OF z(2) k(2)] obtain j where "j \<le> k + 1" "align j xs ys" by blast
    then show ?case using k(1) by (intro exI [of _ j]) simp
  qed (use align_refl in auto)
  then show "(edit ^^ n) xs ys \<Longrightarrow> editCost xs ys \<le> n" using cost_least le_trans by blast
qed

text \<open>The other way round: an alignment is a sequence of edits.\<close>

lemma edit_cons: "edit xs ys \<Longrightarrow> edit (a # xs) (a # ys)"
proof (induction rule: edit.induct)
  case (insert us vs c)
  show ?case using edit.insert [of "a # us" vs c] by simp
next
  case (delete us c vs)
  show ?case using edit.delete [of "a # us" c vs] by simp
next
  case (replace us c vs d)
  show ?case using edit.replace [of "a # us" c vs d] by simp
qed

lemma edits_cons: "(edit ^^ n) xs ys \<Longrightarrow> (edit ^^ n) (a # xs) (a # ys)"
  by (induction n arbitrary: ys) (auto intro: edit_cons)

lemma align_edits: "align n xs ys \<Longrightarrow> (edit ^^ n) xs ys"
proof (induction rule: align.induct)
  case (keep n xs ys a)
  then show ?case by (simp add: edits_cons)
next
  case (change n xs ys a b)
  have "edit (a # xs) (b # xs)" using edit.replace [of "[]"] by simp
  then show ?case using edits_cons [OF change.IH, of b] by (metis Suc_eq_plus1 relpowp_Suc_I2)
next
  case (del n xs ys a)
  have "edit (a # xs) xs" using edit.delete [of "[]"] by simp
  then show ?case using del.IH by (metis Suc_eq_plus1 relpowp_Suc_I2)
next
  case (ins n xs ys b)
  have "edit ys (b # ys)" using edit.insert [of "[]"] by simp
  then show ?case using ins.IH by (metis Suc_eq_plus1 relpowp_Suc_I)
qed simp

lemma edit_rev: "edit xs ys \<Longrightarrow> edit (rev xs) (rev ys)"
proof (induction rule: edit.induct)
  case (insert us vs c)
  show ?case using edit.insert [of "rev vs" "rev us" c] by simp
next
  case (delete us c vs)
  show ?case using edit.delete [of "rev vs" c "rev us"] by simp
next
  case (replace us c vs d)
  show ?case using edit.replace [of "rev vs" c "rev us" d] by simp
qed

lemma edits_rev: "(edit ^^ n) xs ys \<Longrightarrow> (edit ^^ n) (rev xs) (rev ys)"
  by (induction n arbitrary: ys) (auto intro: edit_rev)

lemma levenshtein_least:
  "(edit ^^ levenshteinDistance lhs rhs) lhs rhs" "(edit ^^ n) lhs rhs \<Longrightarrow> levenshteinDistance lhs rhs \<le> n"
  using edits_rev [OF align_edits [OF align_attains [of "rev lhs" "rev rhs"]]]
    edits_cost [OF edits_rev [of n lhs rhs]]
  by (simp_all add: levenshtein_cost)

section \<open>Suggestions\<close>

definition kCandidates :: "(string \<times> string) list" where
  "kCandidates =
     [(''-h'', ''-h''),
      (''--help'', ''--help''),
      (''--demangle'', ''--demangle''),
      (''--quiet'', ''--quiet''),
      (''--verbose'', ''--verbose''),
      (''--stl'', ''--STL''),
      (''--only-file'', ''--only-file''),
      (''--only-func'', ''--only-func''),
      (''--only-function'', ''--only-function''),
      (''--only-dir'', ''--only-dir''),
      (''--exclude-dir'', ''--exclude-dir''),
      (''--stack-limit'', ''--stack-limit''),
      (''--dump-filter'', ''--dump-filter''),
      (''--dump-ir'', ''--dump-ir''),
      (''-I'', ''-I''),
      (''-D'', ''-D''),
      (''--compile-arg'', ''--compile-arg''),
      (''--compdb-fast'', ''--compdb-fast''),
      (''--analysis-profile'', ''--analysis-profile''),
      (''--include-compdb-deps'', ''--include-compdb-deps''),
      (''--jobs'', ''--jobs''),
      (''--timing'', ''--timing''),
      (''--smt'', ''--smt=on''),
      (''--smt=on'', ''--smt=on''),
      (''--smt=off'', ''--smt=off''),
      (''--smt-backend'', ''--smt-backend=interval''),
      (''--smt-secondary-backend'', ''--smt-secondary-backend=interval''),
      (''--smt-mode'', ''--smt-mode=single''),
      (''--smt-timeout-ms'', ''--smt-timeout-ms''),
      (''--smt-budget-nodes'', ''--smt-budget-nodes''),
      (''--smt-rules'', ''--smt-rules''),
      (''--resource-model'', ''--resource-model''),
      (''--escape-model'', ''--escape-model''),
      (''--buffer-model'', ''--buffer-model''),
      (''--resource-cross-tu'', ''--resource-cross-tu''),
      (''--no-resource-cross-tu'', ''--no-resource-cross-tu''),
      (''--uninitialized-cross-tu'', ''--uninitialized-cross-tu''),
      (''--no-uninitialized-cross-tu'', ''--no-uninitialized-cross-tu''),
      (''--resource-summary-cache-dir'', ''--resource-summary-cache-dir''),
      (''--resource-summary-cache-memory-only'', ''--resource-summary-cache-memory-only''),
      (''--compile-ir-cache-dir'', ''--compile-ir-cache-dir''),
      (''--compile-ir-format'', ''--compile-ir-format''),
      (''--compile-ir-format=bc'', ''--compile-ir-format=bc''),
      (''--compile-ir-format=ll'', ''--compile-ir-format=ll''),
      (''--config'', ''--config''),
      (''--print-effective-config'', ''--print-effective-config''),
      (''--compile-commands'', ''--compile-commands''),
      (''--compdb'', ''--compdb''),
      (''--warnings-only'', ''--warnings-only''),
      (''--base-dir'', ''--base-dir''),
      (''--format'', ''--format=json''),
      (''--format=json'', ''--format=json''),
      (''--format=sarif'', ''--format=sarif''),
      (''--format=human'', ''--format=human''),
      (''--mode'', ''--mode=ir''),
      (''--mode=ir'', ''--mode=ir''),
      (''--mode=abi'', ''--mode=abi'')]"

text \<open>\<open>operator<\<close> of two string views.\<close>

fun viewLess :: "string \<Rightarrow> string \<Rightarrow> bool" where
  "viewLess xs [] = False"
| "viewLess [] (y # ys) = True"
| "viewLess (x # xs) (y # ys) =
     ((of_char x :: nat) < of_char y \<or> x = y \<and> viewLess xs ys)"

record CandidateScore =
  cs_suggestion :: string
  cs_distance :: nat
  cs_queryLength :: nat
  cs_valid :: bool

definition isFixedValue :: "string \<Rightarrow> bool" where
  "isFixedValue matcher = (CHR ''='' \<in> set matcher)"

definition considerCandidate :: "string \<Rightarrow> string \<times> string \<Rightarrow> CandidateScore \<Rightarrow> CandidateScore" where
  "considerCandidate loweredQuery candidate best =
     (let distance = levenshteinDistance loweredQuery (map tolower (fst candidate)) in
      if \<not> cs_valid best \<or> distance < cs_distance best
         \<or> (distance = cs_distance best \<and> viewLess (snd candidate) (cs_suggestion best))
      then best\<lparr>cs_valid := True, cs_distance := distance, cs_suggestion := snd candidate,
                cs_queryLength := length loweredQuery\<rparr>
      else best)"

definition findBestCandidate :: "string \<Rightarrow> bool \<Rightarrow> CandidateScore" where
  "findBestCandidate query onlyFixedValueCandidates =
     (let loweredQuery = map tolower query;
          best = \<lparr>cs_suggestion = [], cs_distance = 2 ^ 64 - 1, cs_queryLength = 0, cs_valid = False\<rparr> in
      if loweredQuery = [] then best
      else fold (\<lambda>candidate best.
                   if onlyFixedValueCandidates \<and> \<not> isFixedValue (fst candidate) then best
                   else considerCandidate loweredQuery candidate best) kCandidates best)"

definition maxAcceptedDistance :: "nat \<Rightarrow> nat" where
  "maxAcceptedDistance queryLength = (if queryLength \<le> 4 then 1 else if queryLength \<le> 12 then 2 else 3)"

definition suggestByMatcher :: "string \<Rightarrow> bool \<Rightarrow> string option" where
  "suggestByMatcher query onlyFixedValueCandidates =
     (let best = findBestCandidate query onlyFixedValueCandidates in
      if \<not> cs_valid best then None
      else if cs_distance best > maxAcceptedDistance (cs_queryLength best) then None
      else Some (cs_suggestion best))"

definition suggestFixedValueOption :: "string \<Rightarrow> string option" where
  "suggestFixedValueOption unknownOption = suggestByMatcher unknownOption True"

definition suggestLongOptionBase :: "string \<Rightarrow> string option" where
  "suggestLongOptionBase unknownOption = suggestByMatcher (takeWhile (\<lambda>c. c \<noteq> CHR ''='') unknownOption) False"

definition isLongOptionWithInlineValue :: "string \<Rightarrow> bool" where
  "isLongOptionWithInlineValue option =
     (length option > 2 \<and> option ! 0 = CHR ''-'' \<and> option ! 1 = CHR ''-'' \<and> CHR ''='' \<in> set option)"

definition suggest :: "string \<Rightarrow> string option" where
  "suggest unknownOption =
     (if unknownOption = [] \<or> hd unknownOption \<noteq> CHR ''-'' then None
      else if isLongOptionWithInlineValue unknownOption
      then case suggestFixedValueOption unknownOption of
             Some s \<Rightarrow> Some s
           | None \<Rightarrow> suggestLongOptionBase unknownOption
      else suggestByMatcher unknownOption False)"

definition unknownOptionErrorWithSuggestion :: "string \<Rightarrow> string" where
  "unknownOptionErrorWithSuggestion argStr =
     ''Unknown option: '' @ argStr
       @ (case suggest argStr of Some s \<Rightarrow> ''. Did you mean '' @ quoted s @ ''?'' | None \<Rightarrow> [])"

text \<open>The candidates that are compared with a query.\<close>

definition compared :: "bool \<Rightarrow> (string \<times> string) set" where
  "compared onlyFixed = {c \<in> set kCandidates. onlyFixed \<longrightarrow> isFixedValue (fst c)}"

definition distanceTo :: "string \<Rightarrow> string \<Rightarrow> nat" where
  "distanceTo query matcher = levenshteinDistance (map tolower query) (map tolower matcher)"

text \<open>The best score among the candidates seen so far.\<close>

definition bestOf :: "string \<Rightarrow> (string \<times> string) set \<Rightarrow> CandidateScore \<Rightarrow> bool" where
  "bestOf query cs best \<longleftrightarrow>
     (if cs_valid best
      then cs_queryLength best = length query
         \<and> (\<exists>c \<in> cs. cs_suggestion best = snd c \<and> cs_distance best = distanceTo query (fst c))
         \<and> (\<forall>c \<in> cs. cs_distance best \<le> distanceTo query (fst c))
      else cs = {})"

lemma consider_best:
  "bestOf query cs best \<Longrightarrow> bestOf query (Set.insert c cs) (considerCandidate (map tolower query) c best)"
proof (cases "cs_valid best")
  case True
  assume b: "bestOf query cs best"
  have low: "\<forall>x \<in> cs. cs_distance best \<le> distanceTo query (fst x)" using b True by (simp add: bestOf_def)
  have "\<forall>x \<in> cs. distanceTo query (fst c) \<le> distanceTo query (fst x)"
    if "distanceTo query (fst c) \<le> cs_distance best" using low that le_trans by blast
  then show ?thesis using b True
    by (auto simp: bestOf_def considerCandidate_def distanceTo_def [symmetric] Let_def)
qed (simp add: bestOf_def considerCandidate_def distanceTo_def [symmetric] Let_def)

lemma fold_best:
  "bestOf query cs best \<Longrightarrow>
     bestOf query (cs \<union> {c \<in> set l. only \<longrightarrow> isFixedValue (fst c)})
       (fold (\<lambda>c best. if only \<and> \<not> isFixedValue (fst c) then best
                       else considerCandidate (map tolower query) c best) l best)"
proof (induction l arbitrary: cs best)
  case (Cons c l)
  show ?case
  proof (cases "only \<and> \<not> isFixedValue (fst c)")
    case True
    then have "{x \<in> set (c # l). only \<longrightarrow> isFixedValue (fst x)} = {x \<in> set l. only \<longrightarrow> isFixedValue (fst x)}"
      by auto
    with True Cons.IH [OF Cons.prems] show ?thesis by simp
  next
    case False
    then have "cs \<union> {x \<in> set (c # l). only \<longrightarrow> isFixedValue (fst x)}
        = Set.insert c cs \<union> {x \<in> set l. only \<longrightarrow> isFixedValue (fst x)}" by auto
    moreover have "\<not> (only \<and> \<not> isFixedValue (fst c))" by fact
    ultimately show ?thesis
      using Cons.IH [OF consider_best [OF Cons.prems, of c]] by (simp only: fold_simps(2) if_False comp_apply)
  qed
qed simp

lemma best_candidate:
  "query \<noteq> [] \<Longrightarrow> bestOf query (compared only) (findBestCandidate query only)"
  using fold_best [of query "{}" "\<lparr>cs_suggestion = [], cs_distance = 2 ^ 64 - 1, cs_queryLength = 0, cs_valid = False\<rparr>" kCandidates only]
  by (simp add: findBestCandidate_def compared_def bestOf_def [of query "{}"] Let_def)

lemma suggestByMatcher_Some:
  assumes "suggestByMatcher query only = Some s"
  shows "\<exists>m. (m, s) \<in> compared only \<and> distanceTo query m \<le> maxAcceptedDistance (length query)
     \<and> (\<forall>c \<in> compared only. distanceTo query m \<le> distanceTo query (fst c))"
proof -
  let ?b = "findBestCandidate query only"
  have q: "query \<noteq> []" using assms
    by (auto simp: suggestByMatcher_def findBestCandidate_def Let_def)
  have v: "cs_valid ?b" "cs_distance ?b \<le> maxAcceptedDistance (cs_queryLength ?b)" "s = cs_suggestion ?b"
    using assms by (simp_all add: suggestByMatcher_def Let_def not_less split: if_splits)
  show ?thesis using best_candidate [OF q, of only] v by (auto simp: bestOf_def)
qed

lemma suggestByMatcher_None:
  assumes "suggestByMatcher query only = None" "query \<noteq> []" "c \<in> compared only"
  shows "maxAcceptedDistance (length query) < distanceTo query (fst c)"
  using assms best_candidate [OF assms(2), of only]
  by (auto simp: suggestByMatcher_def bestOf_def Let_def split: if_splits)

end
