(* ===== verification/Paths.thy ===== *)
theory Paths
  imports Prelude
begin

text \<open>
  The lexical operations of \<open>std::filesystem::path\<close> (POSIX) that the program uses, and the path
  predicates that several of its files repeat.  A path is its string.
\<close>

section \<open>Lexical operations\<close>

text \<open>The file names between the slashes, empty ones included.\<close>

fun splitSlash :: "string \<Rightarrow> string list" where
  "splitSlash [] = [[]]"
| "splitSlash (c # cs) =
     (if c = CHR ''/'' then [] # splitSlash cs
      else case splitSlash cs of [] \<Rightarrow> [[c]] | n # ns \<Rightarrow> (c # n) # ns)"

fun joinSlash :: "string list \<Rightarrow> string" where
  "joinSlash [] = []"
| "joinSlash [n] = n"
| "joinSlash (n # ns) = n @ CHR ''/'' # joinSlash ns"

definition isAbsolutePath :: "string \<Rightarrow> bool" where
  "isAbsolutePath p = (p \<noteq> [] \<and> hd p = CHR ''/'')"

text \<open>One name of the path onto the names kept so far (the last one first).\<close>

definition normalizeName :: "bool \<Rightarrow> string \<Rightarrow> string list \<Rightarrow> string list" where
  "normalizeName root n kept =
     (if n = [] \<or> n = ''.'' then kept
      else if n = ''..''
      then (case kept of
              [] \<Rightarrow> (if root then [] else [n])
            | k # ks \<Rightarrow> (if k = ''..'' then n # kept else ks))
      else n # kept)"

definition lexicallyNormal :: "string \<Rightarrow> string" where
  "lexicallyNormal p =
     (if p = [] then []
      else let root = isAbsolutePath p; names = splitSlash p;
               kept = rev (fold (normalizeName root) names []);
               trailing = (last names \<in> {[], ''.'', ''..''} \<and> kept \<noteq> [] \<and> last kept \<noteq> ''..'');
               out = (if root then ''/'' else []) @ joinSlash kept @ (if trailing then ''/'' else [])
           in if out = [] then ''.'' else out)"

definition joinPath :: "string \<Rightarrow> string \<Rightarrow> string" where
  "joinPath a b =
     (if isAbsolutePath b \<or> a = [] then b
      else if last a = CHR ''/'' then a @ b else a @ ''/'' @ b)"

definition parentPath :: "string \<Rightarrow> string" where
  "parentPath p =
     (let d = dropWhile (\<lambda>c. c \<noteq> CHR ''/'') (rev p); d' = dropWhile (\<lambda>c. c = CHR ''/'') d in
      if d = [] then [] else if d' = [] then ''/'' else rev d')"

end
