(* ===== verification/CliParser.thy ===== *)
theory CliParser
  imports CliValues CliText Paths StackUsage
begin

text \<open>
  The command line and the configuration file: the rest of \<open>ArgParser.cpp\<close>.  The configuration is
  a record without the shared indices that the application adds later.  The file system is the
  argument \<open>files\<close> (the text of a file that can be opened) with the current directory \<open>cwd\<close>;
  \<open>hw\<close> is the number of hardware threads.
\<close>

section \<open>The configuration\<close>

datatype OutputFormat = Human | Json | Sarif

record FullConfig =
  cf_stackLimit :: u64
  cf_smtBudgetNodes :: u64
  cf_excludeDirs :: "string list"
  cf_extraCompileArgs :: "string list"
  cf_onlyDirs :: "string list"
  cf_onlyFiles :: "string list"
  cf_onlyFunctions :: "string list"
  cf_smtRules :: "string list"
  cf_compileIRCacheDir :: string
  cf_smtSecondaryBackend :: string
  cf_smtBackend :: string
  cf_dumpIRPath :: string
  cf_escapeModelPath :: string
  cf_bufferModelPath :: string
  cf_resourceModelPath :: string
  cf_resourceSummaryCacheDir :: string
  cf_smtTimeoutMs :: u32
  cf_jobs :: u32
  cf_smtMode :: SolverMode
  cf_mode :: AnalysisMode
  cf_profile :: AnalysisProfile
  cf_compileIRFormat :: CompileIRFormat
  cf_compdbFast :: bool
  cf_demangle :: bool
  cf_dumpFilter :: bool
  cf_dumpIRIsDir :: bool
  cf_includeSTL :: bool
  cf_requireCompilationDatabase :: bool
  cf_jobsAuto :: bool
  cf_quiet :: bool
  cf_smtEnabled :: bool
  cf_timing :: bool
  cf_uninitializedCrossTU :: bool
  cf_resourceCrossTU :: bool
  cf_resourceSummaryMemoryOnly :: bool
  cf_warningsOnly :: bool

definition defaultConfig :: FullConfig where
  "defaultConfig =
     \<lparr>cf_stackLimit = 8 * 1024 * 1024, cf_smtBudgetNodes = 10000,
      cf_excludeDirs = [], cf_extraCompileArgs = [], cf_onlyDirs = [], cf_onlyFiles = [],
      cf_onlyFunctions = [], cf_smtRules = [], cf_compileIRCacheDir = [],
      cf_smtSecondaryBackend = [], cf_smtBackend = ''interval'', cf_dumpIRPath = [],
      cf_escapeModelPath = [], cf_bufferModelPath = [], cf_resourceModelPath = [],
      cf_resourceSummaryCacheDir = ''.cache/resource-lifetime'',
      cf_smtTimeoutMs = 50, cf_jobs = 0, cf_smtMode = Single, cf_mode = IR, cf_profile = Full,
      cf_compileIRFormat = BC, cf_compdbFast = False, cf_demangle = False, cf_dumpFilter = False,
      cf_dumpIRIsDir = False, cf_includeSTL = False, cf_requireCompilationDatabase = False,
      cf_jobsAuto = True, cf_quiet = False, cf_smtEnabled = False, cf_timing = False,
      cf_uninitializedCrossTU = True, cf_resourceCrossTU = True,
      cf_resourceSummaryMemoryOnly = False, cf_warningsOnly = False\<rparr>"

record ParsedArguments =
  pa_config :: FullConfig
  pa_inputFilenames :: "string list"
  pa_sarifBaseDir :: string
  pa_sarifOutPath :: string
  pa_configPath :: string
  pa_compileCommandsPath :: string
  pa_outputFormat :: OutputFormat
  pa_compileCommandsExplicit :: bool
  pa_analysisProfileExplicit :: bool
  pa_includeCompdbDeps :: bool
  pa_printEffectiveConfig :: bool
  pa_verbose :: bool

definition defaultParsed :: ParsedArguments where
  "defaultParsed =
     \<lparr>pa_config = defaultConfig, pa_inputFilenames = [], pa_sarifBaseDir = [], pa_sarifOutPath = [],
      pa_configPath = [], pa_compileCommandsPath = [], pa_outputFormat = Human,
      pa_compileCommandsExplicit = False, pa_analysisProfileExplicit = False,
      pa_includeCompdbDeps = False, pa_printEffectiveConfig = False, pa_verbose = False\<rparr>"

datatype ParseStatus = StatusOk | StatusHelp | StatusError

record ParseResult =
  pr_error :: string
  pr_parsed :: ParsedArguments
  pr_status :: ParseStatus

definition makeError :: "string \<Rightarrow> ParseResult" where
  "makeError e = \<lparr>pr_error = e, pr_parsed = defaultParsed, pr_status = StatusError\<rparr>"

text \<open>A change of the configuration inside the parsed arguments.\<close>

definition onConfig :: "(FullConfig \<Rightarrow> FullConfig) \<Rightarrow> ParsedArguments \<Rightarrow> ParsedArguments" where
  "onConfig f p = p\<lparr>pa_config := f (pa_config p)\<rparr>"

section \<open>Options with a value\<close>

text \<open>
  \<open>consumeLongOptionValue\<close>: \<open>rest\<close> are the arguments after the current one; \<open>None\<close> says that the
  argument is not this option.
\<close>

definition consumeLongOptionValue :: "string \<Rightarrow> string \<Rightarrow> string list \<Rightarrow> (string + string \<times> string list) option" where
  "consumeLongOptionValue argStr optionName rest =
     (if argStr = optionName
      then (case rest of
              [] \<Rightarrow> Some (Inl (''Missing argument for '' @ optionName))
            | v # rest' \<Rightarrow> Some (Inr (v, rest')))
      else if prefix (optionName @ ''='') argStr
      then Some (Inr (drop (length optionName + 1) argStr, rest))
      else None)"

lemma consume_length:
  "consumeLongOptionValue a n rest = Some (Inr (v, rest')) \<Longrightarrow> length rest' \<le> length rest"
  by (auto simp: consumeLongOptionValue_def split: if_splits list.splits)

lemma consume_append:
  "consumeLongOptionValue a n rest = Some (Inr (v, rest')) \<Longrightarrow>
     consumeLongOptionValue a n (rest @ ys) = Some (Inr (v, rest' @ ys))"
  "consumeLongOptionValue a n rest = None \<Longrightarrow> consumeLongOptionValue a n (rest @ ys) = None"
  by (auto simp: consumeLongOptionValue_def split: if_splits list.splits)

section \<open>SMT options\<close>

datatype SmtOptionSource = FromConfig | FromCli

type_synonym smt_apply = "FullConfig \<Rightarrow> string \<Rightarrow> SmtOptionSource \<Rightarrow> string + FullConfig"

definition applySmtSwitchOption :: smt_apply where
  "applySmtSwitchOption cfg v source =
     (case (if source = FromCli then parseSmtSwitch v else parseBoolSwitch v) of
        Inl e \<Rightarrow> Inl e | Inr b \<Rightarrow> Inr (cfg\<lparr>cf_smtEnabled := b\<rparr>))"

definition applySmtBackendOption :: smt_apply where
  "applySmtBackendOption cfg v source = Inr (cfg\<lparr>cf_smtBackend := v\<rparr>)"

definition applySmtSecondaryBackendOption :: smt_apply where
  "applySmtSecondaryBackendOption cfg v source = Inr (cfg\<lparr>cf_smtSecondaryBackend := v\<rparr>)"

definition applySmtModeOption :: smt_apply where
  "applySmtModeOption cfg v source =
     (case parseSmtMode v of Inl e \<Rightarrow> Inl e | Inr m \<Rightarrow> Inr (cfg\<lparr>cf_smtMode := m\<rparr>))"

definition applySmtTimeoutOption :: smt_apply where
  "applySmtTimeoutOption cfg v source =
     (case parsePositiveUnsigned v of Inl e \<Rightarrow> Inl e | Inr n \<Rightarrow> Inr (cfg\<lparr>cf_smtTimeoutMs := n\<rparr>))"

definition applySmtBudgetOption :: smt_apply where
  "applySmtBudgetOption cfg v source =
     (case parsePositiveU64 v of Inl e \<Rightarrow> Inl e | Inr n \<Rightarrow> Inr (cfg\<lparr>cf_smtBudgetNodes := n\<rparr>))"

definition applySmtRulesOption :: smt_apply where
  "applySmtRulesOption cfg v source =
     (let cleared = (if source = FromConfig then cfg\<lparr>cf_smtRules := []\<rparr> else cfg)
      in Inr (cleared\<lparr>cf_smtRules := addCsvFilters (cf_smtRules cleared) v\<rparr>))"

record SmtOptionSpec =
  so_configKey :: string
  so_cliOption :: string
  so_apply :: smt_apply
  so_impliesSmtEnabled :: bool

definition smtSpec :: "string \<Rightarrow> smt_apply \<Rightarrow> bool \<Rightarrow> SmtOptionSpec" where
  "smtSpec key app enables =
     \<lparr>so_configKey = key, so_cliOption = ''--'' @ key, so_apply = app, so_impliesSmtEnabled = enables\<rparr>"

definition kSmtOptionSpecs :: "SmtOptionSpec list" where
  "kSmtOptionSpecs =
     [smtSpec ''smt'' applySmtSwitchOption False,
      smtSpec ''smt-backend'' applySmtBackendOption True,
      smtSpec ''smt-secondary-backend'' applySmtSecondaryBackendOption True,
      smtSpec ''smt-mode'' applySmtModeOption True,
      smtSpec ''smt-timeout-ms'' applySmtTimeoutOption True,
      smtSpec ''smt-budget-nodes'' applySmtBudgetOption True,
      smtSpec ''smt-rules'' applySmtRulesOption True]"

definition findSmtOptionByConfigKey :: "string \<Rightarrow> SmtOptionSpec option" where
  "findSmtOptionByConfigKey key = List.find (\<lambda>spec. so_configKey spec = key) kSmtOptionSpecs"

definition applySmtOptionValue :: "SmtOptionSpec \<Rightarrow> smt_apply" where
  "applySmtOptionValue spec cfg v source =
     (case so_apply spec cfg v source of
        Inl e \<Rightarrow> Inl e
      | Inr cfg' \<Rightarrow> Inr (if so_impliesSmtEnabled spec then cfg'\<lparr>cf_smtEnabled := True\<rparr> else cfg'))"

section \<open>The configuration file\<close>

definition resolveConfigRelativePath :: "string \<Rightarrow> string \<Rightarrow> string" where
  "resolveConfigRelativePath configDir rawPath =
     (if rawPath = [] then rawPath
      else if isAbsolutePath rawPath then lexicallyNormal rawPath
      else lexicallyNormal (joinPath configDir rawPath))"

definition kConfigBoolSpecs :: "(string \<times> (FullConfig \<Rightarrow> bool \<Rightarrow> FullConfig)) list" where
  "kConfigBoolSpecs =
     [(''timing'', \<lambda>cfg b. cfg\<lparr>cf_timing := b\<rparr>),
      (''warnings-only'', \<lambda>cfg b. cfg\<lparr>cf_warningsOnly := b\<rparr>),
      (''quiet'', \<lambda>cfg b. cfg\<lparr>cf_quiet := b\<rparr>),
      (''demangle'', \<lambda>cfg b. cfg\<lparr>cf_demangle := b\<rparr>),
      (''resource-cross-tu'', \<lambda>cfg b. cfg\<lparr>cf_resourceCrossTU := b\<rparr>),
      (''uninitialized-cross-tu'', \<lambda>cfg b. cfg\<lparr>cf_uninitializedCrossTU := b\<rparr>),
      (''resource-summary-cache-memory-only'', \<lambda>cfg b. cfg\<lparr>cf_resourceSummaryMemoryOnly := b\<rparr>)]"

definition kParsedBoolSpecs :: "(string \<times> (ParsedArguments \<Rightarrow> bool \<Rightarrow> ParsedArguments)) list" where
  "kParsedBoolSpecs = [(''include-compdb-deps'', \<lambda>p b. p\<lparr>pa_includeCompdbDeps := b\<rparr>)]"

text \<open>\<open>tryApplyBoolConfigSpec\<close>: \<open>None\<close> when the key is not in the table.\<close>

definition tryApplyBoolConfigSpec :: "string \<Rightarrow> string \<Rightarrow> 'o \<Rightarrow> (string \<times> ('o \<Rightarrow> bool \<Rightarrow> 'o)) list \<Rightarrow> (string + 'o) option" where
  "tryApplyBoolConfigSpec key v owner specs =
     (case List.find (\<lambda>spec. fst spec = key) specs of
        None \<Rightarrow> None
      | Some spec \<Rightarrow>
          (case parseBoolSwitch v of
             Inl e \<Rightarrow> Some (Inl (''invalid '' @ fst spec @ '' value: '' @ e))
           | Inr b \<Rightarrow> Some (Inr (snd spec owner b))))"

definition normalizeKey :: "string \<Rightarrow> string" where
  "normalizeKey keyRaw = map (\<lambda>c. if c = CHR ''_'' then CHR ''-'' else c) (map tolower (trimCopy keyRaw))"

text \<open>The entries that are looked up after the tables of switches.\<close>

definition applyLateEntry :: "string \<Rightarrow> string \<Rightarrow> string \<Rightarrow> ParsedArguments \<Rightarrow> string + ParsedArguments" where
  "applyLateEntry configDir key v p =
     (case findSmtOptionByConfigKey key of
        Some spec \<Rightarrow>
          (case applySmtOptionValue spec (pa_config p) v FromConfig of
             Inl e \<Rightarrow> Inl (''invalid '' @ key @ '' value: '' @ e)
           | Inr cfg \<Rightarrow> Inr (p\<lparr>pa_config := cfg\<rparr>))
      | None \<Rightarrow>
          (if key = ''resource-summary-cache-dir''
           then Inr (onConfig (\<lambda>c. c\<lparr>cf_resourceSummaryCacheDir := resolveConfigRelativePath configDir v\<rparr>) p)
           else if key = ''compile-ir-cache-dir''
           then Inr (onConfig (\<lambda>c. c\<lparr>cf_compileIRCacheDir := resolveConfigRelativePath configDir v\<rparr>) p)
           else if key = ''compile-ir-format''
           then case parseCompileIRFormat v of
                  Inl e \<Rightarrow> Inl (''invalid compile-ir-format value: '' @ e)
                | Inr f \<Rightarrow> Inr (onConfig (\<lambda>c. c\<lparr>cf_compileIRFormat := f\<rparr>) p)
           else Inl (''unknown key '' @ quoted key)))"

definition applySwitchEntry :: "string \<Rightarrow> string \<Rightarrow> string \<Rightarrow> ParsedArguments \<Rightarrow> string + ParsedArguments" where
  "applySwitchEntry configDir key v p =
     (case tryApplyBoolConfigSpec key v (pa_config p) kConfigBoolSpecs of
        Some (Inr cfg) \<Rightarrow> Inr (p\<lparr>pa_config := cfg\<rparr>)
      | Some (Inl e) \<Rightarrow> Inl e
      | None \<Rightarrow>
          (case tryApplyBoolConfigSpec key v p kParsedBoolSpecs of
             Some r \<Rightarrow> r
           | None \<Rightarrow> applyLateEntry configDir key v p))"

definition applyConfigEntry :: "u32 \<Rightarrow> string \<Rightarrow> string \<Rightarrow> string \<Rightarrow> ParsedArguments \<Rightarrow> string + ParsedArguments" where
  "applyConfigEntry hw configDir keyRaw valueRaw p =
     (let key = normalizeKey keyRaw; v = stripOptionalQuotes (trimCopy valueRaw) in
      if key = [] then Inl ''empty key''
      else if key = ''resource-model''
      then Inr (onConfig (\<lambda>c. c\<lparr>cf_resourceModelPath := resolveConfigRelativePath configDir v\<rparr>) p)
      else if key = ''escape-model''
      then Inr (onConfig (\<lambda>c. c\<lparr>cf_escapeModelPath := resolveConfigRelativePath configDir v\<rparr>) p)
      else if key = ''buffer-model''
      then Inr (onConfig (\<lambda>c. c\<lparr>cf_bufferModelPath := resolveConfigRelativePath configDir v\<rparr>) p)
      else if key = ''compile-commands'' \<or> key = ''compdb''
      then Inr (p\<lparr>pa_compileCommandsPath := resolveConfigRelativePath configDir v,
                  pa_compileCommandsExplicit := True\<rparr>)
      else if key = ''analysis-profile''
      then case parseAnalysisProfile v of
             Inl e \<Rightarrow> Inl (''invalid analysis profile: '' @ e)
           | Inr f \<Rightarrow> Inr ((onConfig (\<lambda>c. c\<lparr>cf_profile := f\<rparr>) p)\<lparr>pa_analysisProfileExplicit := True\<rparr>)
      else if key = ''jobs''
      then case parseJobsValue hw v of
             Inl e \<Rightarrow> Inl (''invalid jobs value: '' @ e)
           | Inr (n, a) \<Rightarrow> Inr (onConfig (\<lambda>c. c\<lparr>cf_jobs := n, cf_jobsAuto := a\<rparr>) p)
      else applySwitchEntry configDir key v p)"

definition isConfigComment :: "string \<Rightarrow> bool" where
  "isConfigComment trimmed =
     (trimmed = [] \<or> prefix ''#'' trimmed \<or> prefix '';'' trimmed \<or> prefix ''//'' trimmed)"

fun loadConfigLines :: "u32 \<Rightarrow> string \<Rightarrow> nat \<Rightarrow> string list \<Rightarrow> ParsedArguments \<Rightarrow> string + ParsedArguments" where
  "loadConfigLines hw baseDir lineNo [] p = Inr p"
| "loadConfigLines hw baseDir lineNo (l # ls) p =
     (let trimmed = trimCopy l; atThis = to_string (lineNo + 1) @ '': '' in
      if isConfigComment trimmed then loadConfigLines hw baseDir (lineNo + 1) ls p
      else if CHR ''='' \<notin> set trimmed
      then Inl (''Invalid config syntax at line '' @ atThis @ ''expected key=value'')
      else let key = trimCopy (takeWhile (\<lambda>c. c \<noteq> CHR ''='') trimmed);
               v = trimCopy (tl (dropWhile (\<lambda>c. c \<noteq> CHR ''='') trimmed))
           in if key = [] then Inl (''Invalid config syntax at line '' @ atThis @ ''empty key'')
              else case applyConfigEntry hw baseDir key v p of
                     Inl e \<Rightarrow> Inl (''Invalid config entry at line '' @ atThis @ e)
                   | Inr p' \<Rightarrow> loadConfigLines hw baseDir (lineNo + 1) ls p')"

definition loadConfigFile :: "u32 \<Rightarrow> string \<Rightarrow> (string \<Rightarrow> string option) \<Rightarrow> string \<Rightarrow> ParsedArguments \<Rightarrow> string + ParsedArguments" where
  "loadConfigFile hw cwd files configPath p =
     (case files configPath of
        None \<Rightarrow> Inl (''Unable to open config file: '' @ configPath)
      | Some content \<Rightarrow>
          (let parent = parentPath configPath; baseDir = (if parent = [] then cwd else parent)
           in loadConfigLines hw baseDir 0 (linesOf content) p))"

section \<open>The arguments\<close>

text \<open>What an argument does: it is not this option, it is consumed, or parsing ends.\<close>

datatype arg_step = Unhandled | Advance ParsedArguments "string list" | Finish ParseResult

definition flagOption :: "string \<Rightarrow> string list \<Rightarrow> (ParsedArguments \<Rightarrow> ParsedArguments) \<Rightarrow> ParsedArguments \<Rightarrow> string list \<Rightarrow> arg_step" where
  "flagOption argStr names f p rest = (if argStr \<in> set names then Advance (f p) rest else Unhandled)"

definition valueOption :: "string \<Rightarrow> string \<Rightarrow> (string \<Rightarrow> ParsedArguments \<Rightarrow> string + ParsedArguments) \<Rightarrow> ParsedArguments \<Rightarrow> string list \<Rightarrow> arg_step" where
  "valueOption argStr name f p rest =
     (case consumeLongOptionValue argStr name rest of
        None \<Rightarrow> Unhandled
      | Some (Inl e) \<Rightarrow> Finish (makeError e)
      | Some (Inr (v, rest')) \<Rightarrow>
          (case f v p of Inl e \<Rightarrow> Finish (makeError e) | Inr p' \<Rightarrow> Advance p' rest'))"

fun firstOf :: "(ParsedArguments \<Rightarrow> string list \<Rightarrow> arg_step) list \<Rightarrow> ParsedArguments \<Rightarrow> string list \<Rightarrow> arg_step" where
  "firstOf [] p rest = Unhandled"
| "firstOf (h # hs) p rest = (case h p rest of Unhandled \<Rightarrow> firstOf hs p rest | s \<Rightarrow> s)"

text \<open>An option whose value is stored as it is.\<close>

definition storing :: "(string \<Rightarrow> ParsedArguments \<Rightarrow> ParsedArguments) \<Rightarrow> string \<Rightarrow> ParsedArguments \<Rightarrow> string + ParsedArguments" where
  "storing f v p = Inr (f v p)"

definition storingConfig :: "(string \<Rightarrow> FullConfig \<Rightarrow> FullConfig) \<Rightarrow> string \<Rightarrow> ParsedArguments \<Rightarrow> string + ParsedArguments" where
  "storingConfig f v p = Inr (onConfig (f v) p)"

text \<open>An option whose value is parsed; a bad value is reported under the option's name.\<close>

definition parsing :: "string \<Rightarrow> (string \<Rightarrow> string + 'v) \<Rightarrow> ('v \<Rightarrow> ParsedArguments \<Rightarrow> ParsedArguments) \<Rightarrow> string \<Rightarrow> ParsedArguments \<Rightarrow> string + ParsedArguments" where
  "parsing name parse f v p =
     (case parse v of Inl e \<Rightarrow> Inl (''Invalid '' @ name @ '' value: '' @ e) | Inr x \<Rightarrow> Inr (f x p))"

text \<open>\<open>-I\<close> and \<open>-D\<close>: the value is the next argument or the rest of this one.\<close>

definition compilerOption :: "string \<Rightarrow> string \<Rightarrow> ParsedArguments \<Rightarrow> string list \<Rightarrow> arg_step" where
  "compilerOption argStr opt p rest =
     (if argStr = opt
      then (case rest of
              [] \<Rightarrow> Finish (makeError (''Missing argument for '' @ opt))
            | v # rest' \<Rightarrow> Advance (onConfig (\<lambda>c. c\<lparr>cf_extraCompileArgs := cf_extraCompileArgs c @ [opt @ v]\<rparr>) p) rest')
      else if prefix opt argStr \<and> length argStr > 2
      then Advance (onConfig (\<lambda>c. c\<lparr>cf_extraCompileArgs := cf_extraCompileArgs c @ [argStr]\<rparr>) p) rest
      else Unhandled)"

definition helpOption :: "string \<Rightarrow> ParsedArguments \<Rightarrow> string list \<Rightarrow> arg_step" where
  "helpOption argStr p rest =
     (if argStr = ''-h'' \<or> argStr = ''--help''
      then Finish \<lparr>pr_error = [], pr_parsed = p, pr_status = StatusHelp\<rparr> else Unhandled)"

definition generalOptions :: "string \<Rightarrow> (ParsedArguments \<Rightarrow> string list \<Rightarrow> arg_step) list" where
  "generalOptions argStr =
     [helpOption argStr,
      flagOption argStr [''--demangle''] (onConfig (\<lambda>c. c\<lparr>cf_demangle := True\<rparr>)),
      flagOption argStr [''--quiet''] (onConfig (\<lambda>c. c\<lparr>cf_quiet := True\<rparr>)),
      flagOption argStr [''--verbose''] (\<lambda>p. (onConfig (\<lambda>c. c\<lparr>cf_quiet := False\<rparr>) p)\<lparr>pa_verbose := True\<rparr>),
      flagOption argStr [''--print-effective-config''] (\<lambda>p. p\<lparr>pa_printEffectiveConfig := True\<rparr>),
      valueOption argStr ''--config'' (storing (\<lambda>v p. p\<lparr>pa_configPath := v\<rparr>)),
      flagOption argStr [''--STL'', ''--stl''] (onConfig (\<lambda>c. c\<lparr>cf_includeSTL := True\<rparr>))]"

definition filterOptions :: "string \<Rightarrow> (ParsedArguments \<Rightarrow> string list \<Rightarrow> arg_step) list" where
  "filterOptions argStr =
     [valueOption argStr ''--only-file'' (storingConfig (\<lambda>v c. c\<lparr>cf_onlyFiles := cf_onlyFiles c @ [v]\<rparr>)),
      valueOption argStr ''--only-func'' (storingConfig (\<lambda>v c. c\<lparr>cf_onlyFunctions := addCsvFilters (cf_onlyFunctions c) v\<rparr>)),
      valueOption argStr ''--only-function'' (storingConfig (\<lambda>v c. c\<lparr>cf_onlyFunctions := addCsvFilters (cf_onlyFunctions c) v\<rparr>)),
      valueOption argStr ''--only-dir'' (storingConfig (\<lambda>v c. c\<lparr>cf_onlyDirs := cf_onlyDirs c @ [v]\<rparr>)),
      valueOption argStr ''--exclude-dir'' (storingConfig (\<lambda>v c. c\<lparr>cf_excludeDirs := addCsvFilters (cf_excludeDirs c) v\<rparr>)),
      valueOption argStr ''--stack-limit''
        (parsing ''--stack-limit'' parseStackLimitValue (\<lambda>n. onConfig (\<lambda>c. c\<lparr>cf_stackLimit := n\<rparr>)))]"

definition compileOptions :: "string \<Rightarrow> (ParsedArguments \<Rightarrow> string list \<Rightarrow> arg_step) list" where
  "compileOptions argStr =
     [flagOption argStr [''--dump-filter''] (onConfig (\<lambda>c. c\<lparr>cf_dumpFilter := True\<rparr>)),
      valueOption argStr ''--dump-ir'' (storingConfig (\<lambda>v c. c\<lparr>cf_dumpIRPath := v\<rparr>)),
      compilerOption argStr ''-I'',
      compilerOption argStr ''-D'',
      valueOption argStr ''--compile-arg'' (storingConfig (\<lambda>v c. c\<lparr>cf_extraCompileArgs := cf_extraCompileArgs c @ [v]\<rparr>)),
      flagOption argStr [''--compdb-fast''] (onConfig (\<lambda>c. c\<lparr>cf_compdbFast := True\<rparr>))]"

definition analysisOptions :: "u32 \<Rightarrow> string \<Rightarrow> (ParsedArguments \<Rightarrow> string list \<Rightarrow> arg_step) list" where
  "analysisOptions hw argStr =
     [valueOption argStr ''--analysis-profile''
        (parsing ''--analysis-profile'' parseAnalysisProfile
          (\<lambda>f p. (onConfig (\<lambda>c. c\<lparr>cf_profile := f\<rparr>) p)\<lparr>pa_analysisProfileExplicit := True\<rparr>)),
      flagOption argStr [''--include-compdb-deps''] (\<lambda>p. p\<lparr>pa_includeCompdbDeps := True\<rparr>),
      valueOption argStr ''--jobs''
        (parsing ''--jobs'' (parseJobsValue hw) (\<lambda>(n, a). onConfig (\<lambda>c. c\<lparr>cf_jobs := n, cf_jobsAuto := a\<rparr>))),
      flagOption argStr [''--timing''] (onConfig (\<lambda>c. c\<lparr>cf_timing := True\<rparr>))]"

text \<open>\<open>tryConsumeAndApplySmtCliOption\<close>, one entry for each row of the table.\<close>

definition smtOptions :: "string \<Rightarrow> (ParsedArguments \<Rightarrow> string list \<Rightarrow> arg_step) list" where
  "smtOptions argStr =
     map (\<lambda>spec. valueOption argStr (so_cliOption spec)
            (\<lambda>v p. case applySmtOptionValue spec (pa_config p) v FromCli of
                     Inl e \<Rightarrow> Inl (''Invalid '' @ so_cliOption spec @ '' value: '' @ e)
                   | Inr cfg \<Rightarrow> Inr (p\<lparr>pa_config := cfg\<rparr>)))
       kSmtOptionSpecs"

definition modelOptions :: "string \<Rightarrow> (ParsedArguments \<Rightarrow> string list \<Rightarrow> arg_step) list" where
  "modelOptions argStr =
     [valueOption argStr ''--resource-model'' (storingConfig (\<lambda>v c. c\<lparr>cf_resourceModelPath := v\<rparr>)),
      valueOption argStr ''--escape-model'' (storingConfig (\<lambda>v c. c\<lparr>cf_escapeModelPath := v\<rparr>)),
      valueOption argStr ''--buffer-model'' (storingConfig (\<lambda>v c. c\<lparr>cf_bufferModelPath := v\<rparr>)),
      flagOption argStr [''--resource-cross-tu''] (onConfig (\<lambda>c. c\<lparr>cf_resourceCrossTU := True\<rparr>)),
      flagOption argStr [''--no-resource-cross-tu''] (onConfig (\<lambda>c. c\<lparr>cf_resourceCrossTU := False\<rparr>)),
      flagOption argStr [''--uninitialized-cross-tu''] (onConfig (\<lambda>c. c\<lparr>cf_uninitializedCrossTU := True\<rparr>)),
      flagOption argStr [''--no-uninitialized-cross-tu''] (onConfig (\<lambda>c. c\<lparr>cf_uninitializedCrossTU := False\<rparr>)),
      valueOption argStr ''--resource-summary-cache-dir'' (storingConfig (\<lambda>v c. c\<lparr>cf_resourceSummaryCacheDir := v\<rparr>)),
      valueOption argStr ''--compile-ir-cache-dir'' (storingConfig (\<lambda>v c. c\<lparr>cf_compileIRCacheDir := v\<rparr>)),
      valueOption argStr ''--compile-ir-format''
        (parsing ''--compile-ir-format'' parseCompileIRFormat (\<lambda>f. onConfig (\<lambda>c. c\<lparr>cf_compileIRFormat := f\<rparr>))),
      flagOption argStr [''--resource-summary-cache-memory-only''] (onConfig (\<lambda>c. c\<lparr>cf_resourceSummaryMemoryOnly := True\<rparr>))]"

definition setCompileCommands :: "string \<Rightarrow> ParsedArguments \<Rightarrow> ParsedArguments" where
  "setCompileCommands v p = p\<lparr>pa_compileCommandsPath := v, pa_compileCommandsExplicit := True\<rparr>"

definition compdbOption :: "string \<Rightarrow> ParsedArguments \<Rightarrow> string list \<Rightarrow> arg_step" where
  "compdbOption argStr p rest =
     (if argStr = ''--compile-commands'' \<or> argStr = ''--compdb''
      then case rest of
             [] \<Rightarrow> Finish (makeError (''Missing argument for '' @ argStr))
           | v # rest' \<Rightarrow> Advance (setCompileCommands v p) rest'
      else Unhandled)"

definition compdbOptions :: "string \<Rightarrow> (ParsedArguments \<Rightarrow> string list \<Rightarrow> arg_step) list" where
  "compdbOptions argStr =
     [compdbOption argStr,
      valueOption argStr ''--compile-commands'' (storing setCompileCommands),
      valueOption argStr ''--compdb'' (storing setCompileCommands)]"

definition modeOption :: "string \<Rightarrow> ParsedArguments \<Rightarrow> string list \<Rightarrow> arg_step" where
  "modeOption argStr p rest =
     (if prefix ''--mode='' argStr
      then let modeStr = drop 7 argStr in
           if modeStr = ''ir'' then Advance (onConfig (\<lambda>c. c\<lparr>cf_mode := IR\<rparr>) p) rest
           else if modeStr = ''abi'' then Advance (onConfig (\<lambda>c. c\<lparr>cf_mode := ABI\<rparr>) p) rest
           else Finish (makeError (''Unknown mode: '' @ modeStr @ '' (expected '' @ quoted ''ir''
                                     @ '' or '' @ quoted ''abi'' @ '')''))
      else Unhandled)"

definition unknownOption :: "string \<Rightarrow> ParsedArguments \<Rightarrow> string list \<Rightarrow> arg_step" where
  "unknownOption argStr p rest =
     (if argStr \<noteq> [] \<and> hd argStr = CHR ''-''
      then Finish (makeError (unknownOptionErrorWithSuggestion argStr)) else Unhandled)"

definition outputOptions :: "string \<Rightarrow> (ParsedArguments \<Rightarrow> string list \<Rightarrow> arg_step) list" where
  "outputOptions argStr =
     [flagOption argStr [''--warnings-only''] (onConfig (\<lambda>c. c\<lparr>cf_warningsOnly := True\<rparr>)),
      flagOption argStr [''--format=json''] (\<lambda>p. p\<lparr>pa_outputFormat := Json\<rparr>),
      flagOption argStr [''--format=sarif''] (\<lambda>p. p\<lparr>pa_outputFormat := Sarif\<rparr>),
      flagOption argStr [''--format=human''] (\<lambda>p. p\<lparr>pa_outputFormat := Human\<rparr>),
      valueOption argStr ''--base-dir'' (storing (\<lambda>v p. p\<lparr>pa_sarifBaseDir := v\<rparr>)),
      valueOption argStr ''--sarif-out'' (storing (\<lambda>v p. p\<lparr>pa_sarifOutPath := v\<rparr>)),
      modeOption argStr,
      unknownOption argStr]"

definition addInput :: "string \<Rightarrow> ParsedArguments \<Rightarrow> ParsedArguments" where
  "addInput argStr p = p\<lparr>pa_inputFilenames := pa_inputFilenames p @ [argStr]\<rparr>"

text \<open>One turn of the loop over the arguments.\<close>

definition handlers :: "u32 \<Rightarrow> string \<Rightarrow> (ParsedArguments \<Rightarrow> string list \<Rightarrow> arg_step) list" where
  "handlers hw argStr =
     generalOptions argStr @ filterOptions argStr @ compileOptions argStr @ analysisOptions hw argStr
       @ smtOptions argStr @ modelOptions argStr @ compdbOptions argStr @ outputOptions argStr"

definition parseArg :: "u32 \<Rightarrow> string \<Rightarrow> ParsedArguments \<Rightarrow> string list \<Rightarrow> arg_step" where
  "parseArg hw argStr p rest =
     (case firstOf (handlers hw argStr) p rest of
        Unhandled \<Rightarrow> Advance (addInput argStr p) rest
      | s \<Rightarrow> s)"

text \<open>A handler looks at most at the argument after its own, and leaves the others as they are.\<close>

definition local_handler :: "(ParsedArguments \<Rightarrow> string list \<Rightarrow> arg_step) \<Rightarrow> bool" where
  "local_handler h \<longleftrightarrow>
     (\<forall>p rest ys. (h p rest = Unhandled \<longrightarrow> h p (rest @ ys) = Unhandled)
        \<and> (\<forall>p' rest'. h p rest = Advance p' rest' \<longrightarrow>
              length rest' \<le> length rest \<and> h p (rest @ ys) = Advance p' (rest' @ ys)))"

lemma local_flag: "local_handler (flagOption a ns f)"
  by (simp add: local_handler_def flagOption_def)

lemma local_value: "local_handler (valueOption a n f)"
proof -
  have "valueOption a n f p (rest @ ys) = Unhandled" if "valueOption a n f p rest = Unhandled" for p rest ys
    using that consume_append(2) [of a n rest ys]
    by (auto simp: valueOption_def split: option.splits sum.splits prod.splits)
  moreover have "length rest' \<le> length rest \<and> valueOption a n f p (rest @ ys) = Advance p' (rest' @ ys)"
    if adv: "valueOption a n f p rest = Advance p' rest'" for p rest ys p' rest'
  proof -
    obtain v where "consumeLongOptionValue a n rest = Some (Inr (v, rest'))" "f v p = Inr p'"
      using adv by (auto simp: valueOption_def split: option.splits sum.splits prod.splits)
    then show ?thesis using consume_append(1) [of a n rest v rest' ys] consume_length [of a n rest v rest']
      by (simp add: valueOption_def)
  qed
  ultimately show ?thesis by (simp add: local_handler_def)
qed

lemma local_compiler: "local_handler (compilerOption a opt)"
  by (auto simp: local_handler_def compilerOption_def split: list.splits)

lemma local_firstOf: "\<forall>h \<in> set hs. local_handler h \<Longrightarrow> local_handler (firstOf hs)"
proof (induction hs)
  case (Cons h hs)
  then have h: "local_handler h" and hs: "local_handler (firstOf hs)" by auto
  show ?case unfolding local_handler_def
  proof (intro allI)
    fix p rest ys
    show "(firstOf (h # hs) p rest = Unhandled \<longrightarrow> firstOf (h # hs) p (rest @ ys) = Unhandled)
        \<and> (\<forall>p' rest'. firstOf (h # hs) p rest = Advance p' rest' \<longrightarrow>
              length rest' \<le> length rest \<and> firstOf (h # hs) p (rest @ ys) = Advance p' (rest' @ ys))"
      using h hs unfolding local_handler_def
      by (cases "h p rest") (simp_all)
  qed
qed (simp add: local_handler_def)

lemma local_others:
  "local_handler (helpOption a)" "local_handler (compdbOption a)"
  "local_handler (modeOption a)" "local_handler (unknownOption a)"
  by (auto simp: local_handler_def helpOption_def compdbOption_def modeOption_def unknownOption_def Let_def
      split: list.splits)

lemmas handler_groups = handlers_def generalOptions_def filterOptions_def compileOptions_def
  analysisOptions_def smtOptions_def modelOptions_def compdbOptions_def outputOptions_def

lemma handlers_local: "local_handler (firstOf (handlers hw a))"
  by (rule local_firstOf)
    (auto simp: handler_groups local_flag local_value local_compiler local_others)

lemma parseArg_local:
  assumes "parseArg hw a p rest = Advance p' rest'"
  shows "length rest' \<le> length rest" "parseArg hw a p (rest @ ys) = Advance p' (rest' @ ys)"
proof -
  note loc = handlers_local [of hw a, unfolded local_handler_def, THEN spec, of p, THEN spec, of rest, THEN spec, of ys]
  show "length rest' \<le> length rest" "parseArg hw a p (rest @ ys) = Advance p' (rest' @ ys)"
    using assms loc by (auto simp: parseArg_def split: arg_step.splits)
qed

text \<open>\<open>parseArguments\<close>: the loop, the scan for the configuration, and the whole.\<close>

function argLoop :: "u32 \<Rightarrow> ParsedArguments \<Rightarrow> string list \<Rightarrow> ParseResult" where
  "argLoop hw p [] = \<lparr>pr_error = [], pr_parsed = p, pr_status = StatusOk\<rparr>"
| "argLoop hw p (a # rest) =
     (case parseArg hw a p rest of
        Advance p' rest' \<Rightarrow> argLoop hw p' rest'
      | Finish r \<Rightarrow> r
      | Unhandled \<Rightarrow> makeError [])"
  by pat_completeness auto
termination
  by (relation "measure (\<lambda>(hw, p, as). length as)")
    (auto dest: parseArg_local(1) simp: le_imp_less_Suc)

record PreParsedCliMeta =
  pm_configPath :: string
  pm_printEffectiveConfig :: bool

function preScanMetaOptions :: "PreParsedCliMeta \<Rightarrow> string list \<Rightarrow> string + PreParsedCliMeta" where
  "preScanMetaOptions m [] = Inr m"
| "preScanMetaOptions m (a # rest) =
     (if a = ''--print-effective-config''
      then preScanMetaOptions (m\<lparr>pm_printEffectiveConfig := True\<rparr>) rest
      else case consumeLongOptionValue a ''--config'' rest of
             None \<Rightarrow> preScanMetaOptions m rest
           | Some (Inl e) \<Rightarrow> Inl e
           | Some (Inr (v, rest')) \<Rightarrow> preScanMetaOptions (m\<lparr>pm_configPath := v\<rparr>) rest')"
  by pat_completeness auto
termination
  by (relation "measure (\<lambda>(m, as). length as)") (auto dest: consume_length simp: le_imp_less_Suc)

definition startParsed :: ParsedArguments where
  "startParsed =
     onConfig (\<lambda>c. c\<lparr>cf_quiet := False, cf_warningsOnly := False,
                     cf_extraCompileArgs := cf_extraCompileArgs c @ [''-O0'', ''--ct-optnone'']\<rparr>) defaultParsed"

definition parseArguments :: "u32 \<Rightarrow> string \<Rightarrow> (string \<Rightarrow> string option) \<Rightarrow> string list \<Rightarrow> ParseResult" where
  "parseArguments hw cwd files analyzerArgs =
     (case preScanMetaOptions \<lparr>pm_configPath = [], pm_printEffectiveConfig = False\<rparr> analyzerArgs of
        Inl e \<Rightarrow> makeError e
      | Inr m \<Rightarrow>
          (let p = startParsed\<lparr>pa_printEffectiveConfig := pm_printEffectiveConfig m\<rparr> in
           if pm_configPath m = [] then argLoop hw p analyzerArgs
           else case loadConfigFile hw cwd files (pm_configPath m) p of
                  Inl e \<Rightarrow> makeError e
                | Inr p' \<Rightarrow> argLoop hw (p'\<lparr>pa_configPath := pm_configPath m\<rparr>) analyzerArgs))"

definition parseCommandLine :: "u32 \<Rightarrow> string \<Rightarrow> (string \<Rightarrow> string option) \<Rightarrow> string \<Rightarrow> ParseResult" where
  "parseCommandLine hw cwd files commandLine =
     (case splitCommandLine commandLine of
        Inl e \<Rightarrow> makeError e
      | Inr args \<Rightarrow> parseArguments hw cwd files args)"

section \<open>What parsing keeps\<close>

text \<open>
  The numbers of a configuration are positive where the analyzer divides or waits by them, no
  filter from a list is empty, and the two compiler flags every compilation needs come first.
\<close>

definition wellFormedConfig :: "FullConfig \<Rightarrow> bool" where
  "wellFormedConfig c \<longleftrightarrow>
     cf_stackLimit c \<noteq> 0 \<and> cf_smtBudgetNodes c \<noteq> 0 \<and> cf_smtTimeoutMs c \<noteq> 0
     \<and> (cf_jobsAuto c \<or> cf_jobs c \<noteq> 0)
     \<and> [] \<notin> set (cf_onlyFunctions c) \<union> set (cf_excludeDirs c) \<union> set (cf_smtRules c)
     \<and> prefix [''-O0'', ''--ct-optnone''] (cf_extraCompileArgs c)"

abbreviation wellFormed :: "ParsedArguments \<Rightarrow> bool" where
  "wellFormed p \<equiv> wellFormedConfig (pa_config p)"

lemma never_zero [simp]:
  "parsePositiveUnsigned v \<noteq> Inr 0" "parsePositiveU64 v \<noteq> Inr 0" "parseStackLimitValue v \<noteq> Inr 0"
  "parseJobsValue hw v \<noteq> Inr (0, a)"
  using positive_unsigned_nonzero positive_u64_nonzero stack_limit_nonzero jobs_nonzero by blast+

lemma csv_no_empty [simp]: "[] \<in> set (addCsvFilters xs v) \<longleftrightarrow> [] \<in> set xs"
  by (auto simp: addCsvFilters_def)

lemma defaults_are_well_formed: "wellFormed startParsed"
  by (simp add: wellFormedConfig_def startParsed_def onConfig_def defaultParsed_def defaultConfig_def)

text \<open>The options and entries that keep the configuration well formed, and a handler that does.\<close>

fun goodStep :: "arg_step \<Rightarrow> bool" where
  "goodStep Unhandled = True"
| "goodStep (Advance p rest) = wellFormed p"
| "goodStep (Finish r) =
     (pr_status r = StatusError \<and> pr_error r \<noteq> []
        \<or> pr_status r = StatusHelp \<and> pr_error r = [] \<and> wellFormed (pr_parsed r))"

definition keeps :: "(ParsedArguments \<Rightarrow> string list \<Rightarrow> arg_step) \<Rightarrow> bool" where
  "keeps h \<longleftrightarrow> (\<forall>p rest. wellFormed p \<longrightarrow> goodStep (h p rest))"

lemma keeps_flag: "\<forall>p. wellFormed p \<longrightarrow> wellFormed (f p) \<Longrightarrow> keeps (flagOption a ns f)"
  by (simp add: keeps_def flagOption_def)

lemma consume_cases:
  fixes r :: "(string + string \<times> string list) option"
  obtains "r = None" | e where "r = Some (Inl e)" | v rest where "r = Some (Inr (v, rest))"
proof (cases r)
  case (Some x)
  then show ?thesis using that(2,3) by (cases x) auto
qed (use that(1) in simp)

lemma consume_error: "consumeLongOptionValue a n rest = Some (Inl e) \<Longrightarrow> e \<noteq> []"
  by (auto simp: consumeLongOptionValue_def split: if_splits list.splits)

lemma keeps_value:
  "\<forall>v p. wellFormed p \<longrightarrow> (case f v p of Inl e \<Rightarrow> e \<noteq> [] | Inr p' \<Rightarrow> wellFormed p') \<Longrightarrow> keeps (valueOption a n f)"
  unfolding keeps_def valueOption_def
  by (auto simp: makeError_def dest: consume_error split: option.splits sum.splits prod.splits) 

lemma keeps_compiler: "opt \<noteq> [] \<Longrightarrow> keeps (compilerOption a opt)"
  by (auto simp: keeps_def compilerOption_def onConfig_def wellFormedConfig_def makeError_def
      prefix_append split: list.splits)

lemma keeps_others:
  "keeps (helpOption a)" "keeps (compdbOption a)" "keeps (modeOption a)" "keeps (unknownOption a)"
  by (auto simp: keeps_def helpOption_def compdbOption_def modeOption_def unknownOption_def Let_def
      makeError_def setCompileCommands_def onConfig_def wellFormedConfig_def
      unknownOptionErrorWithSuggestion_def split: list.splits)

lemma smt_rules_keep: "wellFormedConfig c \<Longrightarrow> applySmtRulesOption c v s = Inr c' \<Longrightarrow> wellFormedConfig c'"
  by (cases s) (auto simp: applySmtRulesOption_def wellFormedConfig_def Let_def)

lemma smt_spec_keeps:
  assumes "spec \<in> set kSmtOptionSpecs" "wellFormedConfig c"
  shows "case applySmtOptionValue spec c v s of Inl e \<Rightarrow> True | Inr c' \<Rightarrow> wellFormedConfig c'"
proof -
  have "wellFormedConfig c'" if ap: "so_apply spec c v s = Inr c'" for c'
  proof -
    have enabled: "wellFormedConfig (c\<lparr>cf_smtEnabled := b\<rparr>)" for b
      using assms(2) by (simp add: wellFormedConfig_def)
    from assms ap smt_rules_keep [of c v s c'] enabled show ?thesis
      by (auto simp: kSmtOptionSpecs_def smtSpec_def applySmtSwitchOption_def
          applySmtBackendOption_def applySmtSecondaryBackendOption_def applySmtModeOption_def
          applySmtTimeoutOption_def applySmtBudgetOption_def wellFormedConfig_def
          split: sum.splits)
  qed
  then show ?thesis by (auto simp: applySmtOptionValue_def wellFormedConfig_def split: sum.splits)
qed

lemma keeps_firstOf: "\<forall>h \<in> set hs. keeps h \<Longrightarrow> keeps (firstOf hs)"
proof (induction hs)
  case (Cons h hs)
  have "goodStep (firstOf (h # hs) p rest)" if wf: "wellFormed p" for p rest
  proof -
    have "goodStep (h p rest)" "goodStep (firstOf hs p rest)" using Cons wf by (simp_all add: keeps_def)
    then show ?thesis by (cases "h p rest") simp_all
  qed
  then show ?case by (simp add: keeps_def)
qed (simp add: keeps_def)

lemmas config_keeps = wellFormedConfig_def onConfig_def storing_def storingConfig_def parsing_def
  stack_limit_nonzero prefix_append setCompileCommands_def

lemma handlers_keep: "keeps (firstOf (handlers hw a))"
proof (rule keeps_firstOf)
  have "\<forall>h \<in> set (generalOptions a). keeps h"
    by (auto simp: generalOptions_def keeps_others config_keeps intro!: keeps_flag keeps_value)
  moreover have "\<forall>h \<in> set (filterOptions a). keeps h"
    by (auto simp: filterOptions_def config_keeps intro!: keeps_value split: sum.splits)
  moreover have "\<forall>h \<in> set (compileOptions a). keeps h"
    by (auto simp: compileOptions_def config_keeps keeps_compiler intro!: keeps_flag keeps_value)
  moreover have "\<forall>h \<in> set (analysisOptions hw a). keeps h"
    by (auto simp: analysisOptions_def config_keeps dest: jobs_nonzero intro!: keeps_flag keeps_value
        split: sum.splits)
  moreover have "\<forall>h \<in> set (smtOptions a). keeps h"
    using smt_spec_keeps by (fastforce simp: smtOptions_def intro!: keeps_value split: sum.splits)
  moreover have "\<forall>h \<in> set (modelOptions a). keeps h"
    by (auto simp: modelOptions_def config_keeps intro!: keeps_flag keeps_value split: sum.splits)
  moreover have "\<forall>h \<in> set (compdbOptions a). keeps h"
    by (auto simp: compdbOptions_def config_keeps keeps_others intro!: keeps_value)
  moreover have "\<forall>h \<in> set (outputOptions a). keeps h"
    by (auto simp: outputOptions_def config_keeps keeps_others intro!: keeps_flag keeps_value)
  ultimately show "\<forall>h \<in> set (handlers hw a). keeps h" by (auto simp: handlers_def)
qed

text \<open>What a result promises.\<close>

definition soundResult :: "ParseResult \<Rightarrow> bool" where
  "soundResult r \<longleftrightarrow> (pr_status r = StatusError \<longleftrightarrow> pr_error r \<noteq> [])
     \<and> (pr_status r \<noteq> StatusError \<longrightarrow> wellFormed (pr_parsed r))"

lemma parseArg_keeps:
  assumes "wellFormed p"
  shows "case parseArg hw a p rest of Unhandled \<Rightarrow> False | Advance p' _ \<Rightarrow> wellFormed p' | Finish r \<Rightarrow> soundResult r"
  using handlers_keep [of hw a, unfolded keeps_def, rule_format, OF assms, of rest] assms
  by (auto simp: parseArg_def addInput_def soundResult_def split: arg_step.splits)

lemma argLoop_sound: "wellFormed p \<Longrightarrow> soundResult (argLoop hw p as)"
proof (induction hw p as rule: argLoop.induct)
  case (2 hw p a rest)
  then show ?case using parseArg_keeps [OF 2(2), of hw a rest] by (auto split: arg_step.splits)
qed (simp add: soundResult_def)

lemma bool_spec_keeps:
  assumes "tryApplyBoolConfigSpec key v c specs = Some (Inr c')"
    "\<forall>spec \<in> set specs. \<forall>b. P (snd spec c b)"
  shows "P c'"
  using assms
  by (auto simp: tryApplyBoolConfigSpec_def find_Some_iff split: sum.splits option.splits)

lemma find_spec: "findSmtOptionByConfigKey key = Some spec \<Longrightarrow> spec \<in> set kSmtOptionSpecs"
  by (auto simp: findSmtOptionByConfigKey_def find_Some_iff)

lemma late_entry_keeps: "wellFormed p \<Longrightarrow> applyLateEntry d key v p = Inr p' \<Longrightarrow> wellFormed p'"
  using smt_spec_keeps [OF find_spec, of key _ "pa_config p" v FromConfig]
  by (auto simp: applyLateEntry_def onConfig_def wellFormedConfig_def split: option.splits sum.splits if_splits)

lemma switch_entry_keeps:
  assumes "wellFormed p" "applySwitchEntry d key v p = Inr p'"
  shows "wellFormed p'"
proof (cases "tryApplyBoolConfigSpec key v (pa_config p) kConfigBoolSpecs")
  case (Some r)
  then obtain c where c: "r = Inr c" "p' = p\<lparr>pa_config := c\<rparr>"
    using assms(2) by (auto simp: applySwitchEntry_def split: sum.splits)
  have "wellFormedConfig c"
    by (rule bool_spec_keeps [OF Some [unfolded c(1)]])
      (use assms(1) in \<open>simp add: kConfigBoolSpecs_def wellFormedConfig_def\<close>)
  with c show ?thesis by simp
next
  case None
  note first = this
  show ?thesis
  proof (cases "tryApplyBoolConfigSpec key v p kParsedBoolSpecs")
    case (Some r)
    then have "r = Inr p'" using assms(2) first by (simp add: applySwitchEntry_def)
    show ?thesis
      by (rule bool_spec_keeps [OF Some [unfolded \<open>r = Inr p'\<close>]])
        (use assms(1) in \<open>simp add: kParsedBoolSpecs_def\<close>)
  qed (use assms first late_entry_keeps in \<open>simp add: applySwitchEntry_def\<close>)
qed

lemma path_fields_free:
  "wellFormedConfig (c\<lparr>cf_resourceModelPath := v\<rparr>) = wellFormedConfig c"
  "wellFormedConfig (c\<lparr>cf_escapeModelPath := v\<rparr>) = wellFormedConfig c"
  "wellFormedConfig (c\<lparr>cf_bufferModelPath := v\<rparr>) = wellFormedConfig c"
  "wellFormedConfig (c\<lparr>cf_profile := f\<rparr>) = wellFormedConfig c"
  by (simp_all add: wellFormedConfig_def)

lemma jobs_field: "wellFormedConfig c \<Longrightarrow> n \<noteq> 0 \<Longrightarrow> wellFormedConfig (c\<lparr>cf_jobs := n, cf_jobsAuto := a\<rparr>)"
  by (simp add: wellFormedConfig_def)

lemma config_entry_keeps: "wellFormed p \<Longrightarrow> applyConfigEntry hw d k v p = Inr p' \<Longrightarrow> wellFormed p'"
  by (auto simp: applyConfigEntry_def Let_def onConfig_def path_fields_free jobs_field
      split: if_splits sum.splits prod.splits dest: jobs_nonzero switch_entry_keeps)

lemma config_lines_keep: "wellFormed p \<Longrightarrow> loadConfigLines hw d n ls p = Inr p' \<Longrightarrow> wellFormed p'"
  by (induction hw d n ls p rule: loadConfigLines.induct)
    (auto simp: Let_def dest: config_entry_keeps split: if_splits sum.splits)

lemma prescan_error: "preScanMetaOptions m as = Inl e \<Longrightarrow> e \<noteq> []"
proof (induction m as rule: preScanMetaOptions.induct)
  case (2 m a rest)
  show ?case
  proof (cases "a = ''--print-effective-config''")
    case False
    then show ?thesis using 2 consume_error
      by (cases "consumeLongOptionValue a ''--config'' rest" rule: consume_cases) auto
  qed (use 2 in simp)
qed simp

lemma config_lines_error: "loadConfigLines hw d n ls p = Inl e \<Longrightarrow> e \<noteq> []"
  by (induction hw d n ls p rule: loadConfigLines.induct) (auto simp: Let_def split: if_splits sum.splits)

lemma parse_sound: "soundResult (parseArguments hw cwd files as)"
proof -
  have "soundResult (makeError e)" if "e \<noteq> []" for e using that by (simp add: soundResult_def makeError_def)
  then show ?thesis
    by (auto simp: parseArguments_def loadConfigFile_def Let_def defaults_are_well_formed
        intro!: argLoop_sound dest: prescan_error config_lines_error config_lines_keep [rotated]
        split: sum.splits option.splits)
qed

subsection \<open>Order of the arguments\<close>

lemma parseArg_finish:
  assumes "wellFormed p" "parseArg hw a p rest = Finish r"
  shows "pr_status r \<noteq> StatusOk"
  using handlers_keep [of hw a, unfolded keeps_def, rule_format, OF assms(1), of rest] assms(2)
  by (auto simp: parseArg_def split: arg_step.splits)

lemma argLoop_append:
  "wellFormed p \<Longrightarrow> pr_status (argLoop hw p as) = StatusOk \<Longrightarrow>
     argLoop hw p (as @ bs) = argLoop hw (pr_parsed (argLoop hw p as)) bs"
proof (induction hw p as rule: argLoop.induct)
  case (2 hw p a rest)
  show ?case
  proof (cases "parseArg hw a p rest")
    case (Advance p' rest')
    have "wellFormed p'" using parseArg_keeps [OF 2(2), of hw a rest] Advance by simp
    with 2 Advance parseArg_local(2) [OF Advance, of bs] show ?thesis by simp
  next
    case (Finish r)
    with 2(2,3) parseArg_finish [OF 2(2) Finish] show ?thesis by simp
  next
    case Unhandled
    with parseArg_keeps [OF 2(2), of hw a rest] show ?thesis by simp
  qed
qed simp

lemma suggestion_close:
  assumes "suggest u = Some s"
  shows "\<exists>m q. (m, s) \<in> set kCandidates \<and> (q = u \<or> q = takeWhile (\<lambda>c. c \<noteq> CHR ''='') u)
     \<and> (\<exists>n \<le> maxAcceptedDistance (length q). (edit ^^ n) (map tolower q) (map tolower m))"
proof -
  have near: "\<exists>m. (m, s) \<in> set kCandidates
      \<and> (\<exists>n \<le> maxAcceptedDistance (length q). (edit ^^ n) (map tolower q) (map tolower m))"
    if "suggestByMatcher q only = Some s" for q only
  proof -
    from suggestByMatcher_Some [OF that] obtain m where "(m, s) \<in> compared only"
        "distanceTo q m \<le> maxAcceptedDistance (length q)" by blast
    then show ?thesis
      using levenshtein_least(1) [of "map tolower q" "map tolower m"]
      by (auto simp: compared_def distanceTo_def)
  qed
  obtain q only where q: "suggestByMatcher q only = Some s" "q = u \<or> q = takeWhile (\<lambda>c. c \<noteq> CHR ''='') u"
    using assms
    by (auto simp: suggest_def suggestFixedValueOption_def suggestLongOptionBase_def split: if_splits option.splits)
  from near [OF q(1)] q(2) show ?thesis by blast
qed

text \<open>The scan for the configuration reads the values of other options as options.\<close>

lemma scan_takes_a_value_for_an_option:
  "pr_error (parseArguments hw cwd (\<lambda>_. None) [''--only-file'', ''--config=x'']) = ''Unable to open config file: x''"
  by (simp add: parseArguments_def consumeLongOptionValue_def loadConfigFile_def makeError_def Let_def)

lemma loop_takes_it_for_a_value:
  "cf_onlyFiles (pa_config (pr_parsed (argLoop hw startParsed [''--only-file'', ''--config=x'']))) = [''--config=x'']"
proof -
  have "parseArg hw ''--only-file'' p [''--config=x'']
      = Advance (onConfig (\<lambda>c. c\<lparr>cf_onlyFiles := cf_onlyFiles c @ [''--config=x'']\<rparr>) p) []" for p
    by (simp add: parseArg_def handlers_def generalOptions_def helpOption_def filterOptions_def
        flagOption_def valueOption_def consumeLongOptionValue_def storingConfig_def)
  moreover have "cf_onlyFiles (pa_config startParsed) = []"
    by (simp add: onConfig_def startParsed_def defaultParsed_def defaultConfig_def)
  ultimately show ?thesis by (simp add: onConfig_def)
qed

subsection \<open>The last option\<close>

text \<open>What an option that sets a value does to the configuration read so far.\<close>

inductive optionEffect :: "u32 \<Rightarrow> string \<Rightarrow> (ParsedArguments \<Rightarrow> ParsedArguments) \<Rightarrow> bool" for hw where
  sets_jobs: "parseJobsValue hw v = Inr (n, a) \<Longrightarrow>
     optionEffect hw (''--jobs='' @ v) (onConfig (\<lambda>c. c\<lparr>cf_jobs := n, cf_jobsAuto := a\<rparr>))"
| sets_stack_limit: "parseStackLimitValue v = Inr n \<Longrightarrow>
     optionEffect hw (''--stack-limit='' @ v) (onConfig (\<lambda>c. c\<lparr>cf_stackLimit := n\<rparr>))"
| sets_profile: "parseAnalysisProfile v = Inr q \<Longrightarrow>
     optionEffect hw (''--analysis-profile='' @ v)
       (\<lambda>p. (onConfig (\<lambda>c. c\<lparr>cf_profile := q\<rparr>) p)\<lparr>pa_analysisProfileExplicit := True\<rparr>)"
| sets_dump_path: "optionEffect hw (''--dump-ir='' @ v) (onConfig (\<lambda>c. c\<lparr>cf_dumpIRPath := v\<rparr>))"
| sets_sarif_path: "optionEffect hw (''--sarif-out='' @ v) (\<lambda>p. p\<lparr>pa_sarifOutPath := v\<rparr>)"
| sets_resource_model: "optionEffect hw (''--resource-model='' @ v) (onConfig (\<lambda>c. c\<lparr>cf_resourceModelPath := v\<rparr>))"
| sets_quiet: "optionEffect hw ''--quiet'' (onConfig (\<lambda>c. c\<lparr>cf_quiet := True\<rparr>))"
| sets_verbose: "optionEffect hw ''--verbose''
     (\<lambda>p. p\<lparr>pa_config := (pa_config p)\<lparr>cf_quiet := False\<rparr>, pa_verbose := True\<rparr>)"
| sets_cross_tu: "optionEffect hw ''--uninitialized-cross-tu'' (onConfig (\<lambda>c. c\<lparr>cf_uninitializedCrossTU := True\<rparr>))"
| clears_cross_tu: "optionEffect hw ''--no-uninitialized-cross-tu'' (onConfig (\<lambda>c. c\<lparr>cf_uninitializedCrossTU := False\<rparr>))"
| sets_mode_ir: "optionEffect hw ''--mode=ir'' (onConfig (\<lambda>c. c\<lparr>cf_mode := IR\<rparr>))"
| sets_mode_abi: "optionEffect hw ''--mode=abi'' (onConfig (\<lambda>c. c\<lparr>cf_mode := ABI\<rparr>))"
| sets_json: "optionEffect hw ''--format=json'' (\<lambda>p. p\<lparr>pa_outputFormat := Json\<rparr>)"
| sets_sarif: "optionEffect hw ''--format=sarif'' (\<lambda>p. p\<lparr>pa_outputFormat := Sarif\<rparr>)"
| sets_human: "optionEffect hw ''--format=human'' (\<lambda>p. p\<lparr>pa_outputFormat := Human\<rparr>)"

lemmas option_tables = parseArg_def handlers_def generalOptions_def filterOptions_def compileOptions_def
  analysisOptions_def smtOptions_def kSmtOptionSpecs_def smtSpec_def modelOptions_def compdbOptions_def outputOptions_def
  helpOption_def flagOption_def valueOption_def compilerOption_def compdbOption_def modeOption_def
  consumeLongOptionValue_def storing_def storingConfig_def parsing_def

lemma option_is_applied: "optionEffect hw a f \<Longrightarrow> parseArg hw a p [] = Advance (f p) []"
  by (erule optionEffect.cases; hypsubst; simp add: option_tables; simp add: onConfig_def)

lemma option_is_not_scanned: "optionEffect hw a f \<Longrightarrow> preScanMetaOptions m [a] = Inr m"
  by (erule optionEffect.cases; hypsubst; simp add: consumeLongOptionValue_def)

lemma prescan_append:
  "preScanMetaOptions m as = Inr m' \<Longrightarrow> preScanMetaOptions m (as @ bs) = preScanMetaOptions m' bs"
proof (induction m as rule: preScanMetaOptions.induct)
  case (2 m a rest)
  show ?case
  proof (cases "a = ''--print-effective-config''")
    case True
    then show ?thesis using 2 by simp
  next
    case False
    show ?thesis
    proof (cases "consumeLongOptionValue a ''--config'' rest" rule: consume_cases)
      case (3 v rest')
      then show ?thesis using 2(3) [OF False 3 refl refl] False 2(4) consume_append(1) [OF 3, of bs] by simp
    qed (use False 2 consume_append(2) [of a "''--config''" rest bs] in auto)
  qed
qed simp

lemma parse_loop:
  assumes "pr_status (parseArguments hw cwd files as) = StatusOk"
  shows "\<exists>p. wellFormed p
    \<and> (\<forall>bs. preScanMetaOptions \<lparr>pm_configPath = [], pm_printEffectiveConfig = False\<rparr> (as @ bs)
             = preScanMetaOptions \<lparr>pm_configPath = [], pm_printEffectiveConfig = False\<rparr> as
        \<longrightarrow> parseArguments hw cwd files (as @ bs) = argLoop hw p (as @ bs))"
proof -
  let ?scan = "preScanMetaOptions \<lparr>pm_configPath = [], pm_printEffectiveConfig = False\<rparr>"
  have bad: "pr_status (makeError e) = StatusOk \<Longrightarrow> False" for e by (simp add: makeError_def)
  obtain m where m: "?scan as = Inr m"
    using assms bad by (cases "?scan as") (auto simp: parseArguments_def)
  let ?p = "startParsed\<lparr>pa_printEffectiveConfig := pm_printEffectiveConfig m\<rparr>"
  have wf: "wellFormed ?p" by (simp add: defaults_are_well_formed)
  show ?thesis
  proof (cases "pm_configPath m = []")
    case True
    then show ?thesis using m wf by (intro exI [of _ ?p]) (simp add: parseArguments_def Let_def)
  next
    case False
    then obtain p' where p': "loadConfigFile hw cwd files (pm_configPath m) ?p = Inr p'"
      using assms m bad by (cases "loadConfigFile hw cwd files (pm_configPath m) ?p") (auto simp: parseArguments_def Let_def)
    have "wellFormed p'" using p' wf config_lines_keep [OF wf]
      by (auto simp: loadConfigFile_def Let_def split: option.splits if_splits)
    then show ?thesis using m p' False
      by (intro exI [of _ "p'\<lparr>pa_configPath := pm_configPath m\<rparr>"]) (simp add: parseArguments_def Let_def)
  qed
qed

lemma appended_option:
  assumes "pr_status (parseArguments hw cwd files as) = StatusOk" "optionEffect hw a f"
  shows "parseArguments hw cwd files (as @ [a]) =
     \<lparr>pr_error = [], pr_parsed = f (pr_parsed (parseArguments hw cwd files as)), pr_status = StatusOk\<rparr>"
proof -
  let ?scan = "preScanMetaOptions \<lparr>pm_configPath = [], pm_printEffectiveConfig = False\<rparr>"
  from parse_loop [OF assms(1)] obtain p where p: "wellFormed p"
    and run: "\<And>bs. ?scan (as @ bs) = ?scan as \<Longrightarrow> parseArguments hw cwd files (as @ bs) = argLoop hw p (as @ bs)"
    by blast
  have here: "parseArguments hw cwd files as = argLoop hw p as" using run [of "[]"] by simp
  obtain m where m: "?scan as = Inr m"
    using assms(1) by (cases "?scan as") (auto simp: parseArguments_def makeError_def)
  have "?scan (as @ [a]) = ?scan as"
    using prescan_append [OF m, of "[a]"] option_is_not_scanned [OF assms(2), of m] m by simp
  then have "parseArguments hw cwd files (as @ [a]) = argLoop hw p (as @ [a])" by (rule run)
  also have "\<dots> = argLoop hw (pr_parsed (argLoop hw p as)) [a]"
    using assms(1) unfolding here by (rule argLoop_append [OF p])
  finally show ?thesis unfolding here by (simp add: option_is_applied [OF assms(2)])
qed

section \<open>Properties\<close>



text \<open>
  C28: Whatever the arguments and the configuration file are, a result has a message exactly when
  it is an error, and the parsed configuration is well formed otherwise.
\<close>
theorem parsed_configurations_are_well_formed:
  "let r = parseArguments hw cwd files as in
     (pr_status r = StatusError) = (pr_error r \<noteq> []) \<and>
     (pr_status r = StatusError \<or> wellFormedConfig (pa_config (pr_parsed r)))"
  using parse_sound [of hw cwd files as] by (auto simp: soundResult_def Let_def)

text \<open>
  C29: A stack limit is accepted exactly when it is a positive decimal number with a known unit
  whose product fits 64 bits, and the value is that product without wrap-around.
\<close>
theorem stack_limits_do_not_wrap:
  "parseStackLimitValue input = Inr v \<longleftrightarrow>
     (\<exists>ds suff m. trimCopy input = ds @ suff \<and> ds \<noteq> [] \<and> list_all isdigit ds
        \<and> (suff = [] \<or> \<not> isdigit (hd suff)) \<and> stackLimitMultiplier (trimCopy suff) = Some m
        \<and> 0 < digitsValue 0 ds \<and> digitsValue 0 ds * unat m < 2 ^ 64
        \<and> unat v = digitsValue 0 ds * unat m)"
  by (rule stackLimit_iff)

lemma stack_limits_do_not_wrap_witness: "parseStackLimitValue '' 8 MiB'' = Inr 8388608"
proof (rule stack_limits_do_not_wrap [THEN iffD2])
  have "trimCopy '' 8 MiB'' = ''8'' @ '' MiB''" by (simp add: trimCopy_def isspace_def)
  moreover have "stackLimitMultiplier (trimCopy '' MiB'') = Some 1048576" by code_simp
  ultimately show "\<exists>ds suff m. trimCopy '' 8 MiB'' = ds @ suff \<and> ds \<noteq> [] \<and> list_all isdigit ds
        \<and> (suff = [] \<or> \<not> isdigit (hd suff)) \<and> stackLimitMultiplier (trimCopy suff) = Some m
        \<and> 0 < digitsValue 0 ds \<and> digitsValue 0 ds * unat m < 2 ^ 64
        \<and> unat (8388608 :: u64) = digitsValue 0 ds * unat m"
    by (intro exI [of _ "''8''"] exI [of _ "'' MiB''"] exI [of _ 1048576]) (simp add: isdigit_def)
qed

text \<open>
  C30: The row by row edit distance of the option suggestions is the least number of single
  character insertions, deletions and replacements that turn one text into the other.
\<close>
theorem distance_is_the_fewest_edits:
  "levenshteinDistance lhs rhs = (LEAST n. (edit ^^ n) lhs rhs)"
  using levenshtein_least by (intro Least_equality [symmetric]) auto

text \<open>
  A suggested option is close to what was typed: the option, or its part before an equals
  sign, is turned into a known option by at most three edits, fewer for a short one.
\<close>
theorem suggestions_are_close:
  assumes "suggest u = Some s"
  shows "\<exists>m q. (m, s) \<in> set kCandidates \<and> (q = u \<or> q = takeWhile (\<lambda>c. c \<noteq> CHR ''='') u)
     \<and> (\<exists>n \<le> maxAcceptedDistance (length q). (edit ^^ n) (map tolower q) (map tolower m))"
  using assms by (rule suggestion_close)

lemma suggestions_are_close_witness:
  "\<exists>s m q. (m, s) \<in> set kCandidates \<and> (q = ''--quiet'' \<or> q = takeWhile (\<lambda>c. c \<noteq> CHR ''='') ''--quiet'')
     \<and> (\<exists>n \<le> maxAcceptedDistance (length q). (edit ^^ n) (map tolower q) (map tolower m))"
proof -
  have "(''--quiet'', ''--quiet'') \<in> compared False" by (simp add: compared_def kCandidates_def)
  moreover have "distanceTo ''--quiet'' ''--quiet'' = 0"
    using levenshtein_least(2) [of 0 "map tolower ''--quiet''"] by (simp add: distanceTo_def)
  ultimately have "suggestByMatcher ''--quiet'' False \<noteq> None"
    using suggestByMatcher_None [of "''--quiet''" False] by fastforce
  then obtain s where "suggest ''--quiet'' = Some s"
    by (auto simp: suggest_def isLongOptionWithInlineValue_def)
  from suggestions_are_close [OF this] show ?thesis by blast
qed

text \<open>
  C31: Splitting a command line is the inverse of quoting its arguments, except that empty
  arguments are lost: the parser sees the arguments without them.
\<close>
theorem quoted_arguments_are_split_back:
  "parseCommandLine hw cwd files (joinQuoted args) = parseArguments hw cwd files (filter (\<lambda>a. a \<noteq> []) args)"
  by (simp add: parseCommandLine_def split_join)

end
