(* ===== verification/ParallelWork.thy ===== *)
theory ParallelWork
  imports Prelude "HOL-Library.Multiset"
begin

text \<open>
  \<open>runParallelWork\<close> of \<open>AnalyzerApp.cpp\<close>: worker threads that take the next index of an atomic
  counter until the items run out.  The threads interleave; a step relation gives every order of
  their steps.  \<open>workFn\<close> stores the result of an item under its index, as all callers of the
  function do.  The lemmas show that every interleaving ends with the results of the sequential
  loop.
\<close>

section \<open>The scheduler\<close>

datatype worker_phase = Fetching | Working nat | Stopped

record 'r work_pool =
  wp_nextIndex :: nat
  wp_phases :: "worker_phase list"
  wp_processedCounts :: "nat list"
  wp_results :: "nat \<Rightarrow> 'r option"

text \<open>The sequential loop.\<close>

fun runSequentialWork :: "nat \<Rightarrow> (nat \<Rightarrow> 'r) \<Rightarrow> (nat \<Rightarrow> 'r option) \<Rightarrow> nat \<Rightarrow> (nat \<Rightarrow> 'r option)" where
  "runSequentialWork workItemCount workFn results 0 = results"
| "runSequentialWork workItemCount workFn results (Suc left) =
     (let index = workItemCount - Suc left
      in runSequentialWork workItemCount workFn (results(index \<mapsto> workFn index)) left)"

definition workerCount :: "nat \<Rightarrow> u32 \<Rightarrow> nat" where
  "workerCount workItemCount maxJobs = unat (min maxJobs (of_nat workItemCount))"

definition startPool :: "nat \<Rightarrow> 'r work_pool" where
  "startPool workers =
     \<lparr>wp_nextIndex = 0, wp_phases = replicate workers Fetching,
      wp_processedCounts = replicate workers 0, wp_results = (\<lambda>_. None)\<rparr>"

text \<open>The steps of a worker: \<open>fetch_add\<close> with an item or without one, and the work on an item.\<close>

inductive pool_step :: "nat \<Rightarrow> (nat \<Rightarrow> 'r) \<Rightarrow> 'r work_pool \<Rightarrow> 'r work_pool \<Rightarrow> bool"
  for workItemCount :: nat and workFn :: "nat \<Rightarrow> 'r" where
  fetch: "w < length (wp_phases s) \<Longrightarrow> wp_phases s ! w = Fetching \<Longrightarrow> wp_nextIndex s < workItemCount \<Longrightarrow>
     pool_step workItemCount workFn s
       (s\<lparr>wp_nextIndex := wp_nextIndex s + 1, wp_phases := (wp_phases s)[w := Working (wp_nextIndex s)]\<rparr>)"
| stop: "w < length (wp_phases s) \<Longrightarrow> wp_phases s ! w = Fetching \<Longrightarrow> wp_nextIndex s \<ge> workItemCount \<Longrightarrow>
     pool_step workItemCount workFn s
       (s\<lparr>wp_nextIndex := wp_nextIndex s + 1, wp_phases := (wp_phases s)[w := Stopped]\<rparr>)"
| work: "w < length (wp_phases s) \<Longrightarrow> wp_phases s ! w = Working k \<Longrightarrow>
     pool_step workItemCount workFn s
       (s\<lparr>wp_results := (wp_results s)(k \<mapsto> workFn k), wp_phases := (wp_phases s)[w := Fetching],
          wp_processedCounts := (wp_processedCounts s)[w := wp_processedCounts s ! w + 1]\<rparr>)"

definition allStopped :: "'r work_pool \<Rightarrow> bool" where
  "allStopped s = list_all (\<lambda>p. p = Stopped) (wp_phases s)"

text \<open>The check after the join; \<open>False\<close> is the fatal error.\<close>

definition schedulerConsistent :: "nat \<Rightarrow> 'r work_pool \<Rightarrow> bool" where
  "schedulerConsistent workItemCount s = (sum_list (wp_processedCounts s) = workItemCount)"

section \<open>The interleavings\<close>

text \<open>The items that workers hold.\<close>

definition heldBy :: "worker_phase list \<Rightarrow> nat list" where
  "heldBy ps = concat (map (\<lambda>p. case p of Working k \<Rightarrow> [k] | _ \<Rightarrow> []) ps)"

text \<open>
  The items below the counter are either held by exactly one worker or done, and the counts of
  the workers add up to the number of those done.
\<close>

definition poolInvariant :: "nat \<Rightarrow> (nat \<Rightarrow> 'r) \<Rightarrow> 'r work_pool \<Rightarrow> bool" where
  "poolInvariant n f s \<longleftrightarrow>
     length (wp_processedCounts s) = length (wp_phases s)
     \<and> distinct (heldBy (wp_phases s))
     \<and> set (heldBy (wp_phases s)) \<subseteq> {k. k < min n (wp_nextIndex s)}
     \<and> wp_results s = (\<lambda>k. if k < min n (wp_nextIndex s) \<and> k \<notin> set (heldBy (wp_phases s)) then Some (f k) else None)
     \<and> sum_list (wp_processedCounts s) + length (heldBy (wp_phases s)) = min n (wp_nextIndex s)"

lemma heldBy_update:
  assumes "w < length ps"
  shows "mset (heldBy (ps[w := p])) + mset (case ps ! w of Working k \<Rightarrow> [k] | _ \<Rightarrow> [])
     = mset (heldBy ps) + mset (case p of Working k \<Rightarrow> [k] | _ \<Rightarrow> [])"
proof -
  have ps: "ps = take w ps @ ps ! w # drop (Suc w) ps" using assms by (rule id_take_nth_drop)
  have "ps[w := p] = take w ps @ p # drop (Suc w) ps" using assms by (rule upd_conv_take_nth_drop)
  then show ?thesis unfolding heldBy_def by (subst (3) ps) simp
qed

lemma same_items:
  assumes "mset xs = mset ys"
  shows "distinct xs = distinct ys" "set xs = set ys" "length xs = length ys"
  using assms mset_eq_imp_distinct_iff mset_eq_setD mset_eq_length by blast+

lemma step_keeps_invariant:
  assumes "pool_step n f s t" "poolInvariant n f s"
  shows "poolInvariant n f t"
  using assms(1)
proof cases
  case (fetch w)
  let ?ps = "(wp_phases s)[w := Working (wp_nextIndex s)]"
  have "mset (heldBy ?ps) = mset (heldBy (wp_phases s) @ [wp_nextIndex s])"
    using heldBy_update [OF fetch(2), of "Working (wp_nextIndex s)"] fetch(3) by simp
  note h = same_items [OF this]
  have "wp_nextIndex s \<notin> set (heldBy (wp_phases s))" using assms(2) by (auto simp: poolInvariant_def)
  then show ?thesis using assms(2) fetch(1,4) h by (auto simp: poolInvariant_def min_def less_Suc_eq)
next
  case (stop w)
  have "mset (heldBy ((wp_phases s)[w := Stopped])) = mset (heldBy (wp_phases s))"
    using heldBy_update [OF stop(2), of Stopped] stop(3) by simp
  note h = same_items [OF this]
  have "min n (wp_nextIndex s + 1) = min n (wp_nextIndex s)" using stop(4) by simp
  then show ?thesis using assms(2) stop(1) h by (simp add: poolInvariant_def)
next
  case (work w k)
  let ?ps = "(wp_phases s)[w := Fetching]"
  have m: "mset (heldBy ?ps @ [k]) = mset (heldBy (wp_phases s))"
    using heldBy_update [OF work(2), of Fetching] work(3) by simp
  note h = same_items [OF m]
  have "w < length (wp_processedCounts s)" using assms(2) work(2) by (simp add: poolInvariant_def)
  then have "sum_list ((wp_processedCounts s)[w := wp_processedCounts s ! w + 1]) = sum_list (wp_processedCounts s) + 1"
    by (simp add: sum_list_update)
  moreover have items: "set (heldBy (wp_phases s)) = insert k (set (heldBy ?ps))" using h(2) by simp
  moreover have "k \<notin> set (heldBy ?ps)" "distinct (heldBy ?ps)"
    using h(1) assms(2) by (auto simp: poolInvariant_def)
  moreover have "k < min n (wp_nextIndex s)" using assms(2) items by (auto simp: poolInvariant_def)
  moreover have "(wp_results s)(k \<mapsto> f k)
      = (\<lambda>j. if j < min n (wp_nextIndex s) \<and> j \<notin> set (heldBy ?ps) then Some (f j) else None)"
    using assms(2) calculation(2-5) by (intro ext) (simp add: poolInvariant_def)
  ultimately show ?thesis using assms(2) work(1) h(3) by (simp add: poolInvariant_def)
qed

lemma start_invariant: "poolInvariant n f (startPool m)"
proof -
  have "heldBy (replicate m Fetching) = []" by (induction m) (simp_all add: heldBy_def)
  then show ?thesis by (simp add: poolInvariant_def startPool_def)
qed

text \<open>Nothing is held when all workers have stopped, and a worker stops only at the end.\<close>

definition stoppedLate :: "nat \<Rightarrow> 'r work_pool \<Rightarrow> bool" where
  "stoppedLate n s \<longleftrightarrow> (Stopped \<in> set (wp_phases s) \<longrightarrow> n \<le> wp_nextIndex s)"

lemma step_keeps_late: "pool_step n f s t \<Longrightarrow> stoppedLate n s \<Longrightarrow> stoppedLate n t"
  by (erule pool_step.cases) (auto simp: stoppedLate_def dest!: set_update_subset_insert [THEN subsetD])

lemma all_stopped_holds_nothing: "list_all (\<lambda>p. p = Stopped) ps \<Longrightarrow> heldBy ps = []"
  by (induction ps) (auto simp: heldBy_def)

definition sequentialResults :: "nat \<Rightarrow> (nat \<Rightarrow> 'r) \<Rightarrow> nat \<Rightarrow> 'r option" where
  "sequentialResults n f = runSequentialWork n f (\<lambda>_. None) n"

lemma sequential_results: "sequentialResults n f = (\<lambda>k. if k < n then Some (f k) else None)"
proof -
  have "runSequentialWork n f r m = (\<lambda>k. if n - m \<le> k \<and> k < n then Some (f k) else r k)" if "m \<le> n" for r m
    using that by (induction m arbitrary: r) (auto simp: Let_def intro!: ext)
  then show ?thesis by (simp add: sequentialResults_def)
qed

lemma final_pool:
  assumes "poolInvariant n f s" "stoppedLate n s" "allStopped s" "wp_phases s \<noteq> []"
  shows "wp_results s = sequentialResults n f \<and> schedulerConsistent n s"
proof -
  have "n \<le> wp_nextIndex s"
    using assms(2,3,4) by (cases "wp_phases s") (auto simp: stoppedLate_def allStopped_def)
  moreover have "heldBy (wp_phases s) = []"
    using assms(3) all_stopped_holds_nothing unfolding allStopped_def by blast
  ultimately show ?thesis using assms(1)
    by (simp add: poolInvariant_def sequential_results schedulerConsistent_def min_def)
qed

lemma unstopped_steps:
  assumes "\<not> allStopped s"
  shows "\<exists>t. pool_step n f s t"
proof -
  obtain w where w: "w < length (wp_phases s)" "wp_phases s ! w \<noteq> Stopped"
    using assms by (auto simp: allStopped_def list_all_length)
  show ?thesis
  proof (cases "wp_phases s ! w")
    case Fetching
    show ?thesis
    proof (cases "wp_nextIndex s < n")
      case True
      show ?thesis by (rule exI, rule pool_step.fetch [OF w(1) Fetching True])
    next
      case False
      then have "n \<le> wp_nextIndex s" by simp
      show ?thesis by (rule exI, rule pool_step.stop [OF w(1) Fetching \<open>n \<le> wp_nextIndex s\<close>])
    qed
  next
    case (Working k)
    show ?thesis by (rule exI, rule pool_step.work [OF w(1) Working])
  qed (use w(2) in simp)
qed

text \<open>What is left to do.\<close>

definition phaseWeight :: "worker_phase \<Rightarrow> nat" where
  "phaseWeight p = (case p of Fetching \<Rightarrow> 1 | Working k \<Rightarrow> 2 | Stopped \<Rightarrow> 0)"

definition remaining :: "nat \<Rightarrow> 'r work_pool \<Rightarrow> nat" where
  "remaining n s = 2 * (n - wp_nextIndex s) + sum_list (map phaseWeight (wp_phases s))"

lemma step_decreases: "pool_step n f s t \<Longrightarrow> remaining n t < remaining n s"
proof -
  have up: "sum_list (map phaseWeight (ps[w := p])) + phaseWeight (ps ! w) = sum_list (map phaseWeight ps) + phaseWeight p"
    if "w < length ps" for ps w p
    using that sum_list_update [of w "map phaseWeight ps" "phaseWeight p"]
      elem_le_sum_list [of w "map phaseWeight ps"]
    by (simp add: map_update)
  assume "pool_step n f s t"
  then show ?thesis
  proof cases
    case (fetch w)
    then show ?thesis using up [OF fetch(2), of "Working (wp_nextIndex s)"]
      by (simp add: remaining_def phaseWeight_def)
  next
    case (stop w)
    then show ?thesis using up [OF stop(2), of Stopped] by (simp add: remaining_def phaseWeight_def)
  next
    case (work w k)
    then show ?thesis using up [OF work(2), of Fetching] by (simp add: remaining_def phaseWeight_def)
  qed
qed


lemma steps_end: "wfP (\<lambda>t s. pool_step n f s t)"
  by (rule wfp_if_convertible_to_nat [where f = "remaining n"]) (rule step_decreases)

lemma step_keeps_workers: "pool_step n f s t \<Longrightarrow> length (wp_phases t) = length (wp_phases s)"
  by (erule pool_step.cases) auto

lemma reachable_pool:
  assumes "(pool_step n f)\<^sup>*\<^sup>* (startPool m) s"
  shows "poolInvariant n f s \<and> stoppedLate n s \<and> length (wp_phases s) = m"
  using assms
proof induction
  case base
  then show ?case by (simp add: start_invariant) (simp add: stoppedLate_def startPool_def)
next
  case (step s t)
  then show ?case using step_keeps_invariant step_keeps_late step_keeps_workers by metis
qed

lemma can_end: "\<exists>t. (pool_step n f)\<^sup>*\<^sup>* s t \<and> allStopped t"
proof (induction s rule: wfp_induct_rule [OF steps_end [of n f]])
  case (1 s)
  show ?case
  proof (cases "allStopped s")
    case False
    then obtain t where t: "pool_step n f s t" using unstopped_steps by blast
    from 1 [OF t] obtain u where "(pool_step n f)\<^sup>*\<^sup>* t u" "allStopped u" by blast
    with t show ?thesis by (meson converse_rtranclp_into_rtranclp)
  qed auto
qed

text \<open>The results that a call can have.\<close>

definition runParallelWork :: "nat \<Rightarrow> u32 \<Rightarrow> (nat \<Rightarrow> 'r) \<Rightarrow> (nat \<Rightarrow> 'r option) set" where
  "runParallelWork workItemCount maxJobs workFn =
     (let workers = workerCount workItemCount maxJobs in
      if workItemCount = 0 then {\<lambda>_. None}
      else if workers \<le> 1 \<or> workItemCount \<le> 1 then {sequentialResults workItemCount workFn}
      else {wp_results s |s. (pool_step workItemCount workFn)\<^sup>*\<^sup>* (startPool workers) s \<and> allStopped s})"

lemma parallel_results:
  "runParallelWork n maxJobs f = {sequentialResults n f}"
proof -
  let ?m = "workerCount n maxJobs"
  have "{wp_results s |s. (pool_step n f)\<^sup>*\<^sup>* (startPool ?m) s \<and> allStopped s} = {sequentialResults n f}"
    if m: "1 < ?m"
  proof -
    have "wp_results s = sequentialResults n f" if "(pool_step n f)\<^sup>*\<^sup>* (startPool ?m) s" "allStopped s" for s
    proof -
      have "wp_phases s \<noteq> []" using reachable_pool [OF that(1)] m by auto
      then show ?thesis using final_pool [of n f s] reachable_pool [OF that(1)] that(2) by blast
    qed
    note final = this
    obtain t where t: "(pool_step n f)\<^sup>*\<^sup>* (startPool ?m) t" "allStopped t"
      using can_end [of n f "startPool ?m"] by auto
    show ?thesis
    proof
      show "{wp_results s |s. (pool_step n f)\<^sup>*\<^sup>* (startPool ?m) s \<and> allStopped s} \<subseteq> {sequentialResults n f}"
        using final by auto
      show "{sequentialResults n f} \<subseteq> {wp_results s |s. (pool_step n f)\<^sup>*\<^sup>* (startPool ?m) s \<and> allStopped s}"
        using t final [OF t, symmetric] by auto
    qed
  qed
  moreover have "sequentialResults 0 f = (\<lambda>_. None)" by (simp add: sequential_results)
  ultimately show ?thesis unfolding runParallelWork_def Let_def
    by (cases "n = 0"; cases "?m \<le> 1 \<or> n \<le> 1") (simp_all del: One_nat_def)
qed

text \<open>
  C32: However the worker threads interleave, the results of the parallel work are those of the
  sequential loop; there is at least one interleaving and no other result.
\<close>
theorem parallel_work_is_sequential:
  "runParallelWork n maxJobs f = {sequentialResults n f}"
  by (rule parallel_results)

text \<open>
  C33: The workers always finish: no run of the scheduler is infinite, a worker can take a step
  until all have stopped, and then every item is done and the counts add up, so that the check
  after the join never fails.
\<close>
theorem workers_finish_all_items:
  assumes "(pool_step n f)\<^sup>*\<^sup>* (startPool m) s" "0 < m"
  shows "wfP (\<lambda>t s. pool_step n f s t)
     \<and> (if allStopped s then wp_results s = sequentialResults n f \<and> schedulerConsistent n s
        else \<exists>t. pool_step n f s t)"
  using steps_end unstopped_steps final_pool [of n f s] reachable_pool [OF assms(1)] assms(2) by auto

lemma workers_finish_all_items_witness:
  "\<exists>t. pool_step 3 (\<lambda>k. k * k) (startPool 2 :: nat work_pool) t"
  using workers_finish_all_items [of 3 "\<lambda>k. k * k" 2 "startPool 2"]
  by (simp add: startPool_def allStopped_def numeral_2_eq_2)

end
