(* ===== verification/AppFilters.thy ===== *)
theory AppFilters
  imports CliParser
begin

text \<open>
  The filters on paths, function names and results: \<open>AnalyzerApp.cpp\<close> (before the loading of
  modules), \<open>AnalyzerUtils.cpp\<close> and \<open>FunctionFilter.cpp\<close>.  The demangler of the C++ runtime and the
  answers of the file system are arguments.
\<close>

section \<open>Names\<close>

text \<open>\<open>abi::__cxa_demangle\<close>: \<open>None\<close> when it refuses the name.\<close>

type_synonym demangler = "string \<Rightarrow> string option"

definition demangle :: "demangler \<Rightarrow> string \<Rightarrow> string" where
  "demangle cxa name = (case cxa name of Some d \<Rightarrow> d | None \<Rightarrow> name)"

definition isMangled :: "demangler \<Rightarrow> string \<Rightarrow> bool" where
  "isMangled cxa name = (prefix ''_Z'' name \<and> cxa name \<noteq> None)"

text \<open>The length in a symbol is a \<open>size_t\<close> that may wrap; \<open>substr\<close> stops at the end.\<close>

definition itaniumBaseName :: "string \<Rightarrow> string" where
  "itaniumBaseName symbol =
     (if \<not> prefix ''_Z'' symbol then []
      else let rest = drop 2 symbol;
               rest' = (if rest \<noteq> [] \<and> hd rest = CHR ''L'' then tl rest else rest);
               ds = takeWhile isdigit rest'; name = dropWhile isdigit rest';
               len = of_nat (digitsValue 0 ds) :: u64;
               i = of_nat (length symbol - length name) :: u64
           in if ds = [] \<or> len = 0 \<or> i + len > of_nat (length symbol) then []
              else take (unat len) name)"

definition baseOfDemangled :: "string \<Rightarrow> string" where
  "baseOfDemangled d =
     (if CHR ''('' \<in> set d \<and> hd d \<noteq> CHR ''('' then takeWhile (\<lambda>c. c \<noteq> CHR ''('') d else [])"

definition matchesOneFilter :: "demangler \<Rightarrow> string \<Rightarrow> string \<Rightarrow> bool" where
  "matchesOneFilter cxa name flt =
     (let demangledName = (if isMangled cxa name \<or> prefix ''_Z'' name then demangle cxa name else []);
          demangledBase = baseOfDemangled demangledName;
          itaniumBase = itaniumBaseName name in
      name = flt
      \<or> demangledName \<noteq> [] \<and> demangledName = flt
      \<or> demangledBase \<noteq> [] \<and> demangledBase = flt
      \<or> itaniumBase \<noteq> [] \<and> itaniumBase = flt
      \<or> isMangled cxa flt
          \<and> (let demangledFilter = demangle cxa flt in
              demangledName \<noteq> [] \<and> demangledName = demangledFilter
              \<or> baseOfDemangled demangledFilter \<noteq> [] \<and> demangledBase = baseOfDemangled demangledFilter))"

definition functionNameMatches :: "demangler \<Rightarrow> FullConfig \<Rightarrow> string \<Rightarrow> bool" where
  "functionNameMatches cxa cfg name =
     (cf_onlyFunctions cfg = [] \<or> list_ex (matchesOneFilter cxa name) (cf_onlyFunctions cfg))"

section \<open>Paths\<close>

text \<open>\<open>std::filesystem::absolute\<close> and \<open>weakly_canonical\<close>; \<open>None\<close> is an error.\<close>

record file_system =
  fs_absolute :: "string \<Rightarrow> string option"
  fs_weaklyCanonical :: "string \<Rightarrow> string option"

definition forwardSlashes :: "string \<Rightarrow> string" where
  "forwardSlashes = map (\<lambda>c. if c = CHR 0x5C then CHR ''/'' else c)"

fun dropTrailingSlashes :: "string \<Rightarrow> string" where
  "dropTrailingSlashes [] = []"
| "dropTrailingSlashes [c] = [c]"
| "dropTrailingSlashes (c # cs) =
     c # rev (dropWhile (\<lambda>d. d = CHR ''/'') (rev cs))"

definition normalizePath :: "file_system \<Rightarrow> string \<Rightarrow> string" where
  "normalizePath fs input =
     (if input = [] then []
      else let path = forwardSlashes input;
               absPath = (case fs_absolute fs path of Some a \<Rightarrow> a | None \<Rightarrow> path);
               norm = (case fs_weaklyCanonical fs absPath of Some c \<Rightarrow> c | None \<Rightarrow> lexicallyNormal absPath)
           in dropTrailingSlashes norm)"

text \<open>\<open>FunctionFilter.cpp\<close> asks the file system for absolute paths only.\<close>

definition normalizePathForMatch :: "file_system \<Rightarrow> string \<Rightarrow> string" where
  "normalizePathForMatch fs input =
     (if input = [] then []
      else let norm = lexicallyNormal (forwardSlashes input);
               norm' = (if isAbsolutePath norm
                        then case fs_weaklyCanonical fs norm of Some c \<Rightarrow> c | None \<Rightarrow> norm
                        else norm)
           in dropTrailingSlashes norm')"

definition basenameOf :: "string \<Rightarrow> string" where
  "basenameOf path = rev (takeWhile (\<lambda>c. c \<noteq> CHR ''/'') (rev path))"

definition pathHasSuffix :: "string \<Rightarrow> string \<Rightarrow> bool" where
  "pathHasSuffix path suff =
     (if suff = [] then False
      else if length path < length suff then False
      else if drop (length path - length suff) path \<noteq> suff then False
      else if length path = length suff then True
      else path ! (length path - length suff - 1) = CHR ''/'')"

definition pathHasPrefix :: "string \<Rightarrow> string \<Rightarrow> bool" where
  "pathHasPrefix path pre =
     (if pre = [] then False
      else if length path < length pre then False
      else if take (length pre) path \<noteq> pre then False
      else if length path = length pre then True
      else path ! length pre = CHR ''/'')"

function pathContainsSegment :: "string \<Rightarrow> string \<Rightarrow> bool" where
  "pathContainsSegment path segment =
     (let rest = dropWhile (\<lambda>c. c = CHR ''/'') path in
      if segment = [] \<or> rest = [] then False
      else if takeWhile (\<lambda>c. c \<noteq> CHR ''/'') rest = segment then True
      else pathContainsSegment (drop 1 (dropWhile (\<lambda>c. c \<noteq> CHR ''/'') rest)) segment)"
  by pat_completeness auto
termination
proof (relation "measure (\<lambda>(path, segment). length path)")
  fix path rest :: string and segment :: string
  assume "rest = dropWhile (\<lambda>c. c = CHR ''/'') path" "\<not> (segment = [] \<or> rest = [])"
  then have "0 < length rest" "length rest \<le> length path" using length_dropWhile_le by auto
  then have "0 < length path" by linarith
  moreover have "length (dropWhile (\<lambda>c. c \<noteq> CHR ''/'') rest) \<le> length path"
    using length_dropWhile_le \<open>length rest \<le> length path\<close> le_trans by blast
  ultimately have "length (dropWhile (\<lambda>c. c \<noteq> CHR ''/'') rest) - 1 < length path" by arith
  then show "((drop 1 (dropWhile (\<lambda>c. c \<noteq> CHR ''/'') rest), segment), path, segment)
      \<in> measure (\<lambda>(path, segment). length path)" by simp
qed simp

declare pathContainsSegment.simps [simp del]

record NormalizedPathFilters =
  npf_onlyFiles :: "string list"
  npf_onlyDirs :: "string list"
  npf_excludeDirs :: "string list"

definition buildNormalizedPathFilters :: "file_system \<Rightarrow> FullConfig \<Rightarrow> NormalizedPathFilters" where
  "buildNormalizedPathFilters fs cfg =
     \<lparr>npf_onlyFiles = map (normalizePath fs) (cf_onlyFiles cfg),
      npf_onlyDirs = map (normalizePath fs) (cf_onlyDirs cfg),
      npf_excludeDirs = map (normalizePath fs) (cf_excludeDirs cfg)\<rparr>"

text \<open>A path under, at or ending in a directory, or with it somewhere inside.\<close>

definition inDirectory :: "string \<Rightarrow> string \<Rightarrow> bool" where
  "inDirectory normPath normDir =
     (pathHasPrefix normPath normDir \<or> pathHasSuffix normPath normDir
        \<or> contains (''/'' @ normDir @ ''/'') normPath)"

definition matchesFile :: "string \<Rightarrow> string \<Rightarrow> bool" where
  "matchesFile normPath normFile =
     (normPath = normFile \<or> pathHasSuffix normPath normFile
        \<or> basenameOf normFile \<noteq> [] \<and> basenameOf normPath = basenameOf normFile)"

definition shouldIncludePath :: "file_system \<Rightarrow> FullConfig \<Rightarrow> NormalizedPathFilters \<Rightarrow> string \<Rightarrow> bool" where
  "shouldIncludePath fs cfg filters path =
     (if cf_onlyFiles cfg = [] \<and> cf_onlyDirs cfg = [] then True
      else if path = [] then False
      else let normPath = normalizePath fs path
           in list_ex (matchesFile normPath) (npf_onlyFiles filters)
              \<or> list_ex (inDirectory normPath) (npf_onlyDirs filters))"

definition shouldExcludePath :: "file_system \<Rightarrow> NormalizedPathFilters \<Rightarrow> string \<Rightarrow> bool" where
  "shouldExcludePath fs filters path =
     (if npf_excludeDirs filters = [] \<or> path = [] then False
      else let normPath = normalizePath fs path
           in list_ex (\<lambda>normDir. normDir \<noteq> [] \<and> inDirectory normPath normDir) (npf_excludeDirs filters))"

section \<open>Results\<close>

datatype DiagnosticSeverity = SevInfo | SevWarning | SevError

text \<open>
  \<open>FunctionResult\<close> and \<open>Diagnostic\<close>; the error code is its name, and the confidence is the text
  it is printed as (\<open>None\<close> for a negative one, which means unset).
\<close>

record FunctionResult =
  fr_filePath :: string
  fr_name :: string
  fr_localStack :: u64
  fr_maxStack :: u64
  fr_localStackUnknown :: bool
  fr_maxStackUnknown :: bool
  fr_hasDynamicAlloca :: bool
  fr_isRecursive :: bool
  fr_hasInfiniteSelfRecursion :: bool
  fr_exceedsLimit :: bool

record Diagnostic =
  dg_filePath :: string
  dg_funcName :: string
  dg_line :: nat
  dg_column :: nat
  dg_endLine :: nat
  dg_endColumn :: nat
  dg_severity :: DiagnosticSeverity
  dg_errCode :: string
  dg_ruleId :: string
  dg_confidence :: "string option"
  dg_cweId :: string
  dg_variableAliasing :: "string list"
  dg_message :: string

record AnalysisResult =
  ar_config :: FullConfig
  ar_functions :: "FunctionResult list"
  ar_diagnostics :: "Diagnostic list"

definition isReported :: "demangler \<Rightarrow> file_system \<Rightarrow> FullConfig \<Rightarrow> NormalizedPathFilters \<Rightarrow> FunctionResult \<Rightarrow> bool" where
  "isReported cxa fs cfg filters f =
     (functionNameMatches cxa cfg (fr_name f)
        \<and> (if cf_onlyFiles cfg \<noteq> [] \<or> cf_onlyDirs cfg \<noteq> []
           then shouldIncludePath fs cfg filters (fr_filePath f) else True))"

definition noReportFilter :: "FullConfig \<Rightarrow> bool" where
  "noReportFilter cfg = (cf_onlyFiles cfg = [] \<and> cf_onlyDirs cfg = [] \<and> cf_onlyFunctions cfg = [])"

definition filterResult :: "demangler \<Rightarrow> file_system \<Rightarrow> AnalysisResult \<Rightarrow> FullConfig \<Rightarrow> NormalizedPathFilters \<Rightarrow> AnalysisResult" where
  "filterResult cxa fs result cfg filters =
     (if noReportFilter cfg then result
      else let kept = filter (isReported cxa fs cfg filters) (ar_functions result);
               keepFuncs = map fr_name kept
           in \<lparr>ar_config = ar_config result, ar_functions = kept,
               ar_diagnostics = (if keepFuncs = [] then []
                 else filter (\<lambda>d. dg_funcName d \<in> set keepFuncs) (ar_diagnostics result))\<rparr>)"

definition filterWarningsOnly :: "AnalysisResult \<Rightarrow> FullConfig \<Rightarrow> AnalysisResult" where
  "filterWarningsOnly result cfg =
     (if \<not> cf_warningsOnly cfg then result
      else result\<lparr>ar_diagnostics := filter (\<lambda>d. dg_severity d \<noteq> SevInfo) (ar_diagnostics result)\<rparr>)"

definition filterFunctionsWithDiagnostics :: "AnalysisResult \<Rightarrow> AnalysisResult" where
  "filterFunctionsWithDiagnostics result =
     (let warned = filter (\<lambda>n. n \<noteq> []) (map dg_funcName (ar_diagnostics result)) in
      result\<lparr>ar_functions := (if warned = [] then []
        else filter (\<lambda>f. fr_name f \<in> set warned) (ar_functions result))\<rparr>)"

section \<open>The matchers in front of the analysis\<close>

text \<open>
  \<open>AnalyzerUtils.cpp\<close> has matchers of its own, which take the filters from the configuration and
  normalize them for each question.
\<close>

definition utilsNormalizePath :: "file_system \<Rightarrow> string \<Rightarrow> string" where
  "utilsNormalizePath fs input =
     (if input = [] then []
      else let adjusted = forwardSlashes input;
               absPath = (case fs_absolute fs adjusted of None \<Rightarrow> adjusted | Some a \<Rightarrow> a);
               norm = (case fs_weaklyCanonical fs absPath of None \<Rightarrow> lexicallyNormal absPath | Some c \<Rightarrow> c)
           in dropTrailingSlashes norm)"

definition utilsBasenameOf :: "string \<Rightarrow> string" where
  "utilsBasenameOf path =
     (if CHR ''/'' \<notin> set path then path else rev (takeWhile (\<lambda>c. c \<noteq> CHR ''/'') (rev path)))"

definition utilsPathHasSuffix :: "string \<Rightarrow> string \<Rightarrow> bool" where
  "utilsPathHasSuffix path suff =
     (suff \<noteq> [] \<and> length suff \<le> length path \<and> drop (length path - length suff) path = suff
        \<and> (length path = length suff \<or> path ! (length path - length suff - 1) = CHR ''/''))"

definition utilsPathHasPrefix :: "string \<Rightarrow> string \<Rightarrow> bool" where
  "utilsPathHasPrefix path pre =
     (pre \<noteq> [] \<and> length pre \<le> length path \<and> take (length pre) path = pre
        \<and> (length path = length pre \<or> path ! length pre = CHR ''/''))"

definition utilsMatchesFile :: "file_system \<Rightarrow> string \<Rightarrow> string \<Rightarrow> bool" where
  "utilsMatchesFile fs normPath file =
     (let normFile = utilsNormalizePath fs file; fileBase = utilsBasenameOf normFile in
      normPath = normFile \<or> utilsPathHasSuffix normPath normFile
        \<or> fileBase \<noteq> [] \<and> utilsBasenameOf normPath = fileBase)"

definition utilsMatchesDir :: "file_system \<Rightarrow> string \<Rightarrow> string \<Rightarrow> bool" where
  "utilsMatchesDir fs normPath dir =
     (let normDir = utilsNormalizePath fs dir in
      utilsPathHasPrefix normPath normDir \<or> utilsPathHasSuffix normPath normDir
        \<or> contains (''/'' @ normDir @ ''/'') normPath)"

definition utilsShouldIncludePath :: "file_system \<Rightarrow> string \<Rightarrow> FullConfig \<Rightarrow> bool" where
  "utilsShouldIncludePath fs path cfg =
     (if cf_onlyFiles cfg = [] \<and> cf_onlyDirs cfg = [] then True
      else if path = [] then False
      else let normPath = utilsNormalizePath fs path in
           if list_ex (utilsMatchesFile fs normPath) (cf_onlyFiles cfg) then True
           else list_ex (utilsMatchesDir fs normPath) (cf_onlyDirs cfg))"

definition utilsItaniumBaseName :: "string \<Rightarrow> string" where
  "utilsItaniumBaseName symbol =
     (if \<not> prefix ''_Z'' symbol then []
      else let start = (if drop 2 symbol \<noteq> [] \<and> symbol ! 2 = CHR ''L'' then 3 else 2);
               ds = takeWhile isdigit (drop start symbol);
               i = start + length ds;
               len = of_nat (digitsValue 0 ds) :: u64
           in if ds = [] then []
              else if len = 0 \<or> of_nat i + len > of_nat (length symbol) then []
              else take (unat len) (drop i symbol))"

text \<open>The text before the first parenthesis, unless it is empty.\<close>

definition utilsBaseOf :: "string \<Rightarrow> string" where
  "utilsBaseOf d = (if CHR ''('' \<in> set d then takeWhile (\<lambda>c. c \<noteq> CHR ''('') d else [])"

definition utilsMatchesFilter :: "demangler \<Rightarrow> string \<Rightarrow> string \<Rightarrow> bool" where
  "utilsMatchesFilter cxa name flt =
     (let demangledName = (if isMangled cxa name \<or> prefix ''_Z'' name then demangle cxa name else []);
          demangledBase = utilsBaseOf demangledName;
          itaniumBase = utilsItaniumBaseName name in
      if name = flt then True
      else if demangledName \<noteq> [] \<and> demangledName = flt then True
      else if demangledBase \<noteq> [] \<and> demangledBase = flt then True
      else if itaniumBase \<noteq> [] \<and> itaniumBase = flt then True
      else if isMangled cxa flt
      then let demangledFilter = demangle cxa flt; filterBase = utilsBaseOf demangledFilter in
           if demangledName \<noteq> [] \<and> demangledName = demangledFilter then True
           else filterBase \<noteq> [] \<and> demangledBase \<noteq> [] \<and> demangledBase = filterBase
      else False)"

definition utilsFunctionNameMatches :: "demangler \<Rightarrow> string \<Rightarrow> FullConfig \<Rightarrow> bool" where
  "utilsFunctionNameMatches cxa name cfg =
     (cf_onlyFunctions cfg = [] \<or> list_ex (utilsMatchesFilter cxa name) (cf_onlyFunctions cfg))"

section \<open>The functions to analyze\<close>

definition systemPrefixes :: "string list" where
  "systemPrefixes =
     [''/usr/include'', ''/usr/lib'', ''/usr/local/include'', ''/usr/local/lib'',
      ''/opt/homebrew/include'', ''/opt/homebrew/lib'', ''/opt/homebrew/cellar'',
      ''/opt/local/include'', ''/opt/local/lib'',
      ''/library/developer/commandlinetools/usr/include'',
      ''/library/developer/commandlinetools/usr/lib'',
      ''/applications/xcode.app/contents/developer/toolchains'',
      ''/applications/xcode.app/contents/developer/platforms'',
      ''/nix/store'', ''c:/program files'']"

definition systemFragments :: "string list" where
  "systemFragments =
     [''/include/c++/'', ''/c++/v1/'', ''/lib/clang/'', ''/x86_64-linux-gnu/c++/'',
      ''/aarch64-linux-gnu/c++/'']"

definition isLikelySystemPath :: "file_system \<Rightarrow> string \<Rightarrow> bool" where
  "isLikelySystemPath fs path =
     (if path = [] then False
      else let normalized = map tolower (normalizePathForMatch fs path) in
           normalized \<noteq> []
             \<and> (list_ex (pathHasPrefix normalized) systemPrefixes
                \<or> list_ex (\<lambda>f. contains f normalized) systemFragments))"

definition thirdPartySegments :: "string list" where
  "thirdPartySegments =
     [''third_party'', ''third-party'', ''thirdparty'', ''3rdparty'', ''vendor'', ''vendors'',
      ''external'', ''extern'', ''deps'', ''_deps'', ''submodules'', ''vcpkg_installed'', ''conan'']"

definition isLikelyThirdPartyPath :: "file_system \<Rightarrow> string \<Rightarrow> bool" where
  "isLikelyThirdPartyPath fs path =
     (if path = [] then False
      else let normalized = map tolower (normalizePathForMatch fs path); base = basenameOf normalized in
           normalized \<noteq> []
             \<and> (list_ex (pathContainsSegment normalized) thirdPartySegments
                \<or> prefix ''stb_'' base
                   \<and> list_ex (\<lambda>e. suffix e base) [''.h'', ''.hh'', ''.hpp'', ''.hxx'']))"

definition isCompilerRuntimeLikeName :: "string \<Rightarrow> bool" where
  "isCompilerRuntimeLikeName name =
     list_ex (\<lambda>p. prefix p name) [''llvm.'', ''clang.'', ''__asan_'', ''__ubsan_'', ''__tsan_'', ''__msan_'']"

record FunctionFilter =
  ff_moduleSourcePath :: string
  ff_config :: FullConfig
  ff_hasPathFilter :: bool
  ff_hasFuncFilter :: bool
  ff_hasFilter :: bool

definition buildFunctionFilter :: "string \<Rightarrow> FullConfig \<Rightarrow> FunctionFilter" where
  "buildFunctionFilter moduleSource cfg =
     (let hasPath = (cf_onlyFiles cfg \<noteq> [] \<or> cf_onlyDirs cfg \<noteq> []); hasFunc = (cf_onlyFunctions cfg \<noteq> []) in
      \<lparr>ff_moduleSourcePath = moduleSource, ff_config = cfg, ff_hasPathFilter = hasPath,
       ff_hasFuncFilter = hasFunc, ff_hasFilter = (hasPath \<or> hasFunc \<or> \<not> cf_includeSTL cfg)\<rparr>)"

text \<open>A function is its name and the path of its debug information (empty without).\<close>

definition shouldAnalyze :: "demangler \<Rightarrow> file_system \<Rightarrow> FunctionFilter \<Rightarrow> string \<Rightarrow> string \<Rightarrow> bool" where
  "shouldAnalyze cxa fs ff name path =
     (let cfg = ff_config ff; ownCode = (\<lambda>p. \<not> isLikelySystemPath fs p \<and> \<not> isLikelyThirdPartyPath fs p) in
      if \<not> ff_hasFilter ff then True
      else if ff_hasFuncFilter ff \<and> \<not> utilsFunctionNameMatches cxa name cfg then False
      else if \<not> ff_hasPathFilter ff
      then if \<not> cf_includeSTL cfg \<and> \<not> ff_hasFuncFilter ff
           then if path \<noteq> [] then ownCode path
                else if ff_moduleSourcePath ff \<noteq> [] then ownCode (ff_moduleSourcePath ff)
                else \<not> isCompilerRuntimeLikeName name
           else True
      else if path \<noteq> [] then utilsShouldIncludePath fs path cfg
      else if list_ex (\<lambda>p. prefix p name) [''__'', ''llvm.'', ''clang.''] then False
      else if ff_moduleSourcePath ff \<noteq> [] then utilsShouldIncludePath fs (ff_moduleSourcePath ff) cfg
      else False)"

section \<open>What the filters decide\<close>

lemma prefix_cut:
  assumes "length pre < length path" "take (length pre) path = pre"
  shows "path ! length pre = c \<longleftrightarrow> prefix (pre @ [c]) path"
proof -
  have "path = take (length pre) path @ path ! length pre # drop (Suc (length pre)) path"
    using assms(1) by (rule id_take_nth_drop)
  then obtain rest where "path = pre @ path ! length pre # rest" unfolding assms(2) by blast
  moreover have "prefix (pre @ [c]) (pre @ d # rest) \<longleftrightarrow> c = d" for d by simp
  ultimately show ?thesis by metis
qed

lemma pathHasPrefix_iff: "pathHasPrefix path pre \<longleftrightarrow> pre \<noteq> [] \<and> (path = pre \<or> prefix (pre @ ''/'') path)"
proof -
  consider "path = pre" | "length pre < length path" "take (length pre) path = pre"
    | "path \<noteq> pre" "length path \<le> length pre \<or> take (length pre) path \<noteq> pre" by fastforce
  then show ?thesis
  proof cases
    case 2
    then have "path \<noteq> pre" by auto
    with 2 prefix_cut [OF 2, of "CHR ''/''"] show ?thesis by (simp add: pathHasPrefix_def)
  next
    case 3
    have "\<not> prefix (pre @ ''/'') path"
    proof
      assume "prefix (pre @ ''/'') path"
      then obtain rest where "path = pre @ CHR ''/'' # rest" by (auto simp: prefix_def)
      with 3(2) show False by simp
    qed
    moreover have "take (length pre) path \<noteq> pre"
      using 3 by (metis le_antisym length_take min_def nat_le_linear take_all)
    ultimately show ?thesis using 3(1) by (simp add: pathHasPrefix_def)
  qed (simp add: pathHasPrefix_def)
qed

lemma splitSlash_word: "CHR ''/'' \<notin> set w \<Longrightarrow> splitSlash (w @ CHR ''/'' # rest) = w # splitSlash rest"
  by (induction w) auto

lemma splitSlash_single: "CHR ''/'' \<notin> set w \<Longrightarrow> splitSlash w = [w]"
  by (induction w) auto

lemma splitSlash_slashes:
  "segment \<noteq> [] \<Longrightarrow> segment \<in> set (splitSlash (dropWhile (\<lambda>c. c = CHR ''/'') path)) \<longleftrightarrow> segment \<in> set (splitSlash path)"
  by (induction path) auto

lemma in_cons_if: "x \<in> set (w # (if b then [] else ys)) \<longleftrightarrow> x = w \<or> \<not> b \<and> x \<in> set ys"
  by simp

lemma containsSegment_iff: "pathContainsSegment path segment \<longleftrightarrow> segment \<noteq> [] \<and> segment \<in> set (splitSlash path)"
proof (induction path segment rule: pathContainsSegment.induct)
  case (1 path segment)
  note IH = 1
  let ?rest = "dropWhile (\<lambda>c. c = CHR ''/'') path"
  let ?w = "takeWhile (\<lambda>c. c \<noteq> CHR ''/'') ?rest" and ?d = "dropWhile (\<lambda>c. c \<noteq> CHR ''/'') ?rest"
  note step = pathContainsSegment.simps [of path segment, unfolded Let_def]
  consider "segment = []" | "segment \<noteq> []" "?rest = []" | "segment \<noteq> []" "?rest \<noteq> []" by blast
  then show ?case
  proof cases
    case 1
    then show ?thesis unfolding step by (simp only: simp_thms if_True)
  next
    case 2
    have "segment \<notin> set (splitSlash ?rest)" unfolding 2(2) using 2(1) by simp
    then show ?thesis unfolding step splitSlash_slashes [OF 2(1), symmetric, of path] using 2
      by (simp only: simp_thms if_True)
  next
    case 3
    have w: "CHR ''/'' \<notin> set ?w" using set_takeWhile_sat by fastforce
    have "splitSlash (?w @ ?d) = ?w # (if ?d = [] then [] else splitSlash (drop 1 ?d))"
    proof (cases ?d)
      case Nil
      show ?thesis unfolding Nil using splitSlash_single [OF w] by simp
    next
      case (Cons c cs)
      have "c = CHR ''/''" using dropWhile_hd [OF Cons] by simp
      then show ?thesis unfolding Cons using splitSlash_word [OF w, of cs] by simp
    qed
    then have split: "splitSlash ?rest = ?w # (if ?d = [] then [] else splitSlash (drop 1 ?d))"
      by (simp only: takeWhile_dropWhile_id)
    have none: "?d = [] \<Longrightarrow> segment \<notin> set (splitSlash (drop 1 ?d))" using 3(1) by (metis drop_Nil empty_iff list.set(1) set_ConsD splitSlash.simps(1))
    have mem: "segment \<in> set (splitSlash path) \<longleftrightarrow> segment = ?w \<or> segment \<in> set (splitSlash (drop 1 ?d))"
      unfolding splitSlash_slashes [OF 3(1), symmetric, of path] split in_cons_if using none by blast
    have guard: "\<not> (segment = [] \<or> ?rest = [])" using 3 by blast
    show ?thesis
    proof (cases "?w = segment")
      case True
      then show ?thesis unfolding step mem using guard 3(1) by (simp only: if_True if_False simp_thms)
    next
      case False
      then have "segment \<noteq> ?w" by blast
      then show ?thesis
        unfolding step mem IH [OF refl guard False] using 3 False by (simp only: if_False simp_thms)
    qed
  qed
qed

text \<open>A file of the same name in another directory passes the filter.\<close>

lemma namesake_passes: "matchesFile ''/p/b/util.c'' ''/p/a/util.c''"
  by (simp add: matchesFile_def basenameOf_def)

subsection \<open>The two copies of the matchers\<close>

lemma utils_paths:
  "utilsNormalizePath = normalizePath" "utilsPathHasSuffix = pathHasSuffix" "utilsPathHasPrefix = pathHasPrefix"
  "utilsBasenameOf = basenameOf"
proof -
  show "utilsNormalizePath = normalizePath"
    by (intro ext) (simp add: utilsNormalizePath_def normalizePath_def Let_def split: option.split)
  show "utilsPathHasSuffix = pathHasSuffix"
    by (intro ext) (auto simp: utilsPathHasSuffix_def pathHasSuffix_def not_less)
  show "utilsPathHasPrefix = pathHasPrefix"
    by (intro ext) (auto simp: utilsPathHasPrefix_def pathHasPrefix_def not_less)
  have "utilsBasenameOf path = basenameOf path" for path
  proof (cases "CHR ''/'' \<in> set path")
    case False
    then have "takeWhile (\<lambda>c. c \<noteq> CHR ''/'') (rev path) = rev path"
      unfolding takeWhile_eq_all_conv set_rev by metis
    then show ?thesis unfolding basenameOf_def utilsBasenameOf_def by (simp only: rev_rev_ident False if_False if_True not_False_eq_True)
  qed (simp add: utilsBasenameOf_def basenameOf_def)
  then show "utilsBasenameOf = basenameOf" by blast
qed

lemma utils_include_path:
  "utilsShouldIncludePath fs path cfg = shouldIncludePath fs cfg (buildNormalizedPathFilters fs cfg) path"
proof -
  have "list_ex (utilsMatchesFile fs p) fs' = list_ex (matchesFile p) (map (normalizePath fs) fs')" for p fs'
    by (induction fs') (auto simp: utilsMatchesFile_def matchesFile_def utils_paths Let_def)
  moreover have "list_ex (utilsMatchesDir fs p) ds = list_ex (inDirectory p) (map (normalizePath fs) ds)" for p ds
    by (induction ds) (auto simp: utilsMatchesDir_def inDirectory_def utils_paths Let_def)
  ultimately show ?thesis
    by (simp add: utilsShouldIncludePath_def shouldIncludePath_def buildNormalizedPathFilters_def utils_paths Let_def)
qed

lemma digits_then_rest:
  "drop (length (takeWhile isdigit r)) r = dropWhile isdigit r"
  "length (pre @ r) - length (dropWhile isdigit r) = length pre + length (takeWhile isdigit r)"
proof -
  show "drop (length (takeWhile isdigit r)) r = dropWhile isdigit r" by (simp add: dropWhile_eq_drop)
  have "length (takeWhile isdigit r @ dropWhile isdigit r) = length r" by (simp only: takeWhile_dropWhile_id)
  then show "length (pre @ r) - length (dropWhile isdigit r) = length pre + length (takeWhile isdigit r)"
    unfolding length_append by linarith
qed

lemma nested_if: "(if a then x else if b then x else y) = (if a \<or> b then x else y)"
  by simp

lemma utils_itanium: "utilsItaniumBaseName symbol = itaniumBaseName symbol"
proof (cases "prefix ''_Z'' symbol")
  case True
  then obtain rest where s: "symbol = ''_Z'' @ rest" by (auto simp: prefix_def)
  have cut: "drop (n + length (takeWhile isdigit r)) symbol = dropWhile isdigit r"
      "length symbol - length (dropWhile isdigit r) = n + length (takeWhile isdigit r)"
    if "symbol = pre @ r" "length pre = n" for pre r n
    using digits_then_rest [of r] digits_then_rest(2) [of pre r] that by auto
  have rest: "drop 2 symbol = rest" by (simp add: s)
  show ?thesis
  proof (cases "rest \<noteq> [] \<and> hd rest = CHR ''L''")
    case L: True
    then have eqs: "symbol = ''_ZL'' @ tl rest" "drop 3 symbol = tl rest" "(symbol ! 2 = CHR ''L'') = True"
      by (cases rest; simp add: s)+
    have three: "length ''_ZL'' = 3" by simp
    show ?thesis unfolding utilsItaniumBaseName_def itaniumBaseName_def Let_def
      by (simp only: True rest L eqs(2,3) cut [OF eqs(1) three] simp_thms if_True if_False)
        (simp only: nested_if)
  next
    case noL: False
    have no: "(rest \<noteq> [] \<and> symbol ! 2 = CHR ''L'') = False" using noL by (cases rest) (simp_all add: s)
    have two: "length ''_Z'' = 2" by simp
    show ?thesis unfolding utilsItaniumBaseName_def itaniumBaseName_def Let_def
      by (simp only: True rest noL no cut [OF s two] simp_thms if_True if_False)
        (simp only: nested_if)
  qed
qed (simp add: utilsItaniumBaseName_def itaniumBaseName_def)

lemma utils_base: "utilsBaseOf d = baseOfDemangled d"
  by (cases d) (auto simp: utilsBaseOf_def baseOfDemangled_def)

lemma filter_tests:
  fixes db fb :: string
  shows "(if a then True else if b then True else if c then True else if d then True
     else if m then if e then True else fb \<noteq> [] \<and> db \<noteq> [] \<and> db = fb else False)
   \<longleftrightarrow> a \<or> b \<or> c \<or> d \<or> m \<and> (e \<or> fb \<noteq> [] \<and> db = fb)"
  by auto

lemma utils_filter: "utilsMatchesFilter cxa name = matchesOneFilter cxa name"
  unfolding utilsMatchesFilter_def matchesOneFilter_def Let_def utils_itanium utils_base fun_eq_iff
  by (intro allI filter_tests)

lemma utils_names: "utilsFunctionNameMatches cxa name cfg = functionNameMatches cxa cfg name"
  unfolding utilsFunctionNameMatches_def functionNameMatches_def utils_filter by (rule refl)

text \<open>
  C34: The two filters agree although each has matchers of its own: with a filter set, the filter in
  front of the analysis (\<open>AnalyzerUtils.cpp\<close>) lets a function with a known source file through
  exactly when the filter of the report (\<open>AnalyzerApp.cpp\<close>) keeps it.
\<close>
theorem analyzed_functions_are_the_reported_ones:
  assumes "\<not> noReportFilter cfg" "fr_filePath f \<noteq> []"
  shows "shouldAnalyze cxa fs (buildFunctionFilter moduleSource cfg) (fr_name f) (fr_filePath f)
     = isReported cxa fs cfg (buildNormalizedPathFilters fs cfg) f"
  using assms
  by (auto simp: shouldAnalyze_def buildFunctionFilter_def isReported_def noReportFilter_def utils_names
      utils_include_path functionNameMatches_def Let_def)

lemma analyzed_functions_are_the_reported_ones_witness:
  "shouldAnalyze (\<lambda>_. None) \<lparr>fs_absolute = Some, fs_weaklyCanonical = Some\<rparr>
     (buildFunctionFilter [] (defaultConfig\<lparr>cf_onlyFunctions := [''main'']\<rparr>)) ''main'' ''/a.c''"
proof -
  let ?f = "\<lparr>fr_filePath = ''/a.c'', fr_name = ''main'', fr_localStack = 0, fr_maxStack = 0,
     fr_localStackUnknown = False, fr_maxStackUnknown = False, fr_hasDynamicAlloca = False,
     fr_isRecursive = False, fr_hasInfiniteSelfRecursion = False, fr_exceedsLimit = False\<rparr>"
  have "\<not> noReportFilter (defaultConfig\<lparr>cf_onlyFunctions := [''main'']\<rparr>)" by (simp add: noReportFilter_def)
  from analyzed_functions_are_the_reported_ones [OF this, of ?f]
  show ?thesis
    by (simp add: isReported_def functionNameMatches_def matchesOneFilter_def Let_def defaultConfig_def)
qed

end
