(* ===== verification/Reports.thy ===== *)
theory Reports
  imports AppFilters
begin

text \<open>
  The JSON and SARIF texts of a result: \<open>ReportSerialization.cpp\<close>.  \<open>canonical\<close> is
  \<open>std::filesystem::canonical\<close> (\<open>None\<close> when it throws); the name of an error code and the text of a
  confidence come with the diagnostic.
\<close>

section \<open>Strings\<close>

definition nl :: string where "nl = [CHR 0x0A]"

definition hexDigit :: "nat \<Rightarrow> char" where
  "hexDigit n = (if n < 10 then char_of (48 + n) else char_of (87 + n))"

definition escapeJsonChar :: "char \<Rightarrow> string" where
  "escapeJsonChar c =
     (if c = CHR 0x5C then [CHR 0x5C, CHR 0x5C]
      else if c = CHR 0x22 then [CHR 0x5C, CHR 0x22]
      else if c = CHR 0x0A then [CHR 0x5C, CHR ''n'']
      else if c = CHR 0x0D then [CHR 0x5C, CHR ''r'']
      else if c = CHR 0x09 then [CHR 0x5C, CHR ''t'']
      else if of_char c < (32 :: nat)
      then [CHR 0x5C, CHR ''u'', CHR ''0'', CHR ''0'', hexDigit (of_char c div 16), hexDigit (of_char c mod 16)]
      else [c])"

definition jsonEscape :: "string \<Rightarrow> string" where
  "jsonEscape s = concat (map escapeJsonChar s)"

definition jsonString :: "string \<Rightarrow> string" where
  "jsonString s = [CHR 0x22] @ jsonEscape s @ [CHR 0x22]"

text \<open>A member of an object: the name in quotes, a colon and the value.\<close>

definition member :: "nat \<Rightarrow> string \<Rightarrow> string \<Rightarrow> string" where
  "member indent name v = replicate indent (CHR '' '') @ [CHR 0x22] @ name @ [CHR 0x22] @ '': '' @ v"

fun separated :: "string \<Rightarrow> string list \<Rightarrow> string" where
  "separated sep [] = []"
| "separated sep [x] = x"
| "separated sep (x # xs) = x @ sep @ separated sep xs"

text \<open>Items on lines of their own, a comma after each but the last.\<close>

definition itemLines :: "string list \<Rightarrow> string" where
  "itemLines items = (if items = [] then [] else separated ('','' @ nl) items @ nl)"

definition jsonBool :: "bool \<Rightarrow> string" where
  "jsonBool b = (if b then ''true'' else ''false'')"

record DiagnosticSummary =
  ds_info :: nat
  ds_warning :: nat
  ds_error :: nat

fun summarizeDiagnostics :: "Diagnostic list \<Rightarrow> DiagnosticSummary" where
  "summarizeDiagnostics [] = \<lparr>ds_info = 0, ds_warning = 0, ds_error = 0\<rparr>"
| "summarizeDiagnostics (d # ds) =
     (let s = summarizeDiagnostics ds in
      case dg_severity d of
        SevInfo \<Rightarrow> s\<lparr>ds_info := ds_info s + 1\<rparr>
      | SevWarning \<Rightarrow> s\<lparr>ds_warning := ds_warning s + 1\<rparr>
      | SevError \<Rightarrow> s\<lparr>ds_error := ds_error s + 1\<rparr>)"

definition accumulateSummary :: "DiagnosticSummary \<Rightarrow> DiagnosticSummary \<Rightarrow> DiagnosticSummary" where
  "accumulateSummary sums add =
     \<lparr>ds_info = ds_info sums + ds_info add, ds_warning = ds_warning sums + ds_warning add,
      ds_error = ds_error sums + ds_error add\<rparr>"

section \<open>Fields of a diagnostic\<close>

definition severityToSarifLevel :: "DiagnosticSeverity \<Rightarrow> string" where
  "severityToSarifLevel sev =
     (case sev of SevInfo \<Rightarrow> ''note'' | SevWarning \<Rightarrow> ''warning'' | SevError \<Rightarrow> ''error'')"

definition severityName :: "DiagnosticSeverity \<Rightarrow> string" where
  "severityName sev = (case sev of SevInfo \<Rightarrow> ''INFO'' | SevWarning \<Rightarrow> ''WARNING'' | SevError \<Rightarrow> ''ERROR'')"

definition resolveRuleId :: "Diagnostic \<Rightarrow> string" where
  "resolveRuleId d = (if dg_ruleId d \<noteq> [] then dg_ruleId d else dg_errCode d)"

definition stripBase :: "(string \<Rightarrow> string option) \<Rightarrow> string \<Rightarrow> string \<Rightarrow> string" where
  "stripBase canonical path baseDir =
     (if baseDir = [] then path
      else let base = (case canonical baseDir of Some c \<Rightarrow> c | None \<Rightarrow> baseDir);
               base' = (if base \<noteq> [] \<and> last base \<noteq> CHR ''/'' then base @ ''/'' else base)
           in if prefix base' path then drop (length base') path else path)"

section \<open>JSON\<close>

text \<open>\<open>inputFile\<close> is the single input, if there is one.\<close>

definition orInput :: "string option \<Rightarrow> string \<Rightarrow> string" where
  "orInput inputFile path = (case inputFile of Some f \<Rightarrow> (if path = [] then f else path) | None \<Rightarrow> path)"

definition jsonStack :: "string \<Rightarrow> u64 \<Rightarrow> bool \<Rightarrow> string list" where
  "jsonStack name bytes unknown =
     [member 6 name (if unknown then ''null'' else to_string (unat bytes)),
      member 6 (name @ ''LowerBound'') (if unknown \<and> bytes > 0 then to_string (unat bytes) else ''null''),
      member 6 (name @ ''Unknown'') (jsonBool unknown)]"

definition jsonFunction :: "string option \<Rightarrow> FunctionResult \<Rightarrow> string" where
  "jsonFunction inputFile f =
     ''    {'' @ nl
       @ separated ('','' @ nl)
          ([member 6 ''file'' (jsonString (orInput inputFile (fr_filePath f))),
            member 6 ''name'' (jsonString (fr_name f))]
           @ jsonStack ''localStack'' (fr_localStack f) (fr_localStackUnknown f)
           @ jsonStack ''maxStack'' (fr_maxStack f) (fr_maxStackUnknown f)
           @ [member 6 ''hasDynamicAlloca'' (jsonBool (fr_hasDynamicAlloca f)),
              member 6 ''isRecursive'' (jsonBool (fr_isRecursive f)),
              member 6 ''hasInfiniteSelfRecursion'' (jsonBool (fr_hasInfiniteSelfRecursion f)),
              member 6 ''exceedsLimit'' (jsonBool (fr_exceedsLimit f))])
       @ nl @ ''    }''"

definition jsonDiagnostic :: "string option \<Rightarrow> nat \<Rightarrow> Diagnostic \<Rightarrow> string" where
  "jsonDiagnostic inputFile i d =
     ''    {'' @ nl
       @ separated ('','' @ nl)
          [member 6 ''id'' (jsonString (''diag-'' @ to_string (i + 1))),
           member 6 ''severity'' (jsonString (severityName (dg_severity d))),
           member 6 ''ruleId'' (jsonString (resolveRuleId d)),
           member 6 ''confidence'' (case dg_confidence d of Some c \<Rightarrow> c | None \<Rightarrow> ''null''),
           member 6 ''cwe'' (if dg_cweId d \<noteq> [] then jsonString (dg_cweId d) else ''null''),
           member 6 ''location'' (''{'' @ nl
             @ separated ('','' @ nl)
                [member 8 ''file'' (jsonString (orInput inputFile (dg_filePath d))),
                 member 8 ''function'' (jsonString (dg_funcName d)),
                 member 8 ''startLine'' (to_string (dg_line d)),
                 member 8 ''startColumn'' (to_string (dg_column d)),
                 member 8 ''endLine'' (to_string (dg_endLine d)),
                 member 8 ''endColumn'' (to_string (dg_endColumn d))]
             @ nl @ ''      }''),
           member 6 ''details'' (''{'' @ nl
             @ separated ('','' @ nl)
                [member 8 ''message'' (jsonString (dg_message d)),
                 member 8 ''variableAliasing'' (''['' @ separated '', '' (map jsonString (dg_variableAliasing d)) @ '']'')]
             @ nl @ ''      }'')]
       @ nl @ ''    }''"

definition jsonInputs :: "string option \<Rightarrow> string list option \<Rightarrow> string list" where
  "jsonInputs inputFile inputFiles =
     (if inputFiles \<noteq> None \<and> inputFiles \<noteq> Some []
      then [member 4 ''inputFiles'' (''['' @ separated '', '' (map jsonString (the inputFiles)) @ '']'')]
      else case inputFile of Some f \<Rightarrow> [member 4 ''inputFile'' (jsonString f)] | None \<Rightarrow> [])"

definition toJsonImpl :: "AnalysisResult \<Rightarrow> string option \<Rightarrow> string list option \<Rightarrow> string" where
  "toJsonImpl result inputFile inputFiles =
     (let s = summarizeDiagnostics (ar_diagnostics result) in
      ''{'' @ nl
        @ member 2 ''meta'' ''{'' @ nl
        @ separated ('','' @ nl)
           ([member 4 ''tool'' (jsonString ''ctrace-stack-analyzer'')] @ jsonInputs inputFile inputFiles
            @ [member 4 ''mode'' (jsonString (if cf_mode (ar_config result) = IR then ''IR'' else ''ABI'')),
               member 4 ''stackLimit'' (to_string (unat (cf_stackLimit (ar_config result)))),
               member 4 ''analysisTimeMs'' ''-1''])
        @ nl @ '' },'' @ nl
        @ member 2 ''functions'' ''['' @ nl
        @ itemLines (map (jsonFunction inputFile) (ar_functions result))
        @ ''  ],'' @ nl
        @ member 2 ''diagnostics'' ''['' @ nl
        @ itemLines (map (\<lambda>(i, d). jsonDiagnostic inputFile i d)
            (zip [0..<length (ar_diagnostics result)] (ar_diagnostics result)))
        @ ''  ],'' @ nl
        @ member 2 ''diagnosticsSummary'' ''{'' @ nl
        @ separated ('','' @ nl)
           [member 4 ''info'' (to_string (ds_info s)), member 4 ''warning'' (to_string (ds_warning s)),
            member 4 ''error'' (to_string (ds_error s))]
        @ nl @ ''  }'' @ nl @ ''}'' @ nl)"

section \<open>SARIF\<close>

record SarifRuleEntry =
  sr_id :: string
  sr_cweId :: string

text \<open>The rules in the order of their first diagnostic; a later diagnostic may add the CWE.\<close>

fun addRule :: "SarifRuleEntry list \<Rightarrow> Diagnostic \<Rightarrow> SarifRuleEntry list" where
  "addRule [] d = [\<lparr>sr_id = resolveRuleId d, sr_cweId = dg_cweId d\<rparr>]"
| "addRule (r # rs) d =
     (if sr_id r = resolveRuleId d
      then (if sr_cweId r = [] \<and> dg_cweId d \<noteq> [] then r\<lparr>sr_cweId := dg_cweId d\<rparr> else r) # rs
      else r # addRule rs d)"

fun insertRule :: "SarifRuleEntry \<Rightarrow> SarifRuleEntry list \<Rightarrow> SarifRuleEntry list" where
  "insertRule r [] = [r]"
| "insertRule r (q # qs) = (if viewLess (sr_id q) (sr_id r) then q # insertRule r qs else r # q # qs)"

definition sarifRules :: "Diagnostic list \<Rightarrow> SarifRuleEntry list" where
  "sarifRules ds = foldr insertRule (foldl addRule [] ds) []"

definition sarifRule :: "SarifRuleEntry \<Rightarrow> string" where
  "sarifRule r =
     replicate 12 (CHR '' '') @ ''{'' @ nl
       @ separated ('','' @ nl)
          ([member 14 ''id'' (jsonString (sr_id r)),
            member 14 ''shortDescription'' (''{ '' @ member 0 ''text'' (jsonString (sr_id r)) @ '' }'')]
           @ (if sr_cweId r \<noteq> []
              then [member 14 ''properties'' (''{'' @ nl @ member 16 ''tags'' (''['' @ jsonString (sr_cweId r) @ '']'')
                      @ nl @ replicate 14 (CHR '' '') @ ''}'')]
              else []))
       @ nl @ replicate 12 (CHR '' '') @ ''}''"

definition sarifStart :: "nat \<Rightarrow> nat" where
  "sarifStart n = (if n > 0 then n else 1)"

definition sarifResult :: "(string \<Rightarrow> string option) \<Rightarrow> string \<Rightarrow> string \<Rightarrow> Diagnostic \<Rightarrow> string" where
  "sarifResult canonical inputFile baseDir d =
     (let properties =
            (case dg_confidence d of Some c \<Rightarrow> [member 12 ''confidence'' c] | None \<Rightarrow> [])
              @ (if dg_cweId d \<noteq> [] then [member 12 ''cwe'' (jsonString (dg_cweId d))] else []);
          uriPath = stripBase canonical (if dg_filePath d = [] then inputFile else dg_filePath d) baseDir in
      replicate 8 (CHR '' '') @ ''{'' @ nl
        @ member 10 ''ruleId'' (jsonString (resolveRuleId d)) @ '','' @ nl
        @ member 10 ''level'' (jsonString (severityToSarifLevel (dg_severity d))) @ '','' @ nl
        @ member 10 ''message'' (''{ '' @ member 0 ''text'' (jsonString (dg_message d)) @ '' }'') @ '','' @ nl
        @ (if properties \<noteq> []
           then member 10 ''properties'' ''{'' @ nl @ separated ('','' @ nl) properties @ nl
                  @ replicate 10 (CHR '' '') @ ''},'' @ nl
           else [])
        @ member 10 ''locations'' ''['' @ nl
        @ replicate 12 (CHR '' '') @ ''{'' @ nl
        @ member 14 ''physicalLocation'' ''{'' @ nl
        @ member 16 ''artifactLocation'' (''{ '' @ member 0 ''uri'' (jsonString uriPath) @ '' }'') @ '','' @ nl
        @ member 16 ''region'' ''{'' @ nl
        @ member 18 ''startLine'' (to_string (sarifStart (dg_line d))) @ '','' @ nl
        @ member 18 ''startColumn'' (to_string (sarifStart (dg_column d))) @ nl
        @ replicate 16 (CHR '' '') @ ''}'' @ nl
        @ replicate 14 (CHR '' '') @ ''}'' @ nl
        @ replicate 12 (CHR '' '') @ ''}'' @ nl
        @ replicate 10 (CHR '' '') @ '']'' @ nl
        @ replicate 8 (CHR '' '') @ ''}'')"

definition toSarif :: "(string \<Rightarrow> string option) \<Rightarrow> AnalysisResult \<Rightarrow> string \<Rightarrow> string \<Rightarrow> string \<Rightarrow> string \<Rightarrow> string" where
  "toSarif canonical result inputFile toolName toolVersion baseDir =
     ''{'' @ nl
       @ member 2 ''version'' (jsonString ''2.1.0'') @ '','' @ nl
       @ member 2 ''$schema'' (jsonString ''https://schemastore.azurewebsites.net/schemas/json/sarif-2.1.0.json'') @ '','' @ nl
       @ member 2 ''runs'' ''['' @ nl @ ''    {'' @ nl
       @ member 6 ''tool'' ''{'' @ nl
       @ member 8 ''driver'' ''{'' @ nl
       @ member 10 ''name'' (jsonString toolName) @ '','' @ nl
       @ member 10 ''version'' (jsonString toolVersion) @ '','' @ nl
       @ member 10 ''rules'' ''['' @ nl
       @ itemLines (map sarifRule (sarifRules (ar_diagnostics result)))
       @ replicate 10 (CHR '' '') @ '']'' @ nl @ replicate 8 (CHR '' '') @ ''}'' @ nl
       @ replicate 6 (CHR '' '') @ ''},'' @ nl
       @ member 6 ''results'' ''['' @ nl
       @ itemLines (map (sarifResult canonical inputFile baseDir) (ar_diagnostics result))
       @ replicate 6 (CHR '' '') @ '']'' @ nl @ ''    }'' @ nl @ ''  ]'' @ nl @ ''}'' @ nl"

section \<open>The order of the rules\<close>

lemma viewLess_asym: "viewLess a b \<Longrightarrow> \<not> viewLess b a"
  by (induction a b rule: viewLess.induct) auto

lemma viewLess_between: "viewLess a c \<Longrightarrow> viewLess a b \<or> viewLess b c"
proof (induction a c arbitrary: b rule: viewLess.induct)
  case (2 y ys)
  then show ?case by (cases b) auto
next
  case (3 x xs y ys)
  then show ?case by (cases b) auto
qed simp

lemma viewLess_total: "\<not> viewLess a b \<Longrightarrow> \<not> viewLess b a \<Longrightarrow> a = b"
proof (induction a b rule: viewLess.induct)
  case (1 xs)
  then show ?case by (cases xs) auto
next
  case (3 x xs y ys)
  then have "x = y" using linorder_less_linear [of "of_char x :: nat" "of_char y"] by auto
  with 3 show ?case by auto
qed simp

lemma viewLess_trans: "viewLess a b \<Longrightarrow> viewLess b c \<Longrightarrow> viewLess a c"
  using viewLess_between viewLess_asym by blast

text \<open>The rules with their ids sorted and distinct.\<close>

definition rulesSorted :: "SarifRuleEntry list \<Rightarrow> bool" where
  "rulesSorted rs = sorted_wrt viewLess (map sr_id rs)"

lemma insertRule_set [simp]: "set (insertRule r rs) = insert r (set rs)"
  by (induction rs) auto

lemma insertRule_sorted:
  "rulesSorted rs \<Longrightarrow> sr_id r \<notin> sr_id ` set rs \<Longrightarrow> rulesSorted (insertRule r rs)"
proof (induction rs)
  case (Cons q qs)
  show ?case
  proof (cases "viewLess (sr_id q) (sr_id r)")
    case True
    then show ?thesis using Cons by (auto simp: rulesSorted_def)
  next
    case False
    then have "viewLess (sr_id r) (sr_id q)" using viewLess_total Cons.prems(2) by fastforce
    have "viewLess (sr_id r) (sr_id x)" if "x \<in> set qs" for x
      using viewLess_trans [OF \<open>viewLess (sr_id r) (sr_id q)\<close>] Cons.prems(1) that by (simp add: rulesSorted_def)
    then show ?thesis using Cons.prems(1) False \<open>viewLess (sr_id r) (sr_id q)\<close> by (simp add: rulesSorted_def)
  qed
qed (simp add: rulesSorted_def)

lemma sorted_rules:
  "distinct (map sr_id rs) \<Longrightarrow> rulesSorted (foldr insertRule rs []) \<and> set (foldr insertRule rs []) = set rs"
  by (induction rs) (auto simp: rulesSorted_def intro: insertRule_sorted [unfolded rulesSorted_def])

lemma addRule_ids: "sr_id ` set (addRule rs d) = insert (resolveRuleId d) (sr_id ` set rs)"
  by (induction rs) auto

lemma addRule_distinct: "distinct (map sr_id rs) \<Longrightarrow> distinct (map sr_id (addRule rs d))"
proof (induction rs)
  case (Cons r rs)
  have "sr_id r \<notin> sr_id ` set (addRule rs d)" if "sr_id r \<noteq> resolveRuleId d"
    using Cons.prems that unfolding addRule_ids by simp
  then show ?case using Cons by auto
qed simp

text \<open>The CWE of a rule: the first that a diagnostic of the rule has.\<close>

fun firstCwe :: "Diagnostic list \<Rightarrow> string \<Rightarrow> string" where
  "firstCwe [] rid = []"
| "firstCwe (d # ds) rid =
     (if resolveRuleId d = rid \<and> dg_cweId d \<noteq> [] then dg_cweId d else firstCwe ds rid)"

lemma firstCwe_append:
  "firstCwe (ds @ [d]) rid =
     (if firstCwe ds rid \<noteq> [] then firstCwe ds rid
      else if resolveRuleId d = rid then dg_cweId d else [])"
  by (induction ds) auto

lemma firstCwe_unused: "rid \<notin> resolveRuleId ` set ds \<Longrightarrow> firstCwe ds rid = []"
  by (induction ds) auto

lemma addRule_member:
  assumes "r \<in> set (addRule rs d)" "distinct (map sr_id rs)"
  shows "sr_id r \<noteq> resolveRuleId d \<and> r \<in> set rs
     \<or> sr_id r = resolveRuleId d \<and> resolveRuleId d \<notin> sr_id ` set rs \<and> sr_cweId r = dg_cweId d
     \<or> sr_id r = resolveRuleId d
         \<and> (\<exists>q \<in> set rs. sr_id q = sr_id r \<and> sr_cweId r = (if sr_cweId q \<noteq> [] then sr_cweId q else dg_cweId d))"
  using assms
proof (induction rs)
  case (Cons q qs)
  have later: "sr_id r \<noteq> sr_id q" if "r \<in> set qs"
    using imageI [OF that, of sr_id] Cons.prems(2) by (simp add: distinct.simps) metis
  show ?case using Cons later
    by (cases "sr_id q = resolveRuleId d"; cases "r \<in> set qs") (auto split: if_splits)
qed simp

lemma collected_rules:
  "distinct (map sr_id (foldl addRule [] ds)) \<and> sr_id ` set (foldl addRule [] ds) = resolveRuleId ` set ds
     \<and> list_all (\<lambda>r. sr_cweId r = firstCwe ds (sr_id r)) (foldl addRule [] ds)"
proof (induction ds rule: rev_induct)
  case (snoc d ds)
  let ?rs = "foldl addRule [] ds"
  have IH: "distinct (map sr_id ?rs)" "sr_id ` set ?rs = resolveRuleId ` set ds"
    "\<And>r. r \<in> set ?rs \<Longrightarrow> sr_cweId r = firstCwe ds (sr_id r)"
    using snoc by (auto simp: list_all_iff)
  have "sr_cweId r = firstCwe (ds @ [d]) (sr_id r)" if r: "r \<in> set (addRule ?rs d)" for r
    using addRule_member [OF r IH(1)]
  proof (elim disjE conjE bexE)
    assume "sr_id r \<noteq> resolveRuleId d" "r \<in> set ?rs"
    then show ?thesis using IH(3) by (simp add: firstCwe_append)
  next
    assume "sr_id r = resolveRuleId d" "resolveRuleId d \<notin> sr_id ` set ?rs" "sr_cweId r = dg_cweId d"
    then show ?thesis using firstCwe_unused [of "resolveRuleId d" ds] IH(2) by (simp add: firstCwe_append)
  next
    fix q
    assume "sr_id r = resolveRuleId d" "q \<in> set ?rs" "sr_id q = sr_id r"
      "sr_cweId r = (if sr_cweId q \<noteq> [] then sr_cweId q else dg_cweId d)"
    then show ?thesis using IH(3) [of q] by (simp add: firstCwe_append)
  qed
  then show ?case using addRule_distinct [OF IH(1)] addRule_ids [of ?rs d] IH(2) by (simp add: list_all_iff)
qed simp

lemma sarif_rules_of_diagnostics:
  "sorted_wrt viewLess (map sr_id (sarifRules ds))
     \<and> map (\<lambda>r. firstCwe ds (sr_id r)) (sarifRules ds) = map sr_cweId (sarifRules ds)
     \<and> sr_id ` set (sarifRules ds) = resolveRuleId ` set ds"
proof -
  have c: "distinct (map sr_id (foldl addRule [] ds))" "sr_id ` set (foldl addRule [] ds) = resolveRuleId ` set ds"
    "list_all (\<lambda>r. sr_cweId r = firstCwe ds (sr_id r)) (foldl addRule [] ds)"
    using collected_rules [of ds] by simp_all
  have "rulesSorted (sarifRules ds) \<and> set (sarifRules ds) = set (foldl addRule [] ds)"
    unfolding sarifRules_def by (rule sorted_rules) (rule c(1))
  then show ?thesis using c(2,3) by (simp add: rulesSorted_def list_all_iff)
qed

section \<open>Reading a string back\<close>

text \<open>A string literal as RFC 8259 defines it, for code points below 256.\<close>

definition hexDigitValue :: "char \<Rightarrow> nat option" where
  "hexDigitValue c =
     (let n = of_char c in
      if 48 \<le> n \<and> n \<le> (57 :: nat) then Some (n - 48)
      else if 97 \<le> n \<and> n \<le> 102 then Some (n - 87)
      else if 65 \<le> n \<and> n \<le> 70 then Some (n - 55) else None)"

definition hexCode :: "char list \<Rightarrow> char option" where
  "hexCode ds =
     (if None \<in> set (map hexDigitValue ds) then None
      else let v = foldl (\<lambda>acc d. 16 * acc + the (hexDigitValue d)) 0 ds in
           if v < 256 then Some (char_of v) else None)"

definition simpleEscape :: "char \<Rightarrow> char option" where
  "simpleEscape e =
     (if e \<in> {CHR 0x22, CHR 0x5C, CHR ''/''} then Some e
      else if e = CHR ''n'' then Some (CHR 0x0A)
      else if e = CHR ''r'' then Some (CHR 0x0D)
      else if e = CHR ''t'' then Some (CHR 0x09)
      else if e = CHR ''b'' then Some (CHR 0x08)
      else if e = CHR ''f'' then Some (CHR 0x0C) else None)"

text \<open>The text after the opening quote: the string and what follows the closing quote.\<close>

fun readJsonString :: "string \<Rightarrow> (string \<times> string) option" where
  "readJsonString [] = None"
| "readJsonString (c # cs) =
     (if c = CHR 0x22 then Some ([], cs)
      else if of_char c < (32 :: nat) then None
      else if c \<noteq> CHR 0x5C then map_option (apfst ((#) c)) (readJsonString cs)
      else case cs of
             [] \<Rightarrow> None
           | e # rest \<Rightarrow>
               (if e = CHR ''u''
                then (case hexCode (take 4 rest) of
                        Some x \<Rightarrow> if length (take 4 rest) = 4
                                  then map_option (apfst ((#) x)) (readJsonString (drop 4 rest)) else None
                      | None \<Rightarrow> None)
                else (case simpleEscape e of
                        Some x \<Rightarrow> map_option (apfst ((#) x)) (readJsonString rest)
                      | None \<Rightarrow> None)))"

lemma hexDigitValue_hexDigit: "n < 16 \<Longrightarrow> hexDigitValue (hexDigit n) = Some n"
  by (auto simp: hexDigitValue_def hexDigit_def Let_def)

lemma control_code:
  assumes "of_char c < (32 :: nat)"
  shows "hexCode [CHR ''0'', CHR ''0'', hexDigit (of_char c div 16), hexDigit (of_char c mod 16)] = Some c"
proof -
  have "hexDigitValue CHR ''0'' = Some 0" by (simp add: hexDigitValue_def)
  moreover have "of_char c div 16 < (16 :: nat)" using assms by simp
  moreover have "16 * (of_char c div 16) + of_char c mod 16 = (of_char c :: nat)" by simp
  ultimately show ?thesis using assms
    by (simp add: hexCode_def hexDigitValue_hexDigit Let_def)
qed

lemma read_escaped_char:
  "readJsonString (escapeJsonChar c @ rest) = map_option (apfst ((#) c)) (readJsonString rest)"
  using control_code [of c] by (auto simp: escapeJsonChar_def simpleEscape_def)

lemma read_string: "readJsonString (jsonEscape s @ CHR 0x22 # rest) = Some (s, rest)"
  by (induction s) (simp_all add: jsonEscape_def read_escaped_char del: readJsonString.simps(2),
      simp_all)

text \<open>
  C40: A string in a report reads back as itself: from the text of the string, with its quotes and
  whatever follows it, a JSON reader takes the original string and stops at the closing quote, for
  every string, quotes, backslashes and control characters included.
\<close>
theorem report_strings_read_back:
  "hd (jsonString s) = CHR 0x22 \<and> readJsonString (tl (jsonString s) @ rest) = Some (s, rest)"
  by (simp add: jsonString_def read_string)

text \<open>
  The rules of a SARIF report are sorted, each once: they are the rules of the diagnostics, and a
  rule has the CWE of the first of its diagnostics that has one.
\<close>
theorem sarif_rules_are_those_of_the_results:
  "sorted_wrt viewLess (map sr_id (sarifRules ds))
     \<and> map (\<lambda>r. firstCwe ds (sr_id r)) (sarifRules ds) = map sr_cweId (sarifRules ds)
     \<and> sr_id ` set (sarifRules ds) = resolveRuleId ` set ds"
  by (rule sarif_rules_of_diagnostics)

end
