(* ===== verification/AppRun.thy ===== *)
theory AppRun
  imports Reports ParallelWork
begin

text \<open>
  A run of the analyzer: the plan, the loading and analysis of the inputs, and the report
  (\<open>AnalyzerApp.cpp\<close> without the cross-file indices, which have their own theories).  Loading a
  module, analyzing it, building the indices and reading the compilation database are arguments.
\<close>

section \<open>Results that may fail\<close>

text \<open>\<open>AppResult\<close>: the code asks for the emptiness of the message, not for the value.\<close>

record 'v AppResult =
  res_value :: "'v option"
  res_error :: string

definition appSuccess :: "'v \<Rightarrow> 'v AppResult" where
  "appSuccess v = \<lparr>res_value = Some v, res_error = []\<rparr>"

definition appFailure :: "string \<Rightarrow> 'v AppResult" where
  "appFailure e = \<lparr>res_value = None, res_error = e\<rparr>"

definition isOk :: "'v AppResult \<Rightarrow> bool" where
  "isOk r = (res_error r = [])"

section \<open>Loading and analysis\<close>

text \<open>\<open>ModuleLoadResult\<close> with the parser's diagnostic: its line, its file and its printed text.\<close>

record 'm ModuleLoad =
  ml_module :: "'m option"
  ml_error :: string
  ml_frontendDiagnostics :: "Diagnostic list"
  ml_diagLine :: nat
  ml_diagFile :: string
  ml_diagText :: string

type_synonym entry = "string \<times> AnalysisResult"

definition resolveConfiguredJobs :: "u32 \<Rightarrow> FullConfig \<Rightarrow> u32" where
  "resolveConfiguredJobs hw cfg =
     (if \<not> cf_jobsAuto cfg then max 1 (cf_jobs cfg) else if hw = 0 then 1 else hw)"

definition stampResultFilePaths :: "AnalysisResult \<Rightarrow> string \<Rightarrow> AnalysisResult" where
  "stampResultFilePaths result inputFilename =
     result\<lparr>ar_functions := map (\<lambda>f. if fr_filePath f = [] then f\<lparr>fr_filePath := inputFilename\<rparr> else f)
              (ar_functions result),
            ar_diagnostics := map (\<lambda>d. if dg_filePath d = [] then d\<lparr>dg_filePath := inputFilename\<rparr> else d)
              (ar_diagnostics result)\<rparr>"

definition noFunctionMessage :: "AnalysisResult \<Rightarrow> string \<Rightarrow> bool \<Rightarrow> string" where
  "noFunctionMessage result inputFilename hasFilter =
     (if ar_functions result \<noteq> [] then []
      else if hasFilter then ''No functions matched filters for: '' @ inputFilename @ [CHR 0x0A]
      else ''[ !Info! ] No analyzable functions in: '' @ inputFilename @ '' (skipping)'' @ [CHR 0x0A])"

definition terminateLine :: "string \<Rightarrow> string" where
  "terminateLine message =
     (if message \<noteq> [] \<and> last message \<noteq> CHR 0x0A then message @ [CHR 0x0A] else message)"

text \<open>The message of a slot that was not loaded (shared and parallel loading).\<close>

definition slotLoadError :: "'m ModuleLoad \<Rightarrow> string" where
  "slotLoadError l =
     ml_error l @ (if ml_diagLine l \<noteq> 0 \<or> ml_diagFile l \<noteq> [] then ml_diagText l else [])"

definition slotFailure :: "string \<Rightarrow> string \<Rightarrow> string" where
  "slotFailure loadError inputFilename =
     (if loadError \<noteq> [] then terminateLine loadError else []) @ ''Failed to analyze: '' @ inputFilename"

text \<open>The message of the loop without threads.\<close>

definition directFailure :: "'m ModuleLoad \<Rightarrow> string \<Rightarrow> string" where
  "directFailure l inputFilename =
     terminateLine ((if ml_error l \<noteq> [] then terminateLine (ml_error l) else []) @ ml_diagText l)
       @ ''Failed to analyze: '' @ inputFilename"

text \<open>\<open>analyzeModule\<close> and what every path does with its result.\<close>

definition analyzeLoaded :: "('m \<Rightarrow> AnalysisResult) \<Rightarrow> 'm \<Rightarrow> Diagnostic list \<Rightarrow> string \<Rightarrow> AnalysisResult" where
  "analyzeLoaded analyze m frontend inputFilename =
     (let result = analyze m in
      stampResultFilePaths (result\<lparr>ar_diagnostics := ar_diagnostics result @ frontend\<rparr>) inputFilename)"

text \<open>The loaded modules in the order of the inputs, or the failure of the first that is missing.\<close>

fun orderedModules :: "(nat \<Rightarrow> 'm ModuleLoad option) \<Rightarrow> nat \<Rightarrow> string list \<Rightarrow> string + (string \<times> 'm \<times> Diagnostic list) list" where
  "orderedModules slots i [] = Inr []"
| "orderedModules slots i (f # fs) =
     (case slots i of
        None \<Rightarrow> Inl (slotFailure [] f)
      | Some l \<Rightarrow>
          (case ml_module l of
             None \<Rightarrow> Inl (slotFailure (slotLoadError l) f)
           | Some m \<Rightarrow>
               (case orderedModules slots (i + 1) fs of
                  Inl e \<Rightarrow> Inl e
                | Inr ms \<Rightarrow> Inr ((f, m, ml_frontendDiagnostics l) # ms))))"

text \<open>
  \<open>analyzeWithSharedModuleLoading\<close>: \<open>slots\<close> are the loads by index, \<open>analyze\<close> takes the cross-file
  indices that \<open>indices\<close> builds from all modules.
\<close>

definition analyzeWithSharedModuleLoading ::
    "('m list \<Rightarrow> 'x) \<Rightarrow> ('x \<Rightarrow> 'm \<Rightarrow> AnalysisResult) \<Rightarrow> (nat \<Rightarrow> 'm ModuleLoad option) \<Rightarrow> string list \<Rightarrow> entry list AppResult" where
  "analyzeWithSharedModuleLoading indices analyze slots files =
     (case orderedModules slots 0 files of
        Inl e \<Rightarrow> appFailure e
      | Inr ms \<Rightarrow>
          (let x = indices (map (fst \<circ> snd) ms) in
           appSuccess (map (\<lambda>(f, m, frontend). (f, analyzeLoaded (analyze x) m frontend f)) ms)))"

fun analyzeDirectSequential :: "(string \<Rightarrow> 'm ModuleLoad) \<Rightarrow> ('m \<Rightarrow> AnalysisResult) \<Rightarrow> string list \<Rightarrow> entry list \<Rightarrow> entry list AppResult" where
  "analyzeDirectSequential load analyze [] results = appSuccess results"
| "analyzeDirectSequential load analyze (f # fs) results =
     (let l = load f in
      case ml_module l of
        None \<Rightarrow> appFailure (directFailure l f)
      | Some m \<Rightarrow> analyzeDirectSequential load analyze fs
                    (results @ [(f, analyzeLoaded analyze m (ml_frontendDiagnostics l) f)]))"

text \<open>A slot of the parallel loop: the result or the load error.\<close>

definition analyzeSlot :: "(string \<Rightarrow> 'm ModuleLoad) \<Rightarrow> ('m \<Rightarrow> AnalysisResult) \<Rightarrow> string \<Rightarrow> string + AnalysisResult" where
  "analyzeSlot load analyze f =
     (let l = load f in
      case ml_module l of
        None \<Rightarrow> Inl (slotLoadError l)
      | Some m \<Rightarrow> Inr (analyzeLoaded analyze m (ml_frontendDiagnostics l) f))"

fun collectSlots :: "(nat \<Rightarrow> (string + AnalysisResult) option) \<Rightarrow> nat \<Rightarrow> string list \<Rightarrow> entry list \<Rightarrow> entry list AppResult" where
  "collectSlots slots i [] results = appSuccess results"
| "collectSlots slots i (f # fs) results =
     (case slots i of
        Some (Inr r) \<Rightarrow> collectSlots slots (i + 1) fs (results @ [(f, r)])
      | Some (Inl e) \<Rightarrow> appFailure (slotFailure e f)
      | None \<Rightarrow> appFailure (slotFailure [] f))"

text \<open>
  \<open>analyzeWithoutSharedModuleLoading\<close>: \<open>slots\<close> are the results of the parallel loop, which is
  taken with more than one job and more than one file.
\<close>

definition analyzeWithoutSharedModuleLoading ::
    "u32 \<Rightarrow> (string \<Rightarrow> 'm ModuleLoad) \<Rightarrow> ('m \<Rightarrow> AnalysisResult) \<Rightarrow> (nat \<Rightarrow> (string + AnalysisResult) option) \<Rightarrow> string list \<Rightarrow> entry list AppResult" where
  "analyzeWithoutSharedModuleLoading jobs load analyze slots files =
     (if jobs \<le> 1 \<or> length files \<le> 1 then analyzeDirectSequential load analyze files []
      else collectSlots slots 0 files [])"

section \<open>The plan\<close>

datatype LanguageType = LangUnknown | LangLLVM_IR | LangC | LangCXX

definition extractExtension :: "string \<Rightarrow> string" where
  "extractExtension path =
     (if CHR ''.'' \<in> set path then rev (takeWhile (\<lambda>c. c \<noteq> CHR ''.'') (rev path)) else [])"

definition detectFromExtension :: "string \<Rightarrow> LanguageType" where
  "detectFromExtension path =
     (let rawExt = extractExtension path; ext = map tolower rawExt in
      if rawExt = [] then LangUnknown
      else if rawExt = ''C'' then LangCXX
      else if ext \<in> {''ll'', ''bc''} then LangLLVM_IR
      else if ext = ''c'' then LangC
      else if ext \<in> {''cpp'', ''cc'', ''cxx'', ''c++'', ''cp''} then LangCXX
      else LangUnknown)"

text \<open>
  The file system as the plan asks it (the answer and the error, if any), and the compilation
  database: \<open>loadFromFile\<close> and the files a database lists.
\<close>

record 'db disk =
  dk_isDirectory :: "string \<Rightarrow> bool \<times> string option"
  dk_exists :: "string \<Rightarrow> bool \<times> string option"
  dk_loadDatabase :: "string \<Rightarrow> string + 'db"
  dk_sourceFiles :: "'db \<Rightarrow> string list"

definition loadCompilationDatabase :: "'db disk \<Rightarrow> string \<Rightarrow> 'db AppResult" where
  "loadCompilationDatabase disk path =
     (if path = [] then appFailure ''Compile commands path is empty''
      else let (dir, err) = dk_isDirectory disk path;
               compdb = (if dir then joinPath path ''compile_commands.json'' else path)
           in if \<not> dir \<and> err \<noteq> None
              then appFailure (''Failed to inspect compile commands path: '' @ the err)
              else let (found, err') = dk_exists disk compdb in
                   if \<not> found
                   then if err' \<noteq> None
                        then appFailure (''Failed to inspect compile commands path: '' @ the err')
                        else appFailure (''Compile commands file not found: '' @ compdb)
                   else case dk_loadDatabase disk compdb of
                          Inl e \<Rightarrow> appFailure (''Failed to load compile commands: '' @ e)
                        | Inr db \<Rightarrow> appSuccess db)"

definition isDiscovered :: "file_system \<Rightarrow> bool \<Rightarrow> string \<Rightarrow> bool" where
  "isDiscovered fs includeCompdbDeps file =
     (detectFromExtension file \<noteq> LangUnknown
        \<and> (includeCompdbDeps \<or> \<not> pathContainsSegment (normalizePath fs file) ''_deps''))"

text \<open>The inputs, and whether they were taken from the database.\<close>

definition discoverInputs :: "file_system \<Rightarrow> 'db disk \<Rightarrow> 'db option \<Rightarrow> bool \<Rightarrow> string list \<Rightarrow> string list \<times> bool" where
  "discoverInputs fs disk db includeCompdbDeps inputs =
     (case db of
        None \<Rightarrow> (inputs, False)
      | Some d \<Rightarrow>
          (if inputs \<noteq> [] then (inputs, False)
           else (filter (isDiscovered fs includeCompdbDeps) (dk_sourceFiles disk d), True)))"

definition excludeInputFiles :: "file_system \<Rightarrow> FullConfig \<Rightarrow> NormalizedPathFilters \<Rightarrow> string list \<Rightarrow> string list" where
  "excludeInputFiles fs cfg filters inputs =
     (if cf_excludeDirs cfg = [] \<or> inputs = [] then inputs
      else filter (\<lambda>f. \<not> shouldExcludePath fs filters f) inputs)"

definition configureDumpIRPath :: "'db disk \<Rightarrow> string list \<Rightarrow> FullConfig \<Rightarrow> FullConfig AppResult" where
  "configureDumpIRPath disk inputs cfg =
     (let path = cf_dumpIRPath cfg in
      if path = [] then appSuccess cfg
      else let trailingSlash = (last path = CHR ''/'' \<or> last path = CHR 0x5C);
               (found, err) = dk_exists disk path;
               (dir, err') = (if found then dk_isDirectory disk path else (False, None))
           in if err \<noteq> None then appFailure (''Failed to inspect dump IR path: '' @ the err)
              else if err' \<noteq> None then appFailure (''Failed to inspect dump IR path: '' @ the err')
              else if length inputs > 1 \<and> \<not> dir \<and> \<not> trailingSlash
              then appFailure ''--dump-ir must point to a directory when analyzing multiple inputs''
              else appSuccess (cfg\<lparr>cf_dumpIRIsDir := (dir \<or> trailingSlash \<or> length inputs > 1)\<rparr>))"

text \<open>\<open>std::sort\<close> of the file names.\<close>

fun insertName :: "string \<Rightarrow> string list \<Rightarrow> string list" where
  "insertName n [] = [n]"
| "insertName n (m # ms) = (if viewLess m n then m # insertName n ms else n # m # ms)"

definition sortNames :: "string list \<Rightarrow> string list" where
  "sortNames ns = foldr insertName ns []"

record 'db RunPlan =
  rp_cfg :: FullConfig
  rp_database :: "'db option"
  rp_inputFilenames :: "string list"
  rp_normalizedFilters :: NormalizedPathFilters
  rp_sarifBaseDir :: string
  rp_sarifOutPath :: string
  rp_outputFormat :: OutputFormat
  rp_hasFilter :: bool
  rp_needsCrossTUResourceSummaries :: bool
  rp_needsCrossTUUninitializedSummaries :: bool
  rp_needsCrossTUGlobalReadBeforeWriteSummaries :: bool
  rp_needsSharedModuleLoading :: bool

text \<open>The last part of \<open>RunPlanBuilder::build\<close>: the inputs are known.\<close>

definition finishPlan :: "ParsedArguments \<Rightarrow> FullConfig \<Rightarrow> 'db option \<Rightarrow> NormalizedPathFilters \<Rightarrow> string list \<Rightarrow> 'db RunPlan" where
  "finishPlan p cfg db filters inputs =
     (let many = (length inputs > 1);
          resource = (cf_resourceCrossTU cfg \<and> cf_resourceModelPath cfg \<noteq> [] \<and> many);
          uninit = (cf_uninitializedCrossTU cfg \<and> many) in
      \<lparr>rp_cfg = cfg, rp_database = db, rp_inputFilenames = sortNames inputs,
       rp_normalizedFilters = filters, rp_sarifBaseDir = pa_sarifBaseDir p,
       rp_sarifOutPath = pa_sarifOutPath p, rp_outputFormat = pa_outputFormat p,
       rp_hasFilter = (cf_onlyFiles cfg \<noteq> [] \<or> cf_onlyDirs cfg \<noteq> [] \<or> cf_onlyFunctions cfg \<noteq> []),
       rp_needsCrossTUResourceSummaries = resource,
       rp_needsCrossTUUninitializedSummaries = uninit,
       rp_needsCrossTUGlobalReadBeforeWriteSummaries = many,
       rp_needsSharedModuleLoading = (resource \<or> uninit \<or> many)\<rparr>)"

definition planInputs :: "file_system \<Rightarrow> 'db disk \<Rightarrow> ParsedArguments \<Rightarrow> FullConfig \<Rightarrow> 'db option \<Rightarrow> 'db RunPlan AppResult" where
  "planInputs fs disk p cfg db =
     (let (found, discovered) = discoverInputs fs disk db (pa_includeCompdbDeps p) (pa_inputFilenames p);
          filters = buildNormalizedPathFilters fs cfg;
          inputs = excludeInputFiles fs cfg filters found;
          cfg' = (if discovered \<and> \<not> pa_analysisProfileExplicit p \<and> length inputs > 1
                  then cfg\<lparr>cf_profile := Fast\<rparr> else cfg) in
      if inputs = []
      then appFailure (''Usage: stack_usage_analyzer <file.ll> [file2.ll ...] [options]'' @ [CHR 0x0A]
                         @ ''Try --help for more information.'' @ [CHR 0x0A])
      else let dump = configureDumpIRPath disk inputs cfg' in
           if \<not> isOk dump then appFailure (res_error dump)
           else case res_value dump of
                  None \<Rightarrow> appFailure []
                | Some cfg'' \<Rightarrow> appSuccess (finishPlan p cfg'' db filters inputs))"

definition buildRunPlan :: "file_system \<Rightarrow> 'db disk \<Rightarrow> ParsedArguments \<Rightarrow> 'db RunPlan AppResult" where
  "buildRunPlan fs disk p =
     (let cfg = pa_config p in
      if pa_compileCommandsExplicit p
      then let r = loadCompilationDatabase disk (pa_compileCommandsPath p) in
           if \<not> isOk r then appFailure (res_error r)
           else planInputs fs disk p (cfg\<lparr>cf_requireCompilationDatabase := True\<rparr>) (res_value r)
      else planInputs fs disk p cfg None)"

section \<open>The report\<close>

definition mergeAnalysisResults :: "entry list \<Rightarrow> FullConfig \<Rightarrow> AnalysisResult" where
  "mergeAnalysisResults results cfg =
     \<lparr>ar_config = cfg, ar_functions = concat (map (ar_functions \<circ> snd) results),
      ar_diagnostics = concat (map (ar_diagnostics \<circ> snd) results)\<rparr>"

text \<open>The result that \<open>emitJsonOutput\<close>, \<open>emitSarifOutput\<close> and \<open>writeSarifToFile\<close> print.\<close>

definition emittedResult :: "demangler \<Rightarrow> file_system \<Rightarrow> entry list \<Rightarrow> FullConfig \<Rightarrow> NormalizedPathFilters \<Rightarrow> AnalysisResult" where
  "emittedResult cxa fs results cfg filters =
     (let whole = (if length results = 1 then snd (results ! 0) else mergeAnalysisResults results cfg);
          filtered = (if noReportFilter cfg then filterResult cxa fs whole cfg filters else whole)
      in filterWarningsOnly filtered cfg)"

text \<open>The result of a file that \<open>emitHumanOutput\<close> prints.\<close>

definition humanResult :: "demangler \<Rightarrow> file_system \<Rightarrow> entry \<Rightarrow> FullConfig \<Rightarrow> NormalizedPathFilters \<Rightarrow> AnalysisResult" where
  "humanResult cxa fs e cfg filters =
     (let filtered = (if noReportFilter cfg then filterResult cxa fs (snd e) cfg filters else snd e);
          result = filterWarningsOnly filtered cfg
      in if cf_warningsOnly cfg then filterFunctionsWithDiagnostics result else result)"

definition printSummary :: "string \<Rightarrow> DiagnosticSummary \<Rightarrow> string" where
  "printSummary title s =
     title @ '' summary: info='' @ to_string (ds_info s) @ '', warning='' @ to_string (ds_warning s)
       @ '', error='' @ to_string (ds_error s)"

definition printStack :: "string \<Rightarrow> u64 \<Rightarrow> bool \<Rightarrow> string" where
  "printStack label bytes unknown =
     [CHR 0x09] @ label
       @ (if unknown
          then '': unknown'' @ (if bytes > 0 then '' (>= '' @ to_string (unat bytes) @ '' bytes)'' else [])
          else '': '' @ to_string (unat bytes) @ '' bytes'') @ [CHR 0x0A]"

definition printDiagnostic :: "Diagnostic \<Rightarrow> string" where
  "printDiagnostic d =
     (if dg_line d \<noteq> 0
      then [CHR 0x09] @ ''at line '' @ to_string (dg_line d) @ '', column '' @ to_string (dg_column d) @ [CHR 0x0A]
      else []) @ dg_message d @ [CHR 0x0A]"

definition printFunction :: "demangler \<Rightarrow> FullConfig \<Rightarrow> AnalysisResult \<Rightarrow> FunctionResult \<Rightarrow> string" where
  "printFunction cxa cfg result f =
     ''Function: ''
       @ (if cf_demangle cfg then demangle cxa (fr_name f)
          else fr_name f @ '' '' @ (if isMangled cxa (fr_name f) then demangle cxa (fr_name f) else []))
       @ [CHR 0x0A]
       @ printStack ''local stack'' (fr_localStack f) (fr_localStackUnknown f)
       @ printStack ''max stack (including callees)'' (fr_maxStack f) (fr_maxStackUnknown f)
       @ (if cf_quiet (ar_config result) then []
          else concat (map printDiagnostic (filter (\<lambda>d. dg_funcName d = fr_name f) (ar_diagnostics result))))
       @ [CHR 0x0A]"

definition printFile :: "demangler \<Rightarrow> FullConfig \<Rightarrow> AnalysisResult \<Rightarrow> string" where
  "printFile cxa cfg result =
     ''Mode: '' @ (if cf_mode (ar_config result) = IR then ''IR'' else ''ABI'') @ [CHR 0x0A, CHR 0x0A]
       @ concat (map (printFunction cxa cfg result) (ar_functions result))
       @ printSummary ''Diagnostics'' (summarizeDiagnostics (ar_diagnostics result)) @ [CHR 0x0A]"

definition emitHumanOutput :: "demangler \<Rightarrow> file_system \<Rightarrow> entry list \<Rightarrow> FullConfig \<Rightarrow> NormalizedPathFilters \<Rightarrow> string" where
  "emitHumanOutput cxa fs results cfg filters =
     (let multiFile = (length results > 1);
          shown = map (\<lambda>e. (fst e, humanResult cxa fs e cfg filters)) results;
          sums = fold (\<lambda>(f, r) t. accumulateSummary t (summarizeDiagnostics (ar_diagnostics r))) shown
                    \<lparr>ds_info = 0, ds_warning = 0, ds_error = 0\<rparr> in
      concat (map (\<lambda>(i, f, r).
          (if multiFile then (if i > 0 then [CHR 0x0A] else []) @ ''File: '' @ f @ [CHR 0x0A] else [])
            @ printFile cxa cfg r) (zip [0..<length shown] shown))
        @ (if multiFile
           then [CHR 0x0A] @ printSummary ''Total diagnostics'' sums @ '' (across '' @ to_string (length results)
                  @ '' files)'' @ [CHR 0x0A]
           else []))"

text \<open>\<open>emitJsonOutput\<close>, \<open>emitSarifOutput\<close>; \<open>writeSarifToFile\<close> writes the text of the latter.\<close>

definition emitJsonOutput :: "demangler \<Rightarrow> file_system \<Rightarrow> entry list \<Rightarrow> FullConfig \<Rightarrow> string list \<Rightarrow> NormalizedPathFilters \<Rightarrow> string" where
  "emitJsonOutput cxa fs results cfg inputs filters =
     (let filtered = emittedResult cxa fs results cfg filters in
      if length results = 1 then toJsonImpl filtered (Some (fst (results ! 0))) None
      else toJsonImpl filtered None (Some inputs))"

definition emitSarifOutput :: "demangler \<Rightarrow> file_system \<Rightarrow> (string \<Rightarrow> string option) \<Rightarrow> entry list \<Rightarrow> FullConfig \<Rightarrow> string list \<Rightarrow> string \<Rightarrow> NormalizedPathFilters \<Rightarrow> string" where
  "emitSarifOutput cxa fs canonical results cfg inputs baseDir filters =
     toSarif canonical (emittedResult cxa fs results cfg filters)
       (if length results = 1 then fst (results ! 0) else hd inputs)
       ''coretrace-stack-analyzer'' ''0.1.0'' baseDir"

section \<open>The run\<close>

text \<open>
  What a run takes from outside: the file system, the compilation database, the C++ runtime, the
  loading and the analysis of modules, the cross-file indices (none for direct loading) and the
  writing of a file.
\<close>

record ('m, 'x, 'db) world =
  wd_cxa :: demangler
  wd_fs :: file_system
  wd_disk :: "'db disk"
  wd_canonical :: "string \<Rightarrow> string option"
  wd_hardwareConcurrency :: u32
  wd_load :: "'db RunPlan \<Rightarrow> string \<Rightarrow> 'm ModuleLoad"
  wd_indices :: "'db RunPlan \<Rightarrow> 'm list \<Rightarrow> 'x"
  wd_noIndices :: 'x
  wd_analyze :: "'db RunPlan \<Rightarrow> 'x \<Rightarrow> 'm \<Rightarrow> AnalysisResult"
  wd_writeFile :: "string \<Rightarrow> string \<Rightarrow> bool"

text \<open>What is seen of a run: the result, the standard output and the SARIF file it tried to write.\<close>

record RunOutcome =
  ro_result :: "nat AppResult"
  ro_stdout :: string
  ro_sarif :: "(string \<times> string) option"

text \<open>
  The execution strategies with the slots of the parallel work given; the loop for one job fills
  them as \<open>runParallelWork\<close> with one worker does.
\<close>

definition executeShared :: "('m, 'x, 'db) world \<Rightarrow> 'db RunPlan \<Rightarrow> (nat \<Rightarrow> 'm ModuleLoad option) \<Rightarrow> entry list AppResult" where
  "executeShared w plan slots =
     analyzeWithSharedModuleLoading (wd_indices w plan) (wd_analyze w plan) slots (rp_inputFilenames plan)"

definition executeDirect :: "('m, 'x, 'db) world \<Rightarrow> 'db RunPlan \<Rightarrow> (nat \<Rightarrow> (string + AnalysisResult) option) \<Rightarrow> entry list AppResult" where
  "executeDirect w plan slots =
     analyzeWithoutSharedModuleLoading (resolveConfiguredJobs (wd_hardwareConcurrency w) (rp_cfg plan))
       (wd_load w plan) (wd_analyze w plan (wd_noIndices w)) slots (rp_inputFilenames plan)"

definition loadItem :: "('m, 'x, 'db) world \<Rightarrow> 'db RunPlan \<Rightarrow> nat \<Rightarrow> 'm ModuleLoad" where
  "loadItem w plan i = wd_load w plan (rp_inputFilenames plan ! i)"

definition analyzeItem :: "('m, 'x, 'db) world \<Rightarrow> 'db RunPlan \<Rightarrow> nat \<Rightarrow> string + AnalysisResult" where
  "analyzeItem w plan i =
     analyzeSlot (wd_load w plan) (wd_analyze w plan (wd_noIndices w)) (rp_inputFilenames plan ! i)"

text \<open>The outcomes over all interleavings of the workers, and the one of the sequential loops.\<close>

definition executePlan :: "('m, 'x, 'db) world \<Rightarrow> 'db RunPlan \<Rightarrow> entry list AppResult set" where
  "executePlan w plan =
     (let n = length (rp_inputFilenames plan);
          jobs = resolveConfiguredJobs (wd_hardwareConcurrency w) (rp_cfg plan) in
      if rp_needsSharedModuleLoading plan
      then executeShared w plan ` runParallelWork n jobs (loadItem w plan)
      else executeDirect w plan ` runParallelWork n jobs (analyzeItem w plan))"

definition executeSequentially :: "('m, 'x, 'db) world \<Rightarrow> 'db RunPlan \<Rightarrow> entry list AppResult" where
  "executeSequentially w plan =
     (let n = length (rp_inputFilenames plan) in
      if rp_needsSharedModuleLoading plan
      then executeShared w plan (sequentialResults n (loadItem w plan))
      else executeDirect w plan (sequentialResults n (analyzeItem w plan)))"

definition emitOutput :: "('m, 'x, 'db) world \<Rightarrow> 'db RunPlan \<Rightarrow> entry list \<Rightarrow> string" where
  "emitOutput w plan results =
     (case rp_outputFormat plan of
        Json \<Rightarrow> emitJsonOutput (wd_cxa w) (wd_fs w) results (rp_cfg plan) (rp_inputFilenames plan)
                  (rp_normalizedFilters plan)
      | Sarif \<Rightarrow> emitSarifOutput (wd_cxa w) (wd_fs w) (wd_canonical w) results (rp_cfg plan)
                  (rp_inputFilenames plan) (rp_sarifBaseDir plan) (rp_normalizedFilters plan)
      | Human \<Rightarrow> emitHumanOutput (wd_cxa w) (wd_fs w) results (rp_cfg plan) (rp_normalizedFilters plan))"

text \<open>The end of \<open>AnalyzerApp::run\<close>, from the result of the execution strategy.\<close>

definition finishRun :: "('m, 'x, 'db) world \<Rightarrow> 'db RunPlan \<Rightarrow> entry list AppResult \<Rightarrow> RunOutcome" where
  "finishRun w plan r =
     (if \<not> isOk r then \<lparr>ro_result = appFailure (res_error r), ro_stdout = [], ro_sarif = None\<rparr>
      else let results = the (res_value r); out = emitOutput w plan results;
               sarif = emitSarifOutput (wd_cxa w) (wd_fs w) (wd_canonical w) results (rp_cfg plan)
                  (rp_inputFilenames plan) (rp_sarifBaseDir plan) (rp_normalizedFilters plan);
               path = rp_sarifOutPath plan
           in if path = [] then \<lparr>ro_result = appSuccess 0, ro_stdout = out, ro_sarif = None\<rparr>
              else let written = wd_writeFile w path sarif in
                   if \<not> written
                   then \<lparr>ro_result = appFailure (''Failed to write SARIF output to: '' @ path),
                         ro_stdout = out, ro_sarif = Some (path, sarif)\<rparr>
                   else \<lparr>ro_result = appSuccess 0, ro_stdout = out, ro_sarif = Some (path, sarif)\<rparr>)"

definition runApp :: "('m, 'x, 'db) world \<Rightarrow> ParsedArguments \<Rightarrow> RunOutcome set" where
  "runApp w p =
     (let r = buildRunPlan (wd_fs w) (wd_disk w) p in
      if \<not> isOk r then {\<lparr>ro_result = appFailure (res_error r), ro_stdout = [], ro_sarif = None\<rparr>}
      else let plan = the (res_value r) in finishRun w plan ` executePlan w plan)"

section \<open>The order of the results\<close>

lemma terminateLine_append: "x \<noteq> [] \<Longrightarrow> terminateLine (y @ x) \<noteq> []"
  by (simp add: terminateLine_def)

lemma appSuccess_isOk [simp]: "isOk (appSuccess v)" "res_value (appSuccess v) = Some v"
  by (simp_all add: isOk_def appSuccess_def)

lemma appFailure_isOk [simp]: "isOk (appFailure e) \<longleftrightarrow> e = []" "res_value (appFailure e) = None"
    "res_error (appFailure e) = e"
  by (simp_all add: isOk_def appFailure_def)

lemma failure_messages [simp]: "slotFailure e f \<noteq> []" "directFailure l f \<noteq> []"
  by (simp_all add: slotFailure_def directFailure_def)

text \<open>What an execution strategy gives when the file \<open>f\<close> is loaded as \<open>load f\<close>.\<close>

definition loadedModules :: "(string \<Rightarrow> 'm ModuleLoad) \<Rightarrow> string list \<Rightarrow> 'm list" where
  "loadedModules load files = map (\<lambda>f. the (ml_module (load f))) files"

definition entriesInOrder :: "(string \<Rightarrow> 'm ModuleLoad) \<Rightarrow> ('m \<Rightarrow> AnalysisResult) \<Rightarrow> string list \<Rightarrow> entry list" where
  "entriesInOrder load analyze files =
     map (\<lambda>f. (f, analyzeLoaded analyze (the (ml_module (load f))) (ml_frontendDiagnostics (load f)) f)) files"

definition firstNotLoaded :: "(string \<Rightarrow> 'm ModuleLoad) \<Rightarrow> string list \<Rightarrow> string option" where
  "firstNotLoaded load files = find (\<lambda>f. ml_module (load f) = None) files"

lemma firstNotLoaded_simps [simp]:
  "firstNotLoaded load [] = None"
  "firstNotLoaded load (f # fs) = (if ml_module (load f) = None then Some f else firstNotLoaded load fs)"
  by (simp_all add: firstNotLoaded_def)

lemma ordered_modules:
  assumes "\<And>k. k < length fs \<Longrightarrow> slots (i + k) = Some (load (fs ! k))"
  shows "orderedModules slots i fs =
     (case firstNotLoaded load fs of
        Some f \<Rightarrow> Inl (slotFailure (slotLoadError (load f)) f)
      | None \<Rightarrow> Inr (map (\<lambda>f. (f, the (ml_module (load f)), ml_frontendDiagnostics (load f))) fs))"
  using assms
proof (induction fs arbitrary: i)
  case (Cons f fs)
  have "slots (i + 1 + k) = Some (load (fs ! k))" if "k < length fs" for k
    using Cons.prems [of "Suc k"] that by simp
  from Cons.IH [OF this] Cons.prems [of 0] show ?case by (auto split: option.splits)
qed simp

lemma shared_loading:
  assumes "\<And>k. k < length fs \<Longrightarrow> slots k = Some (load (fs ! k))"
  shows "analyzeWithSharedModuleLoading indices analyze slots fs =
     (case firstNotLoaded load fs of
        Some f \<Rightarrow> appFailure (slotFailure (slotLoadError (load f)) f)
      | None \<Rightarrow> appSuccess (entriesInOrder load (analyze (indices (loadedModules load fs))) fs))"
  using ordered_modules [of fs slots 0 load] assms
  by (simp add: analyzeWithSharedModuleLoading_def entriesInOrder_def loadedModules_def Let_def comp_def
      split: option.splits)

lemma collect_slots:
  assumes "\<And>k. k < length fs \<Longrightarrow> slots (i + k) = Some (analyzeSlot load analyze (fs ! k))"
  shows "collectSlots slots i fs acc =
     (case firstNotLoaded load fs of
        Some f \<Rightarrow> appFailure (slotFailure (slotLoadError (load f)) f)
      | None \<Rightarrow> appSuccess (acc @ entriesInOrder load analyze fs))"
  using assms
proof (induction fs arbitrary: i acc)
  case (Cons f fs)
  have "slots (i + 1 + k) = Some (analyzeSlot load analyze (fs ! k))" if "k < length fs" for k
    using Cons.prems [of "Suc k"] that by simp
  from Cons.IH [OF this] Cons.prems [of 0] show ?case
    by (auto simp: analyzeSlot_def entriesInOrder_def Let_def split: option.splits)
qed (simp add: entriesInOrder_def)

lemma direct_loop:
  "analyzeDirectSequential load analyze fs acc =
     (case firstNotLoaded load fs of
        Some f \<Rightarrow> appFailure (directFailure (load f) f)
      | None \<Rightarrow> appSuccess (acc @ entriesInOrder load analyze fs))"
  by (induction fs arbitrary: acc) (auto simp: entriesInOrder_def Let_def split: option.splits)

lemma sequential_slot [simp]: "k < n \<Longrightarrow> sequentialResults n f k = Some (f k)"
  by (simp add: sequential_results)

lemma shared_loading_of_workers:
  assumes "slots \<in> runParallelWork (length files) jobs (\<lambda>i. load (files ! i))"
  shows "analyzeWithSharedModuleLoading indices analyze slots files =
     (case firstNotLoaded load files of
        Some f \<Rightarrow> appFailure (slotFailure (slotLoadError (load f)) f)
      | None \<Rightarrow> appSuccess (entriesInOrder load (analyze (indices (loadedModules load files))) files))"
  using assms by (intro shared_loading) (simp add: parallel_results)

lemma direct_loading_of_workers:
  assumes "slots \<in> runParallelWork (length files) jobs (\<lambda>i. analyzeSlot load analyze (files ! i))"
  shows "analyzeWithoutSharedModuleLoading jobs load analyze slots files =
     (case firstNotLoaded load files of
        Some f \<Rightarrow> appFailure (if jobs \<le> 1 \<or> length files \<le> 1 then directFailure (load f) f
                    else slotFailure (slotLoadError (load f)) f)
      | None \<Rightarrow> appSuccess (entriesInOrder load analyze files))"
  using assms collect_slots [of files slots 0 load analyze "[]"]
  by (auto simp: analyzeWithoutSharedModuleLoading_def parallel_results direct_loop split: option.splits)

section \<open>The plan and the run\<close>

text \<open>Values and messages agree: a success has a value and a failure a message.\<close>

definition wellFormedResult :: "'v AppResult \<Rightarrow> bool" where
  "wellFormedResult r = (isOk r = (res_value r \<noteq> None))"

lemma wellFormedResult_simps [simp]:
  "wellFormedResult (appSuccess v)" "wellFormedResult (appFailure e) \<longleftrightarrow> e \<noteq> []"
  by (simp_all add: wellFormedResult_def)

lemma wellFormedResult_then:
  "wellFormedResult r \<Longrightarrow>
     wellFormedResult (if \<not> isOk r then appFailure (res_error r)
       else case res_value r of None \<Rightarrow> appFailure [] | Some v \<Rightarrow> appSuccess (f v))"
  by (auto simp: wellFormedResult_def isOk_def appFailure_def appSuccess_def)

lemma wellFormedResult_if:
  "e \<noteq> [] \<Longrightarrow> wellFormedResult r \<Longrightarrow> wellFormedResult (if c then appFailure e else r)"
  by simp

lemma database_result: "wellFormedResult (loadCompilationDatabase disk path)"
  by (simp add: loadCompilationDatabase_def Let_def split: prod.splits sum.splits)

lemma dump_result: "wellFormedResult (configureDumpIRPath disk inputs cfg)"
  by (simp add: configureDumpIRPath_def Let_def split: prod.splits)

lemma plan_result: "wellFormedResult (buildRunPlan fs disk p)"
proof -
  have "wellFormedResult (planInputs fs disk p cfg db)" for cfg db
  proof (cases "discoverInputs fs disk db (pa_includeCompdbDeps p) (pa_inputFilenames p)")
    case (Pair found discovered)
    show ?thesis unfolding planInputs_def Let_def Pair prod.case
      by (rule wellFormedResult_if, simp, rule wellFormedResult_then, rule dump_result)
  qed
  moreover have "wellFormedResult (appFailure (res_error r) :: 'a RunPlan AppResult)"
    if "\<not> isOk r" for r :: "'a AppResult"
    using that by (simp add: isOk_def)
  ultimately show ?thesis by (simp add: buildRunPlan_def Let_def)
qed

lemma execution_outcomes: "executePlan w plan = {executeSequentially w plan}"
  by (simp add: executePlan_def executeSequentially_def Let_def parallel_results)

section \<open>The inputs of a run\<close>

lemma insertName_mset: "mset (insertName n ns) = add_mset n (mset ns)"
  by (induction ns) auto

lemma insertName_set [simp]: "set (insertName n ns) = insert n (set ns)"
  by (induction ns) auto

definition namesSorted :: "string list \<Rightarrow> bool" where
  "namesSorted ns = sorted_wrt (\<lambda>a b. \<not> viewLess b a) ns"

lemma insertName_sorted: "namesSorted ns \<Longrightarrow> namesSorted (insertName n ns)"
proof (induction ns)
  case (Cons m ms)
  show ?case
  proof (cases "viewLess m n")
    case True
    then show ?thesis using Cons viewLess_asym by (auto simp: namesSorted_def)
  next
    case False
    have "\<not> viewLess x n" if "x \<in> set ms" for x
      using viewLess_between [of x n m] Cons.prems that False by (auto simp: namesSorted_def)
    then show ?thesis using Cons.prems False by (simp add: namesSorted_def)
  qed
qed (simp add: namesSorted_def)

lemma sortNames_facts: "namesSorted (sortNames ns)" "mset (sortNames ns) = mset ns" "length (sortNames ns) = length ns"
proof -
  have "mset (sortNames ns) = mset ns" by (induction ns) (simp_all add: sortNames_def insertName_mset)
  then show "mset (sortNames ns) = mset ns" "length (sortNames ns) = length ns" by (auto dest: mset_eq_length)
  show "namesSorted (sortNames ns)"
    by (induction ns) (simp_all add: sortNames_def insertName_sorted, simp add: namesSorted_def)
qed

text \<open>The inputs of the command line or the database, less the excluded ones.\<close>

definition requestedInputs :: "file_system \<Rightarrow> 'db disk \<Rightarrow> ParsedArguments \<Rightarrow> 'db option \<Rightarrow> string list" where
  "requestedInputs fs disk p db =
     (let cfg = pa_config p in
      filter (\<lambda>f. cf_excludeDirs cfg = [] \<or> \<not> shouldExcludePath fs (buildNormalizedPathFilters fs cfg) f)
        (if pa_inputFilenames p \<noteq> [] then pa_inputFilenames p
         else case db of None \<Rightarrow> []
              | Some d \<Rightarrow> filter (isDiscovered fs (pa_includeCompdbDeps p)) (dk_sourceFiles disk d)))"

lemma excluded_inputs:
  "excludeInputFiles fs cfg filters inputs =
     filter (\<lambda>f. cf_excludeDirs cfg = [] \<or> \<not> shouldExcludePath fs filters f) inputs"
  by (cases "cf_excludeDirs cfg = []") (simp_all add: excludeInputFiles_def)

lemma normalized_filters_of_dirs:
  "buildNormalizedPathFilters fs (cfg\<lparr>cf_requireCompilationDatabase := b\<rparr>) = buildNormalizedPathFilters fs cfg"
  by (simp add: buildNormalizedPathFilters_def)

lemma finished_plan:
  "rp_inputFilenames (finishPlan p cfg db filters inputs) = sortNames inputs"
  "rp_needsSharedModuleLoading (finishPlan p cfg db filters inputs) = (1 < length inputs)"
  "rp_database (finishPlan p cfg db filters inputs) = db"
  by (auto simp: finishPlan_def Let_def)

lemma plan_of_inputs:
  assumes "res_value (planInputs fs disk p cfg db) = Some plan"
    "cfg = pa_config p \<or> cfg = (pa_config p)\<lparr>cf_requireCompilationDatabase := True\<rparr>"
  shows "rp_inputFilenames plan = sortNames (requestedInputs fs disk p db) \<and> requestedInputs fs disk p db \<noteq> []
     \<and> rp_needsSharedModuleLoading plan = (1 < length (requestedInputs fs disk p db)) \<and> rp_database plan = db"
proof -
  obtain found discovered where d: "discoverInputs fs disk db (pa_includeCompdbDeps p) (pa_inputFilenames p) = (found, discovered)"
    by force
  have r: "requestedInputs fs disk p db = excludeInputFiles fs cfg (buildNormalizedPathFilters fs cfg) found"
    using d assms(2) unfolding excluded_inputs
    by (auto simp: requestedInputs_def discoverInputs_def normalized_filters_of_dirs Let_def split: option.splits if_splits)
  show ?thesis using assms(1) unfolding planInputs_def Let_def d prod.case r [symmetric]
    by (auto simp: finished_plan split: if_splits option.splits)
qed

lemma planned_inputs:
  assumes "res_value (buildRunPlan fs disk p) = Some plan"
  shows "rp_inputFilenames plan = sortNames (requestedInputs fs disk p (rp_database plan))
     \<and> rp_inputFilenames plan \<noteq> []
     \<and> rp_needsSharedModuleLoading plan = (1 < length (rp_inputFilenames plan))"
proof -
  have "\<exists>cfg db. res_value (planInputs fs disk p cfg db) = Some plan
      \<and> (cfg = pa_config p \<or> cfg = (pa_config p)\<lparr>cf_requireCompilationDatabase := True\<rparr>)"
    using assms by (auto simp: buildRunPlan_def Let_def split: if_splits)
  then obtain cfg db where
    "rp_inputFilenames plan = sortNames (requestedInputs fs disk p db) \<and> requestedInputs fs disk p db \<noteq> []
     \<and> rp_needsSharedModuleLoading plan = (1 < length (requestedInputs fs disk p db)) \<and> rp_database plan = db"
    using plan_of_inputs by blast
  then show ?thesis using sortNames_facts(3) [of "requestedInputs fs disk p (rp_database plan)"]
    by (metis length_0_conv)
qed

section \<open>The report of a run\<close>

lemma emitted_result:
  "emittedResult cxa fs results cfg filters =
     filterWarningsOnly (if length results = 1 then snd (results ! 0) else mergeAnalysisResults results cfg) cfg"
  by (simp add: emittedResult_def filterResult_def Let_def)

lemma human_result:
  "humanResult cxa fs e cfg filters =
     (let result = filterWarningsOnly (snd e) cfg
      in if cf_warningsOnly cfg then filterFunctionsWithDiagnostics result else result)"
  by (simp add: humanResult_def filterResult_def Let_def)

section \<open>The outcome of a run\<close>

text \<open>
  What a run should do, from its plan: all inputs are loaded, analyzed with the indices of all
  modules when there are several, and printed in their order.
\<close>

definition analyzedEntries :: "('m, 'x, 'db) world \<Rightarrow> 'db RunPlan \<Rightarrow> entry list" where
  "analyzedEntries w plan =
     (let files = rp_inputFilenames plan; load = wd_load w plan in
      entriesInOrder load
        (wd_analyze w plan (if 1 < length files then wd_indices w plan (loadedModules load files) else wd_noIndices w))
        files)"

definition notLoadedMessage :: "('m, 'x, 'db) world \<Rightarrow> 'db RunPlan \<Rightarrow> string \<Rightarrow> string" where
  "notLoadedMessage w plan f =
     (let l = wd_load w plan f in
      if 1 < length (rp_inputFilenames plan) then slotFailure (slotLoadError l) f else directFailure l f)"

definition sarifText :: "('m, 'x, 'db) world \<Rightarrow> 'db RunPlan \<Rightarrow> string" where
  "sarifText w plan =
     emitSarifOutput (wd_cxa w) (wd_fs w) (wd_canonical w) (analyzedEntries w plan) (rp_cfg plan)
       (rp_inputFilenames plan) (rp_sarifBaseDir plan) (rp_normalizedFilters plan)"

definition sarifIsWritten :: "('m, 'x, 'db) world \<Rightarrow> 'db RunPlan \<Rightarrow> bool" where
  "sarifIsWritten w plan = (rp_sarifOutPath plan = [] \<or> wd_writeFile w (rp_sarifOutPath plan) (sarifText w plan))"

definition specifiedRun :: "('m, 'x, 'db) world \<Rightarrow> ParsedArguments \<Rightarrow> RunOutcome" where
  "specifiedRun w p =
     (case res_value (buildRunPlan (wd_fs w) (wd_disk w) p) of
        None \<Rightarrow> \<lparr>ro_result = appFailure (res_error (buildRunPlan (wd_fs w) (wd_disk w) p)), ro_stdout = [], ro_sarif = None\<rparr>
      | Some plan \<Rightarrow>
          (case firstNotLoaded (wd_load w plan) (rp_inputFilenames plan) of
             Some f \<Rightarrow> \<lparr>ro_result = appFailure (notLoadedMessage w plan f), ro_stdout = [], ro_sarif = None\<rparr>
           | None \<Rightarrow>
               \<lparr>ro_result = (if sarifIsWritten w plan then appSuccess 0
                  else appFailure (''Failed to write SARIF output to: '' @ rp_sarifOutPath plan)),
                ro_stdout = emitOutput w plan (analyzedEntries w plan),
                ro_sarif = (if rp_sarifOutPath plan = [] then None
                  else Some (rp_sarifOutPath plan, sarifText w plan))\<rparr>))"

lemma executed_plan:
  assumes "rp_needsSharedModuleLoading plan = (1 < length (rp_inputFilenames plan))"
  shows "executeSequentially w plan =
     (case firstNotLoaded (wd_load w plan) (rp_inputFilenames plan) of
        Some f \<Rightarrow> appFailure (notLoadedMessage w plan f)
      | None \<Rightarrow> appSuccess (analyzedEntries w plan))"
proof -
  let ?files = "rp_inputFilenames plan"
  have "executeShared w plan (sequentialResults (length ?files) (loadItem w plan)) =
     (case firstNotLoaded (wd_load w plan) ?files of
        Some f \<Rightarrow> appFailure (slotFailure (slotLoadError (wd_load w plan f)) f)
      | None \<Rightarrow> appSuccess (entriesInOrder (wd_load w plan)
          (wd_analyze w plan (wd_indices w plan (loadedModules (wd_load w plan) ?files))) ?files))"
    unfolding executeShared_def by (rule shared_loading) (simp add: loadItem_def)
  moreover have "executeDirect w plan slots =
     (case firstNotLoaded (wd_load w plan) ?files of
        Some f \<Rightarrow> appFailure (directFailure (wd_load w plan f) f)
      | None \<Rightarrow> appSuccess (entriesInOrder (wd_load w plan) (wd_analyze w plan (wd_noIndices w)) ?files))"
    if "\<not> 1 < length ?files" for slots
    using that by (simp add: executeDirect_def analyzeWithoutSharedModuleLoading_def direct_loop split: option.split)
  ultimately show ?thesis
    by (simp add: executeSequentially_def assms analyzedEntries_def notLoadedMessage_def Let_def split: option.split)
qed

lemma finished_run:
  "finishRun w plan (appFailure e) = \<lparr>ro_result = appFailure e, ro_stdout = [], ro_sarif = None\<rparr>" if "e \<noteq> []"
  using that by (simp add: finishRun_def)

lemma finished_successful_run:
  "finishRun w plan (appSuccess (analyzedEntries w plan)) =
     \<lparr>ro_result = (if sarifIsWritten w plan then appSuccess 0
        else appFailure (''Failed to write SARIF output to: '' @ rp_sarifOutPath plan)),
      ro_stdout = emitOutput w plan (analyzedEntries w plan),
      ro_sarif = (if rp_sarifOutPath plan = [] then None else Some (rp_sarifOutPath plan, sarifText w plan))\<rparr>"
  by (simp add: finishRun_def Let_def sarifIsWritten_def sarifText_def)

lemma run_outcomes: "runApp w p = {specifiedRun w p}"
proof (cases "res_value (buildRunPlan (wd_fs w) (wd_disk w) p)")
  case None
  then have "\<not> isOk (buildRunPlan (wd_fs w) (wd_disk w) p)"
    using plan_result [of "wd_fs w" "wd_disk w" p] by (simp add: wellFormedResult_def)
  then show ?thesis using None by (simp add: runApp_def specifiedRun_def Let_def)
next
  case (Some plan)
  have "isOk (buildRunPlan (wd_fs w) (wd_disk w) p)"
    using plan_result [of "wd_fs w" "wd_disk w" p] Some by (simp add: wellFormedResult_def)
  then have run: "runApp w p = {finishRun w plan (executeSequentially w plan)}"
    using Some by (simp add: runApp_def Let_def execution_outcomes)
  have "notLoadedMessage w plan f \<noteq> []" for f by (simp add: notLoadedMessage_def Let_def)
  with executed_plan [of plan w] planned_inputs [OF Some] Some show ?thesis unfolding run
    by (cases "firstNotLoaded (wd_load w plan) (rp_inputFilenames plan)")
      (simp_all add: specifiedRun_def finished_run finished_successful_run)
qed

section \<open>What the program promises\<close>

text \<open>
  C35: A run has one outcome, whatever the interleaving of the worker threads that load its inputs,
  and it is the specified one: without a plan, the error of the plan; when an input does not load,
  the message for the first such input and no output; otherwise the report of all inputs, in their
  order, on the standard output and in the SARIF file that was asked for, and success exactly when
  that file could be written. Loading, analyzing and the cross-file indices are arguments.
\<close>
theorem run_outcome_is_specified: "runApp w p = {specifiedRun w p}"
  by (rule run_outcomes)

text \<open>
  C36: A run gives the exit code 0 exactly when its plan can be made, every input of the plan loads
  and, if a SARIF file was asked for, writing the report to that file succeeds; no other condition
  makes it fail.
\<close>
theorem run_succeeds_iff_every_input_loads:
  "(\<lambda>outcome. res_value (ro_result outcome)) ` runApp w p =
     {case res_value (buildRunPlan (wd_fs w) (wd_disk w) p) of
        None \<Rightarrow> None
      | Some plan \<Rightarrow>
          (if firstNotLoaded (wd_load w plan) (rp_inputFilenames plan) = None
              \<and> (rp_sarifOutPath plan = [] \<or> wd_writeFile w (rp_sarifOutPath plan) (sarifText w plan))
           then Some 0 else None)}"
  unfolding run_outcomes
  by (simp add: specifiedRun_def sarifIsWritten_def split: option.split)

text \<open>
  C37: A plan has inputs: those of the command line, or else those that the compilation database
  lists and the analyzer can read, less the excluded ones, in the order of their names.  The modules
  are loaded together exactly when there is more than one, so the threads of direct loading are
  never used.
\<close>
theorem planned_inputs_are_the_requested_ones:
  assumes "res_value (buildRunPlan fs disk p) = Some plan"
  shows "rp_inputFilenames plan = sortNames (requestedInputs fs disk p (rp_database plan))
     \<and> rp_inputFilenames plan \<noteq> []
     \<and> rp_needsSharedModuleLoading plan = (1 < length (rp_inputFilenames plan))"
  using assms by (rule planned_inputs)

definition sampleDisk :: "unit disk" where
  "sampleDisk = \<lparr>dk_isDirectory = (\<lambda>_. (False, None)), dk_exists = (\<lambda>_. (True, None)),
     dk_loadDatabase = (\<lambda>_. Inr ()), dk_sourceFiles = (\<lambda>_. [''b.c'', ''notes.md'', ''a.cpp''])\<rparr>"

definition sampleFiles :: file_system where
  "sampleFiles = \<lparr>fs_absolute = Some, fs_weaklyCanonical = Some\<rparr>"

definition sampleArguments :: ParsedArguments where
  "sampleArguments = defaultParsed\<lparr>pa_compileCommandsExplicit := True,
     pa_compileCommandsPath := ''db.json'', pa_includeCompdbDeps := True\<rparr>"

lemma planned_inputs_are_the_requested_ones_witness:
  "\<exists>plan. rp_inputFilenames (plan :: unit RunPlan) = [''a.cpp'', ''b.c''] \<and> rp_needsSharedModuleLoading plan"
proof -
  have "detectFromExtension ''b.c'' = LangC" "detectFromExtension ''a.cpp'' = LangCXX"
    "detectFromExtension ''notes.md'' = LangUnknown"
    by (simp_all add: detectFromExtension_def extractExtension_def Let_def tolower_def isupper_def)
  note lang = this
  then have req: "sortNames (requestedInputs sampleFiles sampleDisk sampleArguments (Some ())) = [''a.cpp'', ''b.c'']"
    by (simp add: requestedInputs_def sampleArguments_def sampleDisk_def defaultParsed_def defaultConfig_def
        isDiscovered_def sortNames_def)
  obtain plan where plan: "res_value (buildRunPlan sampleFiles sampleDisk sampleArguments) = Some plan" "rp_database plan = Some ()"
  proof -
    have "\<exists>plan. res_value (buildRunPlan sampleFiles sampleDisk sampleArguments) = Some plan
        \<and> rp_database plan = Some ()"
      by (simp add: lang buildRunPlan_def loadCompilationDatabase_def planInputs_def discoverInputs_def
          excludeInputFiles_def configureDumpIRPath_def finishPlan_def isDiscovered_def sampleArguments_def
          sampleDisk_def defaultParsed_def defaultConfig_def)
    then show ?thesis using that by blast
  qed
  from planned_inputs_are_the_requested_ones [OF plan(1)] plan(2) req show ?thesis by auto
qed

text \<open>
  C38: When the loads come from the worker threads, shared loading reports every input once and in
  the order of the inputs, each analyzed with the indices of all modules; if some input does not
  load, the run fails with the message of the first such input.
\<close>
theorem shared_loading_keeps_the_order:
  assumes "slots \<in> runParallelWork (length files) jobs (\<lambda>i. load (files ! i))"
  shows "analyzeWithSharedModuleLoading indices analyze slots files =
     (case firstNotLoaded load files of
        Some f \<Rightarrow> appFailure (slotFailure (slotLoadError (load f)) f)
      | None \<Rightarrow> appSuccess (entriesInOrder load (analyze (indices (loadedModules load files))) files))"
  using assms by (rule shared_loading_of_workers)

lemma shared_loading_keeps_the_order_witness:
  "analyzeWithSharedModuleLoading (\<lambda>ms. ()) (\<lambda>_ _. \<lparr>ar_config = defaultConfig, ar_functions = [], ar_diagnostics = []\<rparr>)
     (sequentialResults 2 (\<lambda>_. \<lparr>ml_module = None, ml_error = ''bad'', ml_frontendDiagnostics = [], ml_diagLine = 0,
        ml_diagFile = [], ml_diagText = []\<rparr> :: unit ModuleLoad)) [''a.c'', ''b.c'']
     = appFailure (''bad'' @ [CHR 0x0A] @ ''Failed to analyze: a.c'')"
proof -
  let ?l = "\<lparr>ml_module = None, ml_error = ''bad'', ml_frontendDiagnostics = [], ml_diagLine = 0,
        ml_diagFile = [], ml_diagText = []\<rparr> :: unit ModuleLoad"
  have "sequentialResults 2 (\<lambda>_. ?l) \<in> runParallelWork (length [''a.c'', ''b.c'']) 4 (\<lambda>i. (\<lambda>_. ?l) ([''a.c'', ''b.c''] ! i))"
    by (simp add: parallel_results numeral_2_eq_2)
  from shared_loading_keeps_the_order [OF this]
  show ?thesis by (simp add: slotFailure_def slotLoadError_def terminateLine_def)
qed


end
