(* ===== verification/Spec2Isabelle.thy ===== *)
theory Spec2Isabelle
  imports RangeSets Worklist InitState UninitSummary IntRange StackUsage CallCycles RecursionPath
    SmtSolver SmtEncoding SmtSoundness SmtWellFormed Z3Backend Z3Terms ModuleGraph CrossTU CrossTUUninit RuleFiles
    CliValues CliText Paths CliParser ParallelWork AppFilters
    Reports AppRun
begin

text \<open>
  A model of the CoreTrace stack analyzer, a static analyzer over LLVM IR that reports stack
  overflows, uninitialized reads, infinite recursion, integer overflows and related defects.

  The program and its parts.  The application (src/src/app) reads the command line, turns each
  input file into an LLVM module, runs the analyses of src/src/analysis over it (wired by
  src/src/analyzer), and prints the findings (src/src/report).  An analysis works on the LLVM
  module alone; it shares no state with the others, except that the path sensitive ones ask the
  SMT layer (src/src/analysis/smt) whether a finding can really happen and drop it when the
  answer is no.  The development therefore follows the analyses one by one, and puts the SMT
  layer in theories of its own.

  Theories and code.

  Prelude.  The widths (u64, i64, ...), the theorem collections and the lemmas on lists, words
  and maps that the components share.

  RangeSets, Worklist, InitState, UninitSummary: UninitializedVarAnalysis.cpp.  RangeSets holds
  ByteRange and the sorted range vectors (addRange, intersectRanges, the three coverage queries)
  with their abstraction to sets of bytes; Worklist the generic worklist exploration; InitState
  the tracked objects, their layouts, the state vectors, the meet over predecessors and the
  sweeps up to maxIterations; UninitSummary the effects of a function on its parameters, the
  internal and the public form of a summary, merging, comparison, and the fixpoint over dirty
  functions.  The transfer function of one instruction and the analysis of one function are
  arguments.

  IntRange: IntRanges.cpp and the constraint part of StackComputation.cpp.  The intervals that
  comparisons put on a value, as 64-bit integers with the wrap-around of the code.

  StackUsage, CallCycles, RecursionPath: StackComputation.cpp and buildMaxStackCallPath of
  AnalyzerUtils.cpp.  Local frames from IR and from the ABI, the call graph, the totals over it
  and the printed call path; Tarjan's algorithm; infinite recursion by dominance and by a
  bounded search of paths under edge constraints.

  SmtSolver: SolverOrchestrator.cpp, SmtRefinement.hpp and the headers of src/include/analysis/smt.
  Constraints, queries, backends, the solver modes and the evaluation of a query.  SmtEncoding:
  SmtEncoding.cpp, from LLVM values (a finite graph of records) to constraints.  Z3Backend:
  Z3Backend.cpp over a record of the functions of the Z3 library.  SmtSoundness gives the
  constraints their SMT-LIB meaning and relates them to runs of the analysed function;
  SmtWellFormed states what every encoded query looks like; Z3Terms instantiates the library by
  a concrete term language.

  ModuleGraph, CrossTU, CrossTUUninit: the cross-file part of AnalyzerApp.cpp.  ModuleGraph holds
  the definitions of each file, the edges through names that one file defines, Tarjan's algorithm
  on file indices, the order and the levels of the components.  CrossTU is the loop over levels,
  single files and cyclic components with its dirty marking and its cap of 12 iterations, over a
  record of the operations on a summary index; CrossTUUninit instantiates it for the summaries of
  the uninitialized-read analysis.  The files of one level are built by worker threads in the
  code; the model builds them in order, which gives the same results (see ParallelWork) because
  they read the index of the level below only.

  RuleFiles: BufferWriteModel.cpp, StackPointerEscapeModel.cpp and the model part of
  ResourceLifetimeAnalysis.cpp.  The line format and the three parsers, the wildcard matcher that
  the files repeat, and the choice of a rule for a called function.

  CliValues, CliText, Paths, CliParser: ArgParser.cpp.  The readers of option values; splitting a
  command line and suggesting options by edit distance; the lexical path operations; the option
  tables, the configuration file and the loop over the arguments.  The content of a file, the
  current directory and the number of hardware threads are arguments.

  ParallelWork, AppFilters, Reports, AppRun: the rest of AnalyzerApp.cpp with FunctionFilter.cpp,
  mangle.cpp and ReportSerialization.cpp.  ParallelWork holds the worker threads over an atomic
  counter as a step relation; AppFilters the filters on paths, names and results; Reports the JSON
  and SARIF texts; AppRun the plan, the loading strategies, the run and the printed output.  The
  demangler, the file system, the compilation database, the loading and the analysis of a module
  are arguments (the record world of AppRun).

  What the lemmas show.  RangeSets: the range vectors stay sorted and disjoint, and compute
  union, intersection and inclusion of sets of bytes.  InitState: once the sweeps converge, every
  byte recorded as initialised at a block is initialised in every run that reaches it, if the
  transfer is right about each block on its own; on loop free functions they do converge.  UninitSummary: merging is a join, the loop stops at a fixpoint, export and import
  are inverse.  StackUsage: frames cover their locals and are aligned; without cycles the total
  is the cost of the most expensive call chain and the printed path attains it.  CallCycles: the
  recursive functions are those on a cycle.  RecursionPath: a dominance report means that every
  returning path recurses; without constraints on the branches the path search answers as the set
  of returning paths does.  SmtSoundness, Z3Terms: the path query and the overflow queries hold
  under every valuation that satisfies the instructions they read at once, within the ranges and
  the assumptions.  When moreover no two symbols share a Z3 name, the refinement does not refute an
  edge or an overflowing sum of such a single pass, in any solver mode.  It does refute reachable
  findings outside these limits, and lemmas exhibit it: a phi carried around a loop
  (\<open>loop_iteration_is_pruned\<close>), two values of one name (\<open>shared_name_refutes_a_run\<close>), a range
  recorded for the wrapping sum itself (\<open>ranged_sum_refutes_its_overflow\<close>) and products
  (\<open>product_overflow_is_refuted\<close>).

  ModuleGraph: components come out callees first and levels separate them.  CrossTUUninit: without
  a cap reached, every file reproduces its summary under the final index.  RuleFiles: the matcher
  ends and decides the pattern, the first fitting rule is found, rules survive printing, an error
  names the first bad line.  CliValues, CliText, CliParser: values are read without wrap-around, the
  edit distance is the fewest edits, splitting undoes quoting, an option at the end of the command
  line overrides earlier ones and the configuration file, and every accepted configuration is well
  formed.
  ParallelWork: every interleaving of the workers ends with the results of the sequential loop.
  AppFilters: the filter before the analysis and the filter of the report, which have a copy of the
  matchers each, agree.  Reports: strings read back from a report, and the SARIF rules are those of
  the results.  AppRun: a run has the specified outcome whatever the interleaving of the loading
  threads, keeps the order of the inputs, and succeeds exactly when it can be planned, its inputs
  load and its SARIF file can be written; the indices across files are an argument there.

  Locales.  summary_indices (CrossTU) states the laws of the operations on a summary index, under
  which the loop is proved; CrossTUUninit interprets it.  z3_laws states what the backend relies on in the Z3 library (a model of the asserted
  formulas is never answered by unsat); it is a sublocale of refinement, the contract the
  orchestration needs of a backend, and is interpreted by the term language of Z3Terms.

  Bounds.  The sweeps of InitState run at most maxIterations times, as in the code.  The recursive
  algorithms of the code carry fuel where the recursion is over a graph: CallCycles takes the
  number of functions, StackUsage the number of functions plus one, Z3Backend the number of nodes,
  and each theory proves its fuel to be enough, so that the result is that of the unbounded
  recursion.  The wildcard matcher is a partial function, proved to return.  The path search of RecursionPath keeps the step limit of the code.

  Not modelled.  LLVM itself (its values are records or parameters), the file system, subprocesses,
  logging and timing, and the analyses that the manifest lists as not modelled.
\<close>

end
